(* ===== verification/Prelude.thy ===== *)
theory Prelude
  imports Main "HOL-Library.Word"
begin

text \<open>
  Shared vocabulary of the development: names for the C integer types, checked memory
  operations on arrays (\<open>None\<close> stands for an access outside the array, which C leaves
  undefined), the cyclic window of a ring buffer, and the word and list facts that several
  components use.
\<close>

unbundle bit_operations_syntax

section \<open>C integer types\<close>

type_synonym u8 = "8 word"
type_synonym u16 = "16 word"
type_synonym u32 = "32 word"

text \<open>Facts that evaluate word expressions on concrete operands.\<close>

named_theorems word_eval

text \<open>Facts that move a bounded word computation to natural numbers.\<close>

named_theorems to_nat

lemma unat_add_bounded [to_nat]:
  "unat a + unat b < 2 ^ LENGTH('w) \<Longrightarrow> unat (a + b) = unat a + unat b" for a b :: "'w::len word"
  by (simp add: unat_word_ariths)

lemma unat_sub_bounded [to_nat]:
  "unat b \<le> unat a \<Longrightarrow> unat (a - b) = unat a - unat b" for a b :: "'w::len word"
  by (simp add: unat_sub word_le_nat_alt)

lemma word_min_if_nat [to_nat]:
  "unat (if a \<le> b then a else b) = min (unat a) (unat b)" for a b :: "'w::len word"
  by (simp add: word_le_nat_alt min_def)

lemma word_less_of_nat_add:
  "unat a + n < 2 ^ LENGTH('w) \<Longrightarrow> unat (a + of_nat n) = unat a + n" for a :: "'w::len word"
  by (simp add: unat_word_ariths take_bit_eq_mod unsigned_of_nat mod_add_right_eq)

lemma unat_u8 [simp]: "unat (b :: u8) < 256"
  using unsigned_less [of b] by simp

lemma unat_u8_le [simp]: "unat (b :: u8) \<le> 255"
  using unat_u8 [of b] by linarith

lemma unat_of_nat_u8 [simp]: "n < 256 \<Longrightarrow> unat (of_nat n :: u8) = n"
  by (simp add: unsigned_of_nat take_bit_nat_eq_self)

lemma uint_le_unat: "uint w \<le> int n \<longleftrightarrow> unat w \<le> n" for w :: "'w::len word"
  by (simp only: uint_nat of_nat_le_iff)

lemma unat_of_nat_small: "n < 2 ^ LENGTH('w) \<Longrightarrow> unat (of_nat n :: 'w::len word) = n"
  by (simp add: unsigned_of_nat take_bit_nat_eq_self)

lemma unat_ucast_mod: "unat (ucast w :: 'b::len word) = unat w mod 2 ^ LENGTH('b)" for w :: "'a::len word"
  by (simp add: unsigned_ucast_eq take_bit_eq_mod)

lemma unat_ucast_widen: "LENGTH('a) \<le> LENGTH('b) \<Longrightarrow> unat (ucast w :: 'b::len word) = unat w"
  for w :: "'a::len word"
proof -
  assume "LENGTH('a) \<le> LENGTH('b)"
  then have "(2 :: nat) ^ LENGTH('a) \<le> 2 ^ LENGTH('b)" by simp
  then have "unat w < 2 ^ LENGTH('b)" using unsigned_less [of w] by (rule less_le_trans [rotated])
  then show ?thesis by (simp add: unat_ucast_mod)
qed

text \<open>Splitting a 16-bit value in two bytes, as the protocol code does, and joining them.\<close>

definition hi8 :: "u16 \<Rightarrow> u8" where
  "hi8 w = ucast (drop_bit 8 w)"

definition lo8 :: "u16 \<Rightarrow> u8" where
  "lo8 w = ucast (w AND 0xFF)"

definition join16 :: "u8 \<Rightarrow> u8 \<Rightarrow> u16" where
  "join16 h l = push_bit 8 (ucast h) OR ucast l"

lemma lo8_take_bit: "lo8 w = ucast (take_bit 8 w)"
  by (simp add: lo8_def take_bit_eq_mask mask_eq_exp_minus_1)

lemma join16_split [simp]: "join16 (hi8 w) (lo8 w) = w"
  by (rule bit_word_eqI) (auto simp: join16_def hi8_def lo8_take_bit bit_simps)

section \<open>C truncating division\<close>

text \<open>C rounds a quotient towards zero; \<open>div\<close> on \<open>int\<close> rounds down.\<close>

definition cdiv :: "int \<Rightarrow> int \<Rightarrow> int" where
  "cdiv a b = sgn a * sgn b * (\<bar>a\<bar> div \<bar>b\<bar>)"

definition crem :: "int \<Rightarrow> int \<Rightarrow> int" where
  "crem a b = a - cdiv a b * b"

lemma cdiv_nonneg [simp]: "0 \<le> a \<Longrightarrow> 0 < b \<Longrightarrow> cdiv a b = a div b"
  by (cases "a = 0") (simp_all add: cdiv_def)

lemma crem_nonneg [simp]: "0 \<le> a \<Longrightarrow> 0 < b \<Longrightarrow> crem a b = a mod b"
  by (simp add: crem_def minus_div_mult_eq_mod)

section \<open>Checked memory\<close>

text \<open>An indexed store and load; a C index is signed, so it may also fall below the array.\<close>

definition c_store :: "'a list \<Rightarrow> int \<Rightarrow> 'a \<Rightarrow> 'a list option" where
  "c_store xs i v = (if 0 \<le> i \<and> i < int (length xs) then Some (xs[nat i := v]) else None)"

definition c_load :: "'a list \<Rightarrow> int \<Rightarrow> 'a option" where
  "c_load xs i = (if 0 \<le> i \<and> i < int (length xs) then Some (xs ! nat i) else None)"

definition memset :: "'a list \<Rightarrow> nat \<Rightarrow> 'a \<Rightarrow> nat \<Rightarrow> 'a list option" where
  "memset dst off v n =
     (if off + n \<le> length dst
      then Some (take off dst @ replicate n v @ drop (off + n) dst) else None)"

definition memcpy :: "'a list \<Rightarrow> nat \<Rightarrow> 'a list \<Rightarrow> nat \<Rightarrow> nat \<Rightarrow> 'a list option" where
  "memcpy dst doff src soff n =
     (if doff + n \<le> length dst \<and> soff + n \<le> length src
      then Some (take doff dst @ take n (drop soff src) @ drop (doff + n) dst) else None)"

lemma length_c_store: "c_store xs i v = Some ys \<Longrightarrow> length ys = length xs"
  by (auto simp: c_store_def split: if_splits)

lemma length_memcpy: "memcpy dst doff src soff n = Some ys \<Longrightarrow> length ys = length dst"
  by (auto simp: memcpy_def split: if_splits)

lemma length_memset: "memset dst off v n = Some ys \<Longrightarrow> length ys = length dst"
  by (auto simp: memset_def split: if_splits)

lemma c_store_defined [simp]:
  "0 \<le> i \<Longrightarrow> i < int (length xs) \<Longrightarrow> c_store xs i v = Some (xs[nat i := v])"
  by (simp add: c_store_def)

lemma c_store_unat: "unat i < length xs \<Longrightarrow> c_store xs (uint i) v = Some (xs[unat i := v])"
  unfolding c_store_def uint_nat by (simp only: of_nat_less_iff of_nat_0_le_iff nat_int simp_thms if_True)

lemma c_load_unat: "unat i < length xs \<Longrightarrow> c_load xs (uint i) = Some (xs ! unat i)"
  unfolding c_load_def uint_nat by (simp only: of_nat_less_iff of_nat_0_le_iff nat_int simp_thms if_True)

lemma c_load_nat: "i < length xs \<Longrightarrow> c_load xs (int i) = Some (xs ! i)"
  by (simp add: c_load_def)

lemma memset_all: "memset dst 0 v (length dst) = Some (replicate (length dst) v)"
  by (simp add: memset_def)

lemma memcpy_nth:
  assumes "memcpy dst doff src soff n = Some ys" and "j < length dst"
  shows "ys ! j = (if doff \<le> j \<and> j < doff + n then src ! (soff + (j - doff)) else dst ! j)"
proof -
  define ms where "ms = take n (drop soff src)"
  from assms(1) have ys: "ys = take doff dst @ ms @ drop (doff + n) dst"
    and bounds: "doff + n \<le> length dst" "soff + n \<le> length src"
    by (auto simp: memcpy_def ms_def split: if_splits)
  have "length ms = n" and "\<And>k. k < n \<Longrightarrow> ms ! k = src ! (soff + k)"
    using bounds by (simp_all add: ms_def)
  with bounds assms(2) show ?thesis unfolding ys
    by (cases "j < doff"; cases "j < doff + n") (auto simp: nth_append)
qed

section \<open>The cyclic window of a ring buffer\<close>

text \<open>
  The \<open>n\<close> elements of \<open>buf\<close> from index \<open>r\<close> on, wrapping at the end: what a ring
  buffer with read position \<open>r\<close> and fill level \<open>n\<close> holds, oldest first.
\<close>

definition window :: "'a list \<Rightarrow> nat \<Rightarrow> nat \<Rightarrow> 'a list" where
  "window buf r n = map (\<lambda>i. buf ! ((r + i) mod length buf)) [0..<n]"

lemma length_window [simp]: "length (window buf r n) = n"
  by (simp add: window_def)

lemma window_nth: "i < n \<Longrightarrow> window buf r n ! i = buf ! ((r + i) mod length buf)"
  by (simp add: window_def)

lemma window_0 [simp]: "window buf r 0 = []"
  by (simp add: window_def)

lemma take_window: "m \<le> n \<Longrightarrow> take m (window buf r n) = window buf r m"
  by (rule nth_equalityI) (auto simp: window_nth)

lemma drop_window: "m \<le> n \<Longrightarrow> drop m (window buf r n) = window buf (r + m) (n - m)"
  by (rule nth_equalityI) (auto simp: window_nth add.assoc)

lemma window_append: "window buf r m @ window buf (r + m) n = window buf r (m + n)"
  by (rule nth_equalityI) (auto simp: window_nth nth_append)

lemma window_mod: "window buf (r mod length buf) n = window buf r n"
  by (simp add: window_def mod_add_left_eq)

lemma window_straight: "r + n \<le> length buf \<Longrightarrow> window buf r n = take n (drop r buf)"
  by (rule nth_equalityI) (auto simp: window_nth)

lemma window_two_chunks:
  assumes "r < length buf" and "n \<le> length buf" and "length buf - r \<le> n"
  shows "window buf r n = drop r buf @ take (n - (length buf - r)) buf"
proof -
  let ?k = "length buf - r"
  have "window buf r n = window buf r ?k @ window buf (r + ?k) (n - ?k)"
    using assms window_append [of buf r ?k "n - ?k"] by simp
  also have "window buf r ?k = drop r buf"
    using assms by (simp add: window_straight)
  also have "window buf (r + ?k) (n - ?k) = window buf 0 (n - ?k)"
    using assms window_mod [of buf "length buf" "n - ?k"] by simp
  also have "\<dots> = take (n - ?k) buf"
    using assms by (simp add: window_straight)
  finally show ?thesis .
qed

text \<open>
  Overwriting \<open>p\<close> cells from \<open>w\<close> on, where \<open>w\<close> is the position right after a window
  of \<open>c\<close> elements and the ring has room for \<open>p\<close> more: the window grows by exactly the
  elements written.
\<close>

lemma window_write:
  assumes len: "length buf' = length buf" and r: "r < length buf" and room: "c + p \<le> length buf"
    and p: "p = length xs"
    and new: "\<And>i. i < p \<Longrightarrow> buf' ! ((r + c + i) mod length buf) = xs ! i"
    and old: "\<And>j. j < length buf \<Longrightarrow> (\<forall>i<p. j \<noteq> (r + c + i) mod length buf) \<Longrightarrow> buf' ! j = buf ! j"
  shows "window buf' r (c + p) = window buf r c @ xs"
proof (rule nth_equalityI)
  show "length (window buf' r (c + p)) = length (window buf r c @ xs)"
    using p by simp
next
  fix i assume "i < length (window buf' r (c + p))"
  then have i: "i < c + p" by simp
  show "window buf' r (c + p) ! i = (window buf r c @ xs) ! i"
  proof (cases "i < c")
    case True
    have "(r + i) mod length buf \<noteq> (r + c + k) mod length buf" if "k < p" for k
    proof
      assume eq: "(r + i) mod length buf = (r + c + k) mod length buf"
      then have "length buf dvd (r + c + k) - (r + i)"
        using True by (metis add.assoc le_add1 le_less_trans less_imp_le mod_eq_dvd_iff_nat
            nat_add_left_cancel_le trans_le_add1)
      then have "length buf dvd c + k - i" using True by simp
      moreover have "0 < c + k - i" and "c + k - i < length buf" using True that room by auto
      ultimately show False by (simp add: nat_dvd_not_less)
    qed
    then have "buf' ! ((r + i) mod length buf) = buf ! ((r + i) mod length buf)"
      using old r by (metis gr_implies_not0 length_0_conv length_greater_0_conv mod_less_divisor)
    then show ?thesis using True i len by (simp add: window_nth nth_append)
  next
    case False
    then obtain k where k: "i = c + k" and "k < p" using i less_eqE by (metis le_add_diff_inverse nat_add_left_cancel_less not_less)
    then show ?thesis using new [of k] i len p
      by (simp add: window_nth nth_append add.assoc)
  qed
qed

text \<open>
  The two block copies by which ring code moves \<open>m\<close> elements out of a ring: up to its end,
  then the rest from its beginning.
\<close>

lemma two_chunk_read:
  assumes r: "r < length buf" and m: "m \<le> length buf" "m \<le> length dst"
    and f: "f = min (length buf - r) m"
  shows "\<exists>d. memcpy dst 0 buf r f = Some d \<and>
    (if 0 < m - f then memcpy d f buf 0 (m - f) else Some d) = Some (window buf r m @ drop m dst)"
proof (cases "m \<le> length buf - r")
  case True
  then have "f = m" using f by simp
  with True r m show ?thesis by (simp add: memcpy_def window_straight)
next
  case False
  then have f': "f = length buf - r" and "f < m" using f by auto
  have "window buf r m = drop r buf @ take (m - f) buf"
    using window_two_chunks [of r buf m] r m False f' by simp
  moreover have "memcpy dst 0 buf r f = Some (drop r buf @ drop f dst)"
    using r m \<open>f < m\<close> f' by (simp add: memcpy_def)
  moreover have "memcpy (drop r buf @ drop f dst) f buf 0 (m - f)
      = Some (drop r buf @ take (m - f) buf @ drop m dst)"
    using r m \<open>f < m\<close> f' by (auto simp: memcpy_def)
  ultimately show ?thesis using \<open>f < m\<close> by simp
qed

text \<open>And the two copies that move them in.\<close>

lemma two_chunk_write:
  assumes w: "w < length buf" and p: "p \<le> length buf" "p \<le> length src"
    and f: "f = min (length buf - w) p"
  shows "\<exists>b1 b2. memcpy buf w src 0 f = Some b1 \<and>
    (if 0 < p - f then memcpy b1 0 src f (p - f) else Some b1) = Some b2 \<and>
    length b2 = length buf \<and>
    (\<forall>i<p. b2 ! ((w + i) mod length buf) = src ! i) \<and>
    (\<forall>j<length buf. (\<forall>i<p. j \<noteq> (w + i) mod length buf) \<longrightarrow> b2 ! j = buf ! j)"
proof -
  define b1 where "b1 = the (memcpy buf w src 0 f)"
  define b2 where "b2 = the (if 0 < p - f then memcpy b1 0 src f (p - f) else Some b1)"
  have 1: "memcpy buf w src 0 f = Some b1"
    using w p f by (auto simp: b1_def memcpy_def)
  then have len1: "length b1 = length buf" by (rule length_memcpy)
  have 2: "(if 0 < p - f then memcpy b1 0 src f (p - f) else Some b1) = Some b2"
    using w p f len1 by (auto simp: b2_def memcpy_def)
  then have len2: "length b2 = length buf"
    using len1 by (auto dest: length_memcpy split: if_splits)
  have n1: "b1 ! j = (if w \<le> j \<and> j < w + f then src ! (j - w) else buf ! j)"
    if "j < length buf" for j
    using memcpy_nth [OF 1 that] by simp
  have n2: "b2 ! j = (if 0 < p - f \<and> j < p - f then src ! (f + j) else b1 ! j)"
    if "j < length buf" for j
    using 2 memcpy_nth [of b1 0 src f "p - f" b2 j] len1 that by (auto split: if_splits)
  have new: "b2 ! ((w + i) mod length buf) = src ! i" if i: "i < p" for i
  proof (cases "w + i < length buf")
    case True
    then have "i < f" and "\<not> w + i < p - f" using f i w p by auto
    then show ?thesis using True n1 n2 by simp
  next
    case False
    then have "(w + i) mod length buf = w + i - length buf"
      using i p w by (simp add: mod_if)
    moreover have "f = length buf - w" using False f i by simp
    moreover have "w + i - length buf < p - f" and "f + (w + i - length buf) = i"
      using False i p w \<open>f = length buf - w\<close> by auto
    moreover have "w + i - length buf < length buf" and "0 < p - f"
      using i p w \<open>w + i - length buf < p - f\<close> by auto
    ultimately show ?thesis using n2 [of "w + i - length buf"] by presburger
  qed
  have old: "b2 ! j = buf ! j"
    if j: "j < length buf" and untouched: "\<forall>i<p. j \<noteq> (w + i) mod length buf" for j
  proof -
    have "\<not> (w \<le> j \<and> j < w + f)"
    proof
      assume "w \<le> j \<and> j < w + f"
      moreover have "f \<le> p" using f by simp
      ultimately have "j - w < p" "w + (j - w) = j" by linarith+
      then show False using untouched [rule_format, of "j - w"] j by simp
    qed
    moreover have "\<not> j < p - f"
    proof
      assume "j < p - f"
      then have "f = length buf - w" and "f + j < p" using f by auto
      then show False using untouched [rule_format, of "f + j"] j w by (simp add: mod_if)
    qed
    ultimately show ?thesis unfolding n2 [OF j] n1 [OF j] by auto
  qed
  show ?thesis using 1 2 len2 new old by blast
qed

section \<open>C strings\<close>

text \<open>A C string literal as bytes, without its terminating zero.\<close>

definition c_lit :: "string \<Rightarrow> u8 list" where
  "c_lit str = map (\<lambda>c. of_nat (of_char c)) str"

text \<open>
  \<open>strncpy\<close> of at most \<open>n\<close> bytes of a string, zero filled to exactly \<open>n\<close> bytes: the
  string is given without its terminating zero.
\<close>

definition strncpy :: "nat \<Rightarrow> u8 list \<Rightarrow> u8 list" where
  "strncpy n str = take n str @ replicate (n - length str) 0"

lemma length_strncpy [simp]: "length (strncpy n str) = n"
  by (simp add: strncpy_def)

text \<open>The string a zero-terminated byte array holds: everything before the first zero.\<close>

definition c_string :: "u8 list \<Rightarrow> u8 list" where
  "c_string buf = takeWhile (\<lambda>b. b \<noteq> 0) buf"

text \<open>The number that decimal digits stand for, and the digits of a number.\<close>

definition digits_value :: "u8 list \<Rightarrow> int" where
  "digits_value ds = foldl (\<lambda>v b. v * 10 + (uint b - 48)) 0 ds"

fun digits :: "nat \<Rightarrow> u8 list" where
  "digits n = (if n < 10 then [of_nat (48 + n)] else digits (n div 10) @ [of_nat (48 + n mod 10)])"

declare digits.simps [simp del]

text \<open>The conversion \<open>%d\<close> of the \<open>printf\<close> family.\<close>

definition print_d :: "int \<Rightarrow> u8 list" where
  "print_d i = (if i < 0 then c_lit ''-'' @ digits (nat (- i)) else digits (nat i))"

lemma digits_value_snoc: "digits_value (ds @ [b]) = digits_value ds * 10 + (uint b - 48)"
  by (simp add: digits_value_def)

lemma uint_digit: "n < 10 \<Longrightarrow> uint (of_nat (48 + n) :: u8) = int (48 + n)"
  by (simp only: uint_nat unat_of_nat_u8)

lemma digits_value_digits: "digits_value (digits n) = int n"
proof (induction n rule: less_induct)
  case (less n)
  show ?case
  proof (cases "n < 10")
    case True
    then show ?thesis using uint_digit [OF True] by (simp add: digits.simps [of n] digits_value_def)
  next
    case False
    then have IH: "digits_value (digits (n div 10)) = int (n div 10)" by (intro less.IH) simp
    have "digits n = digits (n div 10) @ [of_nat (48 + n mod 10)]" using False by (simp add: digits.simps [of n])
    then have "digits_value (digits n) = int (n div 10) * 10 + (int (48 + n mod 10) - 48)"
      by (simp only: digits_value_snoc IH uint_digit mod_less_divisor zero_less_numeral)
    then show ?thesis by presburger
  qed
qed

lemma digits_range: "b \<in> set (digits n) \<Longrightarrow> 48 \<le> unat b \<and> unat b \<le> 57"
proof (induction n rule: less_induct)
  case (less n)
  show ?case
  proof (cases "n < 10")
    case True
    then have "b = of_nat (48 + n)" using less.prems by (simp add: digits.simps [of n])
    then show ?thesis using True by (simp only: unat_of_nat_u8, simp)
  next
    case False
    then have "b \<in> set (digits (n div 10)) \<or> b = of_nat (48 + n mod 10)"
      using less.prems False by (auto simp: digits.simps [of n])
    moreover have "48 \<le> unat (of_nat (48 + n mod 10) :: u8) \<and> unat (of_nat (48 + n mod 10) :: u8) \<le> 57"
      by (subst (1 2) unat_of_nat_u8) auto
    ultimately show ?thesis using less.IH [of "n div 10"] False by auto
  qed
qed

lemma c_string_strncpy:
  "0 \<notin> set str \<Longrightarrow> c_string (strncpy n str @ [0]) = take n str"
  by (auto simp: c_string_def strncpy_def takeWhile_append takeWhile_eq_all_conv
      takeWhile_replicate dest: in_set_takeD)

end
