(* ===== verification/Fifo.thy ===== *)
theory Fifo
  imports Prelude
begin

text \<open>
  The contract of a bounded first-in first-out buffer. Two components provide it, the SPI
  sample ring of \<open>audio_stream_rx.c\<close> and the file-name queue of \<open>audio_player.c\<close>; what
  their clients rely on is proved here once.
\<close>

datatype 'a fifo_op = Push "'a list" | Pull nat

text \<open>
  A sequence of operations, with what was accepted and what was taken out, in order;
  \<open>None\<close> when an operation left its arrays.
\<close>

fun fifo_run :: "('a list \<Rightarrow> 's \<Rightarrow> (nat \<times> 's) option) \<Rightarrow> (nat \<Rightarrow> 's \<Rightarrow> ('a list \<times> 's) option) \<Rightarrow>
    'a fifo_op list \<Rightarrow> 's \<Rightarrow> ('a list \<times> 'a list \<times> 's) option" where
  "fifo_run push pull [] s = Some ([], [], s)"
| "fifo_run push pull (Push xs # ops) s =
     (case push xs s of None \<Rightarrow> None
      | Some (n, s') \<Rightarrow>
          (case fifo_run push pull ops s' of None \<Rightarrow> None
           | Some (acc, out, t) \<Rightarrow> Some (take n xs @ acc, out, t)))"
| "fifo_run push pull (Pull n # ops) s =
     (case pull n s of None \<Rightarrow> None
      | Some (ys, s') \<Rightarrow>
          (case fifo_run push pull ops s' of None \<Rightarrow> None
           | Some (acc, out, t) \<Rightarrow> Some (acc, ys @ out, t)))"

text \<open>The operations a client may issue: block sizes within the limit, admissible elements.\<close>

fun op_ok :: "nat \<Rightarrow> ('a \<Rightarrow> bool) \<Rightarrow> 'a fifo_op \<Rightarrow> bool" where
  "op_ok limit ok (Push xs) \<longleftrightarrow> length xs \<le> limit \<and> list_all ok xs"
| "op_ok limit ok (Pull n) \<longleftrightarrow> n \<le> limit"

locale block_fifo =
  fixes inv :: "'s \<Rightarrow> bool"
    and contents :: "'s \<Rightarrow> 'a list"
    and cap :: nat
    and limit :: nat
    and ok :: "'a \<Rightarrow> bool"
    and push :: "'a list \<Rightarrow> 's \<Rightarrow> (nat \<times> 's) option"
    and pull :: "nat \<Rightarrow> 's \<Rightarrow> ('a list \<times> 's) option"
  assumes bounded: "inv s \<Longrightarrow> length (contents s) \<le> cap"
    and push_law: "inv s \<Longrightarrow> length xs \<le> limit \<Longrightarrow> list_all ok xs \<Longrightarrow>
      \<exists>t. push xs s = Some (min (length xs) (cap - length (contents s)), t) \<and> inv t \<and>
        contents t = contents s @ take (cap - length (contents s)) xs"
    and pull_law: "inv s \<Longrightarrow> n \<le> limit \<Longrightarrow>
      \<exists>t. pull n s = Some (take n (contents s), t) \<and> inv t \<and> contents t = drop n (contents s)"
begin

lemma push_fits:
  assumes "inv s" and "length xs \<le> limit" and "list_all ok xs"
    and "length (contents s) + length xs \<le> cap"
  shows "\<exists>t. push xs s = Some (length xs, t) \<and> inv t \<and> contents t = contents s @ xs"
  using push_law [OF assms(1-3)] assms(4) by (auto simp: min_def)

lemma push_full:
  assumes "inv s" and "length xs \<le> limit" and "list_all ok xs" and "length (contents s) = cap"
  shows "\<exists>t. push xs s = Some (0, t) \<and> inv t \<and> contents t = contents s"
  using push_law [OF assms(1-3)] assms(4) by auto

lemma pull_empty:
  assumes "inv s" and "n \<le> limit" and "contents s = []"
  shows "\<exists>t. pull n s = Some ([], t) \<and> inv t \<and> contents t = []"
  using pull_law [OF assms(1,2)] assms(3) by auto

text \<open>
  Every accepted element comes out exactly once and in order: what was inside at the start
  followed by what was accepted is what came out followed by what is still inside.
\<close>

lemma run_conserves:
  "inv s \<Longrightarrow> list_all (op_ok limit ok) ops \<Longrightarrow>
   \<exists>acc out t. fifo_run push pull ops s = Some (acc, out, t) \<and> inv t \<and>
     contents s @ acc = out @ contents t"
proof (induction ops arbitrary: s)
  case Nil
  then show ?case by simp
next
  case (Cons op ops)
  show ?case
  proof (cases op)
    case (Push xs)
    with Cons.prems push_law [of s xs] obtain t where t: "inv t"
      "push xs s = Some (min (length xs) (cap - length (contents s)), t)"
      "contents t = contents s @ take (cap - length (contents s)) xs" by auto
    with Cons.IH [of t] Cons.prems(2) obtain acc out u where
      "fifo_run push pull ops t = Some (acc, out, u)" "inv u" "contents t @ acc = out @ contents u"
      by auto
    with t Push show ?thesis by (auto simp: min_def)
  next
    case (Pull n)
    with Cons.prems pull_law [of s n] obtain t where t: "inv t"
      "pull n s = Some (take n (contents s), t)" "contents t = drop n (contents s)" by auto
    with Cons.IH [of t] Cons.prems(2) obtain acc out u where
      r: "fifo_run push pull ops t = Some (acc, out, u)" "inv u" "contents t @ acc = out @ contents u"
      by auto
    then have "contents s @ acc = take n (contents s) @ out @ contents u"
      using t(3) by (metis append.assoc append_take_drop_id)
    with r t Pull show ?thesis by simp
  qed
qed

end

end
