(* ===== verification/Machine.thy ===== *)
theory Machine
  imports Main
begin

text \<open>
  State machines: the states a machine can reach, the interface between a machine and its invariant, and
  machines that are parts of another one. The components of the edge device with a state (the receiver of
  samples, the player, the screen scheduler) and the whole program are such machines, and the program has the
  components as parts.
\<close>

inductive reached :: "('s \<Rightarrow> bool) \<Rightarrow> ('s \<Rightarrow> 's \<Rightarrow> bool) \<Rightarrow> 's \<Rightarrow> bool" for start step where
  start: "start s \<Longrightarrow> reached start step s"
| step: "reached start step s \<Longrightarrow> step s t \<Longrightarrow> reached start step t"

lemma reached_steps: "step\<^sup>*\<^sup>* s t \<Longrightarrow> reached start step s \<Longrightarrow> reached start step t"
  by (induction rule: rtranclp_induct) (auto intro: reached.step)

section \<open>A machine and its invariant\<close>

locale machine =
  fixes start :: "'s \<Rightarrow> bool" and step :: "'s \<Rightarrow> 's \<Rightarrow> bool" and inv :: "'s \<Rightarrow> bool"
  assumes start_inv: "start s \<Longrightarrow> inv s"
    and step_inv: "inv s \<Longrightarrow> step s t \<Longrightarrow> inv t"
begin

lemma reached_inv: "reached start step s \<Longrightarrow> inv s"
  by (induction rule: reached.induct) (auto intro: start_inv step_inv)

lemma steps_inv: "step\<^sup>*\<^sup>* s t \<Longrightarrow> inv s \<Longrightarrow> inv t"
  by (induction rule: rtranclp_induct) (auto intro: step_inv)

end

section \<open>A machine inside another\<close>

text \<open>
  \<open>view\<close> is the state of the part inside the state of the whole. Every step of the whole is, seen from
  the part, a sequence of steps of its own.
\<close>

locale machine_part = whole: machine start step inv + part: machine part_start part_step part_inv
  for start :: "'s \<Rightarrow> bool" and step and inv
    and part_start :: "'p \<Rightarrow> bool" and part_step and part_inv +
  fixes view :: "'s \<Rightarrow> 'p"
  assumes view_start: "start s \<Longrightarrow> reached part_start part_step (view s)"
    and view_step: "inv s \<Longrightarrow> step s t \<Longrightarrow> part_step\<^sup>*\<^sup>* (view s) (view t)"
begin

lemma view_reached: "reached start step s \<Longrightarrow> reached part_start part_step (view s)"
proof (induction rule: reached.induct)
  case (start s)
  then show ?case by (rule view_start)
next
  case (step s t)
  then have "part_step\<^sup>*\<^sup>* (view s) (view t)" by (intro view_step whole.reached_inv)
  then show ?case using step.IH by (rule reached_steps)
qed

lemma view_steps: "step\<^sup>*\<^sup>* s t \<Longrightarrow> inv s \<Longrightarrow> part_step\<^sup>*\<^sup>* (view s) (view t)"
proof (induction rule: rtranclp_induct)
  case (step t u)
  then have "part_step\<^sup>*\<^sup>* (view t) (view u)" using whole.steps_inv by (blast intro: view_step)
  then show ?case using step by (meson rtranclp_trans)
qed simp

lemma view_inv: "reached start step s \<Longrightarrow> part_inv (view s)"
  by (intro part.reached_inv view_reached)

end

section \<open>A machine that follows a specification\<close>

text \<open>
  Events drive a machine whose steps may fail and deliver outputs; a specification takes the same events, never
  fails and delivers what the outputs stand for.
\<close>

fun run_events :: "('e \<Rightarrow> 's \<Rightarrow> ('o list \<times> 's) option) \<Rightarrow> 'e list \<Rightarrow> 's \<Rightarrow> ('o list \<times> 's) option" where
  "run_events step [] s = Some ([], s)"
| "run_events step (e # es) s =
     (case step e s of None \<Rightarrow> None
      | Some (out, t) \<Rightarrow> map_option (apfst (append out)) (run_events step es t))"

fun spec_events :: "('e \<Rightarrow> 'a \<Rightarrow> 'p list \<times> 'a) \<Rightarrow> 'e list \<Rightarrow> 'a \<Rightarrow> 'p list \<times> 'a" where
  "spec_events spec [] a = ([], a)"
| "spec_events spec (e # es) a =
     (case spec e a of (out, b) \<Rightarrow> apfst (append out) (spec_events spec es b))"

locale implementation =
  fixes step :: "'e \<Rightarrow> 's \<Rightarrow> ('o list \<times> 's) option" and spec :: "'e \<Rightarrow> 'a \<Rightarrow> 'p list \<times> 'a"
    and shown :: "'p \<Rightarrow> 'o" and event_ok :: "'e \<Rightarrow> bool" and stands_for :: "'s \<Rightarrow> 'a \<Rightarrow> bool"
  assumes follows: "stands_for s a \<Longrightarrow> event_ok e \<Longrightarrow>
    \<exists>t. step e s = Some (map shown (fst (spec e a)), t) \<and> stands_for t (snd (spec e a))"
begin

lemma run_follows:
  "stands_for s a \<Longrightarrow> list_all event_ok es \<Longrightarrow>
   \<exists>t. run_events step es s = Some (map shown (fst (spec_events spec es a)), t) \<and>
     stands_for t (snd (spec_events spec es a))"
proof (induction es arbitrary: s a)
  case (Cons e es)
  obtain out b where b: "spec e a = (out, b)" by fastforce
  from Cons.prems obtain t where "step e s = Some (map shown out, t)" "stands_for t b"
    using follows [of s a e] b by auto
  with Cons.IH [of t b] Cons.prems b show ?case
    by (auto simp: apfst_def map_prod_def split: prod.split)
qed simp

end

end
