(* ===== verification/Audio_Stream_Rx.thy ===== *)
theory Audio_Stream_Rx
  imports Fifo Machine "HOL-Library.Monad_Syntax"
begin

text \<open>
  \<open>Core/Src/services/audio/audio_stream_rx.c\<close>: PCM blocks arrive over SPI into two DMA
  buffers used in turn; the main loop moves a finished block into a byte ring, and the player
  reads the ring. The record holds the file's static variables, under their names, and
  \<open>dma_target\<close>, the block the DMA controller is filling: it changes by a successful call of
  \<open>HAL_SPI_Receive_DMA\<close>, whose result the environment chooses (the Boolean argument of the
  operations that call it). Diagnostic \<open>printf\<close>s are left out.
\<close>

section \<open>State\<close>

definition AUDIO_STREAM_RX_BLOCK_SIZE :: u32 where "AUDIO_STREAM_RX_BLOCK_SIZE = 1920"

definition AUDIO_STREAM_RING_SIZE :: u32 where "AUDIO_STREAM_RING_SIZE = 32768"

record stream_rx =
  s_spiRxBuf :: "u8 list list"
  s_ringBuf :: "u8 list"
  s_write :: u32
  s_read :: u32
  s_count :: u32
  s_dmaBufIndex :: u8
  s_readyFlags :: "u8 list"
  s_rxBlockCount :: u32
  s_overflowDropCount :: u32
  s_spiErrorCount :: u32
  dma_target :: "nat option"

text \<open>The values the statics have at power-on.\<close>

definition rx_power_on :: stream_rx where
  "rx_power_on = \<lparr>s_spiRxBuf = replicate 2 (replicate 1920 0), s_ringBuf = replicate 32768 0,
     s_write = 0, s_read = 0, s_count = 0, s_dmaBufIndex = 0, s_readyFlags = [0, 0],
     s_rxBlockCount = 0, s_overflowDropCount = 0, s_spiErrorCount = 0, dma_target = None\<rparr>"

section \<open>Operations\<close>

definition HAL_SPI_Receive_DMA :: "bool \<Rightarrow> u8 \<Rightarrow> stream_rx \<Rightarrow> stream_rx" where
  "HAL_SPI_Receive_DMA hal_ok idx s = (if hal_ok then s\<lparr>dma_target := Some (unat idx)\<rparr> else s)"

definition AudioStreamRx_Reset :: "stream_rx \<Rightarrow> stream_rx" where
  "AudioStreamRx_Reset s = s\<lparr>s_write := 0, s_read := 0, s_count := 0, s_dmaBufIndex := 0,
     s_readyFlags := [0, 0], s_rxBlockCount := 0, s_overflowDropCount := 0, s_spiErrorCount := 0\<rparr>"

definition AudioStreamRx_Init :: "stream_rx \<Rightarrow> stream_rx" where
  "AudioStreamRx_Init s =
     (s\<lparr>s_write := 0, s_read := 0, s_count := 0, s_dmaBufIndex := 0, s_readyFlags := [0, 0],
        s_rxBlockCount := 0, s_overflowDropCount := 0, s_spiErrorCount := 0\<rparr>)
       \<lparr>s_spiRxBuf := replicate 2 (replicate (unat AUDIO_STREAM_RX_BLOCK_SIZE) 0),
        s_ringBuf := replicate (unat AUDIO_STREAM_RING_SIZE) 0\<rparr>"

definition AudioStreamRx_Start :: "bool \<Rightarrow> stream_rx \<Rightarrow> stream_rx" where
  "AudioStreamRx_Start hal_ok s =
     (let s = s\<lparr>s_dmaBufIndex := 0, s_readyFlags := [0, 0]\<rparr>
      in HAL_SPI_Receive_DMA hal_ok (s_dmaBufIndex s) s)"

definition AudioStreamRx_Available :: "stream_rx \<Rightarrow> u32" where
  "AudioStreamRx_Available s = s_count s"

definition AudioStreamRx_Read ::
    "stream_rx \<Rightarrow> u8 list \<Rightarrow> u32 \<Rightarrow> (u32 \<times> u8 list \<times> stream_rx) option" where
  "AudioStreamRx_Read s dst len =
     (let readLen = (if len \<le> s_count s then len else s_count s);
          firstChunk = AUDIO_STREAM_RING_SIZE - s_read s;
          firstChunk = (if firstChunk > readLen then readLen else firstChunk);
          secondChunk = readLen - firstChunk
      in do {
        dst \<leftarrow> memcpy dst 0 (s_ringBuf s) (unat (s_read s)) (unat firstChunk);
        dst \<leftarrow> (if secondChunk > 0
                then memcpy dst (unat firstChunk) (s_ringBuf s) 0 (unat secondChunk)
                else Some dst);
        let rd = s_read s + readLen;
        let rd = (if rd \<ge> AUDIO_STREAM_RING_SIZE then rd - AUDIO_STREAM_RING_SIZE else rd);
        Some (readLen, dst, s\<lparr>s_read := rd, s_count := s_count s - readLen\<rparr>)
      })"

definition AudioStreamRx_TakeReadyBlock :: "stream_rx \<Rightarrow> (u8 \<times> stream_rx) option" where
  "AudioStreamRx_TakeReadyBlock s =
     (if s_readyFlags s ! 0 \<noteq> 0 then Some (0, s\<lparr>s_readyFlags := (s_readyFlags s)[0 := 0]\<rparr>)
      else if s_readyFlags s ! 1 \<noteq> 0 then Some (1, s\<lparr>s_readyFlags := (s_readyFlags s)[1 := 0]\<rparr>)
      else None)"

definition AudioStreamRx_PushBlock ::
    "stream_rx \<Rightarrow> u8 list \<Rightarrow> u32 \<Rightarrow> (u32 \<times> stream_rx) option" where
  "AudioStreamRx_PushBlock s src len =
     (let freeSize = AUDIO_STREAM_RING_SIZE - s_count s;
          pushLen = (if len \<le> freeSize then len else freeSize);
          firstChunk = AUDIO_STREAM_RING_SIZE - s_write s;
          firstChunk = (if firstChunk > pushLen then pushLen else firstChunk);
          secondChunk = pushLen - firstChunk
      in do {
        ring \<leftarrow> memcpy (s_ringBuf s) (unat (s_write s)) src 0 (unat firstChunk);
        ring \<leftarrow> (if secondChunk > 0 then memcpy ring 0 src (unat firstChunk) (unat secondChunk)
                 else Some ring);
        let wr = s_write s + pushLen;
        let wr = (if wr \<ge> AUDIO_STREAM_RING_SIZE then wr - AUDIO_STREAM_RING_SIZE else wr);
        let s = s\<lparr>s_ringBuf := ring, s_write := wr, s_count := s_count s + pushLen\<rparr>;
        Some (pushLen,
          if pushLen < len
          then s\<lparr>s_overflowDropCount := s_overflowDropCount s + (len - pushLen)\<rparr> else s)
      })"

definition AudioStreamRx_Process :: "stream_rx \<Rightarrow> stream_rx option" where
  "AudioStreamRx_Process s =
     (case AudioStreamRx_TakeReadyBlock s of
        None \<Rightarrow> Some s
      | Some (bufIndex, s) \<Rightarrow>
          map_option snd
            (AudioStreamRx_PushBlock s (s_spiRxBuf s ! unat bufIndex) AUDIO_STREAM_RX_BLOCK_SIZE))"

text \<open>
  The receive-complete interrupt. The transfer that completed is over before the handler
  runs, so no block is being filled until the handler restarts the DMA.
\<close>

definition HAL_SPI_RxCpltCallback :: "bool \<Rightarrow> stream_rx \<Rightarrow> stream_rx" where
  "HAL_SPI_RxCpltCallback hal_ok s =
     (let doneIndex = s_dmaBufIndex s;
          nextIndex = doneIndex XOR 1;
          s = s\<lparr>dma_target := None\<rparr>;
          s = s\<lparr>s_rxBlockCount := s_rxBlockCount s + 1,
                s_readyFlags := (s_readyFlags s)[unat doneIndex := 1],
                s_dmaBufIndex := nextIndex\<rparr>;
          s = HAL_SPI_Receive_DMA hal_ok nextIndex s
      in if hal_ok then s else s\<lparr>s_spiErrorCount := s_spiErrorCount s + 1\<rparr>)"

text \<open>The error interrupt: \<open>HAL_SPI_Abort\<close> stops the running transfer first.\<close>

definition HAL_SPI_ErrorCallback :: "bool \<Rightarrow> stream_rx \<Rightarrow> stream_rx" where
  "HAL_SPI_ErrorCallback hal_ok s =
     (let s = s\<lparr>s_spiErrorCount := s_spiErrorCount s + 1\<rparr>;
          s = s\<lparr>dma_target := None\<rparr>;
          s = s\<lparr>s_dmaBufIndex := 0, s_readyFlags := [0, 0]\<rparr>
      in HAL_SPI_Receive_DMA hal_ok (s_dmaBufIndex s) s)"

text \<open>The controller finishes the block it is filling with \<open>blk\<close>, and the interrupt runs.\<close>

definition dma_complete :: "u8 list \<Rightarrow> bool \<Rightarrow> stream_rx \<Rightarrow> stream_rx" where
  "dma_complete blk hal_ok s =
     (case dma_target s of
        None \<Rightarrow> s
      | Some i \<Rightarrow> HAL_SPI_RxCpltCallback hal_ok (s\<lparr>s_spiRxBuf := (s_spiRxBuf s)[i := blk]\<rparr>))"

section \<open>Invariant\<close>

definition ring_inv :: "stream_rx \<Rightarrow> bool" where
  "ring_inv s \<longleftrightarrow> length (s_ringBuf s) = 32768 \<and> unat (s_read s) < 32768 \<and>
     unat (s_count s) \<le> 32768 \<and>
     unat (s_write s) = (unat (s_read s) + unat (s_count s)) mod 32768"

definition dma_inv :: "stream_rx \<Rightarrow> bool" where
  "dma_inv s \<longleftrightarrow> length (s_spiRxBuf s) = 2 \<and> (\<forall>b \<in> set (s_spiRxBuf s). length b = 1920) \<and>
     s_dmaBufIndex s \<in> {0, 1} \<and> length (s_readyFlags s) = 2 \<and> set (s_readyFlags s) \<subseteq> {0, 1} \<and>
     dma_target s \<in> {None, Some (unat (s_dmaBufIndex s))}"

definition rx_inv :: "stream_rx \<Rightarrow> bool" where
  "rx_inv s \<longleftrightarrow> ring_inv s \<and> dma_inv s"

text \<open>The abstraction: the bytes the ring holds, oldest first.\<close>

definition rx_bytes :: "stream_rx \<Rightarrow> u8 list" where
  "rx_bytes s = window (s_ringBuf s) (unat (s_read s)) (unat (s_count s))"

lemma length_rx_bytes [simp]: "length (rx_bytes s) = unat (s_count s)"
  by (simp add: rx_bytes_def)

section \<open>The ring as a first-in first-out buffer\<close>

lemmas size_defs = AUDIO_STREAM_RING_SIZE_def AUDIO_STREAM_RX_BLOCK_SIZE_def

text \<open>Advancing a ring position by a bounded length, as the code does it on words.\<close>

lemma advance_unat:
  assumes "unat p < 32768" and "unat n \<le> 32768"
  shows "unat (if p + n \<ge> AUDIO_STREAM_RING_SIZE then p + n - AUDIO_STREAM_RING_SIZE else p + n)
    = (unat p + unat n) mod 32768"
proof -
  have s: "unat (p + n) = unat p + unat n"
    using assms by (intro unat_add_bounded) simp
  show ?thesis
    using assms s by (auto simp: size_defs word_le_nat_alt unat_sub_bounded mod_if)
qed

lemma first_chunk_unat:
  assumes "unat p < 32768"
  shows "unat (if AUDIO_STREAM_RING_SIZE - p > n then n else AUDIO_STREAM_RING_SIZE - p)
    = min (32768 - unat p) (unat n)"
proof -
  have "unat (AUDIO_STREAM_RING_SIZE - p) = 32768 - unat p"
    using assms by (simp add: size_defs unat_sub_bounded)
  then show ?thesis by (auto simp: word_less_nat_alt min_def)
qed

text \<open>Reading: at most what is there, in order, and the rest stays.\<close>

lemma Read_law:
  assumes inv: "ring_inv s" and dst: "unat len \<le> length dst"
  defines "m \<equiv> (if len \<le> s_count s then len else s_count s)"
  shows "\<exists>rd. AudioStreamRx_Read s dst len
      = Some (m, take (unat len) (rx_bytes s) @ drop (unat m) dst,
              s\<lparr>s_read := rd, s_count := s_count s - m\<rparr>) \<and>
    ring_inv (s\<lparr>s_read := rd, s_count := s_count s - m\<rparr>) \<and>
    rx_bytes (s\<lparr>s_read := rd, s_count := s_count s - m\<rparr>) = drop (unat len) (rx_bytes s)"
proof -
  define fc where "fc = (if AUDIO_STREAM_RING_SIZE - s_read s > m then m
    else AUDIO_STREAM_RING_SIZE - s_read s)"
  define rd where "rd = (if s_read s + m \<ge> AUDIO_STREAM_RING_SIZE
    then s_read s + m - AUDIO_STREAM_RING_SIZE else s_read s + m)"
  from inv have ring: "length (s_ringBuf s) = 32768" "unat (s_read s) < 32768"
    "unat (s_count s) \<le> 32768"
    "unat (s_write s) = (unat (s_read s) + unat (s_count s)) mod 32768" by (auto simp: ring_inv_def)
  have m: "unat m = min (unat len) (unat (s_count s))" by (simp add: m_def word_min_if_nat)
  have fc: "unat fc = min (32768 - unat (s_read s)) (unat m)"
    using ring by (simp add: fc_def first_chunk_unat)
  have sc: "unat (m - fc) = unat m - unat fc" by (rule unat_sub_bounded) (simp add: fc)
  have pos: "m - fc > 0 \<longleftrightarrow> 0 < unat m - unat fc"
    unfolding word_less_nat_alt sc by simp
  have rd: "unat rd = (unat (s_read s) + unat m) mod 32768"
    unfolding rd_def using ring m by (intro advance_unat) auto
  have cnt: "unat (s_count s - m) = unat (s_count s) - unat m"
    by (rule unat_sub_bounded) (simp add: m)
  have mb: "unat m \<le> 32768" "unat m \<le> length dst" using m ring(3) dst by auto
  from two_chunk_read [of "unat (s_read s)" "s_ringBuf s" "unat m" dst "unat fc",
      unfolded ring(1), OF ring(2) mb fc]
  obtain d where d: "memcpy dst 0 (s_ringBuf s) (unat (s_read s)) (unat fc) = Some d"
    "(if 0 < unat m - unat fc then memcpy d (unat fc) (s_ringBuf s) 0 (unat m - unat fc) else Some d)
      = Some (window (s_ringBuf s) (unat (s_read s)) (unat m) @ drop (unat m) dst)"
    by blast
  have out: "window (s_ringBuf s) (unat (s_read s)) (unat m) = take (unat len) (rx_bytes s)"
    by (cases "unat len \<le> unat (s_count s)")
      (simp_all add: rx_bytes_def m take_window min_def)
  have "AudioStreamRx_Read s dst len = Some (m, take (unat len) (rx_bytes s) @ drop (unat m) dst,
      s\<lparr>s_read := rd, s_count := s_count s - m\<rparr>)"
    using d unfolding AudioStreamRx_Read_def m_def [symmetric] Let_def fc_def [symmetric]
      rd_def [symmetric] pos sc out by simp
  moreover have "ring_inv (s\<lparr>s_read := rd, s_count := s_count s - m\<rparr>)"
  proof -
    have "unat (s_read s) + unat (s_count s)
        = (unat (s_read s) + unat m) + (unat (s_count s) - unat m)" using m by simp
    then have "unat (s_write s)
        = ((unat (s_read s) + unat m) mod 32768 + (unat (s_count s) - unat m)) mod 32768"
      unfolding ring(4) by (simp only: mod_add_left_eq)
    then show ?thesis unfolding ring_inv_def using ring(1,3) by (simp add: rd cnt)
  qed
  moreover have "rx_bytes (s\<lparr>s_read := rd, s_count := s_count s - m\<rparr>)
      = drop (unat len) (rx_bytes s)"
    using ring m window_mod [of "s_ringBuf s" "unat (s_read s) + unat m"]
    by (cases "unat len \<le> unat (s_count s)")
      (simp_all add: rx_bytes_def rd cnt drop_window min_def)
  ultimately show ?thesis by blast
qed

text \<open>Writing: as much of the block as fits, the excess counted as dropped.\<close>

lemma PushBlock_law:
  assumes inv: "ring_inv s" and src: "length src = unat len"
  defines "p \<equiv> (if len \<le> AUDIO_STREAM_RING_SIZE - s_count s then len
    else AUDIO_STREAM_RING_SIZE - s_count s)"
  shows "\<exists>ring wr. AudioStreamRx_PushBlock s src len
      = Some (p, s\<lparr>s_ringBuf := ring, s_write := wr, s_count := s_count s + p,
            s_overflowDropCount := s_overflowDropCount s + (len - p)\<rparr>) \<and>
    unat p = min (unat len) (32768 - unat (s_count s)) \<and>
    ring_inv (s\<lparr>s_ringBuf := ring, s_write := wr, s_count := s_count s + p,
            s_overflowDropCount := s_overflowDropCount s + (len - p)\<rparr>) \<and>
    rx_bytes (s\<lparr>s_ringBuf := ring, s_write := wr, s_count := s_count s + p,
            s_overflowDropCount := s_overflowDropCount s + (len - p)\<rparr>)
      = rx_bytes s @ take (32768 - unat (s_count s)) src"
proof -
  from inv have ring: "length (s_ringBuf s) = 32768" "unat (s_read s) < 32768"
    "unat (s_count s) \<le> 32768"
    "unat (s_write s) = (unat (s_read s) + unat (s_count s)) mod 32768" by (auto simp: ring_inv_def)
  then have w: "unat (s_write s) < 32768" by simp
  have free: "unat (AUDIO_STREAM_RING_SIZE - s_count s) = 32768 - unat (s_count s)"
    using ring by (simp add: size_defs unat_sub_bounded)
  have p: "unat p = min (unat len) (32768 - unat (s_count s))"
    by (simp add: p_def word_min_if_nat free)
  define fc where "fc = (if AUDIO_STREAM_RING_SIZE - s_write s > p then p
    else AUDIO_STREAM_RING_SIZE - s_write s)"
  define wr where "wr = (if s_write s + p \<ge> AUDIO_STREAM_RING_SIZE
    then s_write s + p - AUDIO_STREAM_RING_SIZE else s_write s + p)"
  have fc: "unat fc = min (32768 - unat (s_write s)) (unat p)"
    using w by (simp add: fc_def first_chunk_unat)
  have sc: "unat (p - fc) = unat p - unat fc" by (rule unat_sub_bounded) (simp add: fc)
  have pos: "p - fc > 0 \<longleftrightarrow> 0 < unat p - unat fc"
    unfolding word_less_nat_alt sc by simp
  have wr: "unat wr = (unat (s_write s) + unat p) mod 32768"
    unfolding wr_def using w p by (intro advance_unat) auto
  have cnt: "unat (s_count s + p) = unat (s_count s) + unat p"
    by (rule unat_add_bounded) (use ring p in simp)
  have pb: "unat p \<le> 32768" "unat p \<le> length src" using p src by auto
  from two_chunk_write [of "unat (s_write s)" "s_ringBuf s" "unat p" src "unat fc",
      unfolded ring(1), OF w pb fc]
  obtain b1 b2 where b: "memcpy (s_ringBuf s) (unat (s_write s)) src 0 (unat fc) = Some b1"
    "(if 0 < unat p - unat fc then memcpy b1 0 src (unat fc) (unat p - unat fc) else Some b1) = Some b2"
    and len2: "length b2 = 32768"
    and new: "\<forall>i<unat p. b2 ! ((unat (s_write s) + i) mod 32768) = src ! i"
    and old: "\<forall>j<32768. (\<forall>i<unat p. j \<noteq> (unat (s_write s) + i) mod 32768) \<longrightarrow> b2 ! j = s_ringBuf s ! j"
    by blast
  let ?t = "s\<lparr>s_ringBuf := b2, s_write := wr, s_count := s_count s + p,
            s_overflowDropCount := s_overflowDropCount s + (len - p)\<rparr>"
  have "p \<le> len" unfolding word_le_nat_alt p by simp
  then have drop: "p < len \<or> len - p = 0" by auto
  have "AudioStreamRx_PushBlock s src len = Some (p, ?t)"
    using b drop unfolding AudioStreamRx_PushBlock_def p_def [symmetric] Let_def fc_def [symmetric]
      wr_def [symmetric] pos sc by auto
  moreover have "ring_inv ?t"
    using ring p len2 by (simp add: ring_inv_def wr cnt mod_add_left_eq add.assoc)
  moreover have "rx_bytes ?t = rx_bytes s @ take (32768 - unat (s_count s)) src"
  proof -
    have pos: "(unat (s_read s) + unat (s_count s) + i) mod 32768
        = (unat (s_write s) + i) mod 32768" for i
      unfolding ring(4) by (simp only: mod_add_left_eq)
    have "window b2 (unat (s_read s)) (unat (s_count s) + unat p)
        = window (s_ringBuf s) (unat (s_read s)) (unat (s_count s)) @ take (unat p) src"
    proof (rule window_write)
      show "length b2 = length (s_ringBuf s)" "unat (s_read s) < length (s_ringBuf s)"
        using ring len2 by simp_all
      show "unat (s_count s) + unat p \<le> length (s_ringBuf s)" "unat p = length (take (unat p) src)"
        using ring p src by simp_all
      show "b2 ! ((unat (s_read s) + unat (s_count s) + i) mod length (s_ringBuf s))
          = take (unat p) src ! i" if "i < unat p" for i
        using new that unfolding ring(1) pos by simp
      show "b2 ! j = s_ringBuf s ! j" if "j < length (s_ringBuf s)"
        "\<forall>i<unat p. j \<noteq> (unat (s_read s) + unat (s_count s) + i) mod length (s_ringBuf s)" for j
        using old that unfolding ring(1) pos by simp
    qed
    moreover have "take (unat p) src = take (32768 - unat (s_count s)) src"
      using src p by (auto simp: min_def)
    ultimately show ?thesis by (simp add: rx_bytes_def cnt)
  qed
  ultimately show ?thesis using p by blast
qed

lemma PushBlockE:
  assumes "ring_inv s" and "length src = unat len"
  obtains p t ring wr where "AudioStreamRx_PushBlock s src len = Some (p, t)"
    and "t = s\<lparr>s_ringBuf := ring, s_write := wr, s_count := s_count s + p,
            s_overflowDropCount := s_overflowDropCount s + (len - p)\<rparr>"
    and "unat p = min (unat len) (32768 - unat (s_count s))"
    and "ring_inv t" and "rx_bytes t = rx_bytes s @ take (32768 - unat (s_count s)) src"
  using PushBlock_law [OF assms] that by blast

text \<open>The ring provides the contract: a block goes in, a read comes out.\<close>

definition ring_push :: "u8 list \<Rightarrow> stream_rx \<Rightarrow> (nat \<times> stream_rx) option" where
  "ring_push xs s = map_option (\<lambda>(n, t). (unat n, t))
     (AudioStreamRx_PushBlock s xs (of_nat (length xs)))"

definition ring_pull :: "nat \<Rightarrow> stream_rx \<Rightarrow> (u8 list \<times> stream_rx) option" where
  "ring_pull n s = map_option (\<lambda>(m, d, t). (take (unat m) d, t))
     (AudioStreamRx_Read s (replicate n 0) (of_nat n))"

lemma unat_of_nat_u32: "n \<le> 4294967295 \<Longrightarrow> unat (of_nat n :: u32) = n"
  by (simp add: unsigned_of_nat take_bit_nat_eq_self)

interpretation rx_ring: block_fifo ring_inv rx_bytes 32768 4294967295 "\<lambda>_. True" ring_push ring_pull
proof unfold_locales
  fix s :: stream_rx
  assume inv: "ring_inv s"
  then show "length (rx_bytes s) \<le> 32768" by (simp add: ring_inv_def)
  fix xs :: "u8 list"
  assume "length xs \<le> 4294967295"
  then have "length xs = unat (of_nat (length xs) :: u32)" by (simp add: unat_of_nat_u32)
  from PushBlock_law [OF inv this] this
  show "\<exists>t. ring_push xs s = Some (min (length xs) (32768 - length (rx_bytes s)), t) \<and>
      ring_inv t \<and> rx_bytes t = rx_bytes s @ take (32768 - length (rx_bytes s)) xs"
    unfolding ring_push_def by (auto simp del: unat_of_nat)
next
  fix s :: stream_rx and n :: nat
  assume inv: "ring_inv s" and "n \<le> 4294967295"
  then have n: "unat (of_nat n :: u32) = n" by (simp add: unat_of_nat_u32)
  define m where "m = (if of_nat n \<le> s_count s then of_nat n else s_count s)"
  have "unat m = min n (unat (s_count s))" by (simp only: m_def word_min_if_nat n)
  then have "take (unat m) (take n (rx_bytes s) @ drop (unat m) (replicate n 0))
      = take n (rx_bytes s)" by (auto simp: min_def)
  with Read_law [OF inv, of "of_nat n" "replicate n 0", folded m_def]
  show "\<exists>t. ring_pull n s = Some (take n (rx_bytes s), t) \<and> ring_inv t \<and>
      rx_bytes t = drop n (rx_bytes s)"
    unfolding ring_pull_def n by (auto simp: n)
qed

section \<open>Every operation keeps the invariant\<close>

text \<open>Fields outside the ring play no part in its invariant and contents.\<close>

lemma ring_frame [simp]:
  "ring_inv (s\<lparr>s_readyFlags := f\<rparr>) = ring_inv s" "rx_bytes (s\<lparr>s_readyFlags := f\<rparr>) = rx_bytes s"
  "ring_inv (s\<lparr>dma_target := d\<rparr>) = ring_inv s" "rx_bytes (s\<lparr>dma_target := d\<rparr>) = rx_bytes s"
  "ring_inv (s\<lparr>s_dmaBufIndex := i\<rparr>) = ring_inv s" "rx_bytes (s\<lparr>s_dmaBufIndex := i\<rparr>) = rx_bytes s"
  "ring_inv (s\<lparr>s_rxBlockCount := n\<rparr>) = ring_inv s" "rx_bytes (s\<lparr>s_rxBlockCount := n\<rparr>) = rx_bytes s"
  "ring_inv (s\<lparr>s_spiErrorCount := n\<rparr>) = ring_inv s" "rx_bytes (s\<lparr>s_spiErrorCount := n\<rparr>) = rx_bytes s"
  "ring_inv (s\<lparr>s_spiRxBuf := b\<rparr>) = ring_inv s" "rx_bytes (s\<lparr>s_spiRxBuf := b\<rparr>) = rx_bytes s"
  "ring_inv (s\<lparr>s_overflowDropCount := n\<rparr>) = ring_inv s"
  "rx_bytes (s\<lparr>s_overflowDropCount := n\<rparr>) = rx_bytes s"
  by (simp_all add: ring_inv_def rx_bytes_def)

lemma dma_frame [simp]:
  "dma_inv (s\<lparr>s_ringBuf := r\<rparr>) = dma_inv s" "dma_inv (s\<lparr>s_write := w\<rparr>) = dma_inv s"
  "dma_inv (s\<lparr>s_read := w\<rparr>) = dma_inv s" "dma_inv (s\<lparr>s_count := w\<rparr>) = dma_inv s"
  "dma_inv (s\<lparr>s_rxBlockCount := w\<rparr>) = dma_inv s" "dma_inv (s\<lparr>s_spiErrorCount := w\<rparr>) = dma_inv s"
  "dma_inv (s\<lparr>s_overflowDropCount := w\<rparr>) = dma_inv s"
  by (simp_all add: dma_inv_def)

lemma Init_inv: "dma_target s = None \<Longrightarrow> rx_inv (AudioStreamRx_Init s)"
  by (simp add: rx_inv_def ring_inv_def dma_inv_def AudioStreamRx_Init_def size_defs)

lemma Init_empty: "rx_bytes (AudioStreamRx_Init s) = []"
  by (simp add: rx_bytes_def AudioStreamRx_Init_def)

lemma Start_inv: "rx_inv s \<Longrightarrow> dma_target s = None \<Longrightarrow> rx_inv (AudioStreamRx_Start hal_ok s)"
  by (simp add: rx_inv_def dma_inv_def AudioStreamRx_Start_def HAL_SPI_Receive_DMA_def Let_def)

lemma Reset_inv: "rx_inv s \<Longrightarrow> dma_target s \<noteq> Some 1 \<Longrightarrow> rx_inv (AudioStreamRx_Reset s)"
  by (auto simp: rx_inv_def ring_inv_def dma_inv_def AudioStreamRx_Reset_def split: option.splits)

lemma Read_inv:
  assumes "rx_inv s" and "AudioStreamRx_Read s dst len = Some (m, dst', t)"
    and "unat len \<le> length dst"
  shows "rx_inv t"
  using Read_law [of s len dst] assms by (auto simp: rx_inv_def)

lemma dma_inv_flag [simp]:
  assumes "dma_inv s" and "f \<in> {0, 1}"
  shows "dma_inv (s\<lparr>s_readyFlags := (s_readyFlags s)[i := f]\<rparr>)"
proof -
  have "set ((s_readyFlags s)[i := f]) \<subseteq> {0, 1}"
    by (rule set_update_subsetI) (use assms in \<open>simp_all add: dma_inv_def\<close>)
  with assms show ?thesis by (simp add: dma_inv_def)
qed

lemma TakeReadyBlock_inv:
  "rx_inv s \<Longrightarrow> AudioStreamRx_TakeReadyBlock s = Some (i, t) \<Longrightarrow> rx_inv t \<and> i \<in> {0, 1}"
  by (auto simp: rx_inv_def AudioStreamRx_TakeReadyBlock_def simp del: One_nat_def
      split: if_splits)

lemma Process_idle: "AudioStreamRx_TakeReadyBlock s = None \<Longrightarrow> AudioStreamRx_Process s = Some s"
  by (simp add: AudioStreamRx_Process_def)

text \<open>One call moves one finished block: what fits goes in the ring, the rest is counted.\<close>

lemma Process_block:
  assumes inv: "rx_inv s" and take: "AudioStreamRx_TakeReadyBlock s = Some (i, u)"
  obtains t where "AudioStreamRx_Process s = Some t" and "rx_inv t"
    and "s_spiRxBuf t = s_spiRxBuf s" and "s_dmaBufIndex t = s_dmaBufIndex s"
    and "dma_target t = dma_target s" and "s_readyFlags t = s_readyFlags u"
    and "rx_bytes t = rx_bytes s @ take (32768 - unat (s_count s)) (s_spiRxBuf s ! unat i)"
    and "s_overflowDropCount t
      = s_overflowDropCount s + of_nat (1920 - (32768 - unat (s_count s)))"
proof -
  have u: "ring_inv u" "dma_inv u" "i \<in> {0, 1}"
    using TakeReadyBlock_inv [OF inv take] by (auto simp: rx_inv_def)
  have same: "s_spiRxBuf u = s_spiRxBuf s" "rx_bytes u = rx_bytes s" "s_count u = s_count s"
    "s_dmaBufIndex u = s_dmaBufIndex s" "dma_target u = dma_target s"
    "s_overflowDropCount u = s_overflowDropCount s"
    using take by (auto simp: AudioStreamRx_TakeReadyBlock_def split: if_splits)
  have "length (s_spiRxBuf u ! unat i) = unat AUDIO_STREAM_RX_BLOCK_SIZE"
    using u by (auto simp: dma_inv_def size_defs)
  from PushBlockE [OF u(1) this] obtain p t ring wr where
    push: "AudioStreamRx_PushBlock u (s_spiRxBuf u ! unat i) AUDIO_STREAM_RX_BLOCK_SIZE = Some (p, t)"
    and t: "t = u\<lparr>s_ringBuf := ring, s_write := wr, s_count := s_count u + p,
       s_overflowDropCount := s_overflowDropCount u + (AUDIO_STREAM_RX_BLOCK_SIZE - p)\<rparr>"
    and p: "unat p = min (unat AUDIO_STREAM_RX_BLOCK_SIZE) (32768 - unat (s_count u))"
    and rt: "ring_inv t"
    and bytes: "rx_bytes t = rx_bytes u @ take (32768 - unat (s_count u)) (s_spiRxBuf u ! unat i)"
    by metis
  have "unat (AUDIO_STREAM_RX_BLOCK_SIZE - p) = 1920 - (32768 - unat (s_count s))"
    using p same by (simp add: size_defs unat_sub_bounded)
  then have drop: "AUDIO_STREAM_RX_BLOCK_SIZE - p = of_nat (1920 - (32768 - unat (s_count s)))"
    by (metis of_nat_unat ucast_id)
  show ?thesis
  proof (rule that)
    show "AudioStreamRx_Process s = Some t"
      by (simp add: AudioStreamRx_Process_def take push)
    show "rx_inv t" using rt u(2) by (simp add: rx_inv_def t)
    show "s_overflowDropCount t
      = s_overflowDropCount s + of_nat (1920 - (32768 - unat (s_count s)))"
      unfolding t by (simp add: drop same)
  qed (use bytes same in \<open>simp_all add: t\<close>)
qed

lemma Process_rx_inv: "rx_inv s \<Longrightarrow> AudioStreamRx_Process s = Some t \<Longrightarrow> rx_inv t"
  by (cases "AudioStreamRx_TakeReadyBlock s") (auto simp: Process_idle elim: Process_block)

lemma toggle_index: "i \<in> {0, 1} \<Longrightarrow> i XOR 1 \<in> {0, 1 :: u8}"
  by auto

text \<open>The completion interrupt, unfolded on a state that satisfies the invariant.\<close>

lemma dma_complete_simp:
  assumes "dma_target s = Some i"
  shows "dma_complete blk hal_ok s =
    s\<lparr>s_spiRxBuf := (s_spiRxBuf s)[i := blk],
      s_rxBlockCount := s_rxBlockCount s + 1,
      s_readyFlags := (s_readyFlags s)[unat (s_dmaBufIndex s) := 1],
      s_dmaBufIndex := s_dmaBufIndex s XOR 1,
      s_spiErrorCount := (if hal_ok then s_spiErrorCount s else s_spiErrorCount s + 1),
      dma_target := (if hal_ok then Some (unat (s_dmaBufIndex s XOR 1)) else None)\<rparr>"
  using assms
  by (simp add: dma_complete_def HAL_SPI_RxCpltCallback_def HAL_SPI_Receive_DMA_def Let_def)

lemma dma_complete_inv:
  assumes inv: "rx_inv s" and blk: "length blk = 1920"
  shows "rx_inv (dma_complete blk hal_ok s)"
proof (cases "dma_target s")
  case None
  then show ?thesis using inv by (simp add: dma_complete_def)
next
  case (Some i)
  from inv have flag: "dma_inv (s\<lparr>s_readyFlags := (s_readyFlags s)[unat (s_dmaBufIndex s) := 1]\<rparr>)"
    by (simp add: rx_inv_def)
  have "\<forall>b \<in> set ((s_spiRxBuf s)[i := blk]). length b = 1920"
    using inv blk by (auto simp: rx_inv_def dma_inv_def dest: set_update_subset_insert [THEN subsetD])
  then show ?thesis
    using flag inv Some toggle_index [of "s_dmaBufIndex s"]
    unfolding dma_complete_simp [OF Some] by (simp add: rx_inv_def dma_inv_def)
qed

lemma ErrorCallback_inv: "rx_inv s \<Longrightarrow> rx_inv (HAL_SPI_ErrorCallback hal_ok s)"
  by (simp add: rx_inv_def dma_inv_def HAL_SPI_ErrorCallback_def HAL_SPI_Receive_DMA_def Let_def)

section \<open>The component as a step relation\<close>

text \<open>
  What can happen to the component after its initialisation: the main loop runs
  \<open>AudioStreamRx_Process\<close> and the player reads; the DMA controller finishes a block or
  reports an error at any time in between. \<open>AudioStreamRx_Start\<close> belongs to the boot
  sequence, when no transfer is running. \<open>AudioStreamRx_Reset\<close>, which no code calls, is a
  step only where the running transfer fills block 0: it sets \<open>s_dmaBufIndex\<close> back without
  touching the transfer.
\<close>

inductive rx_step :: "stream_rx \<Rightarrow> stream_rx \<Rightarrow> bool" where
  start: "dma_target s = None \<Longrightarrow> rx_step s (AudioStreamRx_Start hal_ok s)"
| reset: "dma_target s \<noteq> Some 1 \<Longrightarrow> rx_step s (AudioStreamRx_Reset s)"
| process: "AudioStreamRx_Process s = Some t \<Longrightarrow> rx_step s t"
| read: "unat len \<le> length dst \<Longrightarrow> AudioStreamRx_Read s dst len = Some (m, dst', t) \<Longrightarrow> rx_step s t"
| complete: "length blk = 1920 \<Longrightarrow> rx_step s (dma_complete blk hal_ok s)"
| error: "rx_step s (HAL_SPI_ErrorCallback hal_ok s)"

definition rx_start :: "stream_rx \<Rightarrow> bool" where
  "rx_start s \<longleftrightarrow> (\<exists>r. dma_target r = None \<and> s = AudioStreamRx_Init r)"

abbreviation rx_reachable :: "stream_rx \<Rightarrow> bool" where
  "rx_reachable \<equiv> reached rx_start rx_step"

inductive_cases rx_stepE: "rx_step s t"

lemma rx_step_inv: "rx_step s t \<Longrightarrow> rx_inv s \<Longrightarrow> rx_inv t"
  by (induction rule: rx_step.induct)
    (blast intro: Start_inv Reset_inv Process_rx_inv Read_inv dma_complete_inv ErrorCallback_inv)+

interpretation rx_machine: machine rx_start rx_step rx_inv
  by unfold_locales (auto simp: rx_start_def intro: Init_inv rx_step_inv)

lemma rx_reachable_init: "dma_target s = None \<Longrightarrow> rx_reachable (AudioStreamRx_Init s)"
  by (rule reached.start) (auto simp: rx_start_def)

section \<open>Service of the DMA blocks\<close>

text \<open>Right after the start, and whenever the main loop has caught up, no block is ready.\<close>

definition caught_up :: "stream_rx \<Rightarrow> bool" where
  "caught_up s \<longleftrightarrow> rx_inv s \<and> s_readyFlags s = [0, 0] \<and> dma_target s \<noteq> None"

lemma caught_up_start:
  "dma_target s = None \<Longrightarrow> caught_up (AudioStreamRx_Start True (AudioStreamRx_Init s))"
  using Start_inv [OF Init_inv, of s True]
  by (simp add: caught_up_def AudioStreamRx_Start_def HAL_SPI_Receive_DMA_def Let_def
      AudioStreamRx_Init_def)

lemma caught_up_index:
  assumes "caught_up s"
  obtains i where "s_dmaBufIndex s = i" and "i \<in> {0, 1}" and "dma_target s = Some (unat i)"
  using assms by (auto simp: caught_up_def rx_inv_def dma_inv_def)

text \<open>One block received and one call of \<open>AudioStreamRx_Process\<close>.\<close>

lemma serve_block:
  assumes "caught_up s" and "length blk = 1920"
  obtains t where "AudioStreamRx_Process (dma_complete blk True s) = Some t" and "caught_up t"
    and "rx_bytes t = rx_bytes s @ take (32768 - unat (s_count s)) blk"
    and "s_overflowDropCount t
      = s_overflowDropCount s + of_nat (1920 - (32768 - unat (s_count s)))"
proof -
  obtain i where i: "s_dmaBufIndex s = i" "i \<in> {0, 1}" "dma_target s = Some (unat i)"
    using assms(1) by (rule caught_up_index)
  let ?s = "dma_complete blk True s"
  have inv: "rx_inv ?s" using assms by (intro dma_complete_inv) (simp_all add: caught_up_def)
  have two: "length (s_spiRxBuf s) = 2"
    using assms by (simp add: caught_up_def rx_inv_def dma_inv_def)
  have flags: "s_readyFlags s = [0, 0]" using assms by (simp add: caught_up_def)
  have "AudioStreamRx_TakeReadyBlock ?s = Some (i, ?s\<lparr>s_readyFlags := [0, 0]\<rparr>)"
    using i flags by (auto simp: dma_complete_simp AudioStreamRx_TakeReadyBlock_def)
  from Process_block [OF inv this] obtain t where
    t: "AudioStreamRx_Process ?s = Some t" "rx_inv t" "dma_target t = dma_target ?s"
      "s_readyFlags t = [0, 0]"
    and bytes: "rx_bytes t = rx_bytes ?s @ take (32768 - unat (s_count ?s)) (s_spiRxBuf ?s ! unat i)"
    and drop: "s_overflowDropCount t
      = s_overflowDropCount ?s + of_nat (1920 - (32768 - unat (s_count ?s)))" by auto
  have blk: "s_spiRxBuf ?s ! unat i = blk" using i two by (auto simp: dma_complete_simp)
  have "rx_bytes ?s = rx_bytes s" "s_count ?s = s_count s"
    "s_overflowDropCount ?s = s_overflowDropCount s" "dma_target ?s \<noteq> None"
    using i by (simp_all add: dma_complete_simp)
  with t bytes drop blk show ?thesis by (intro that [of t]) (auto simp: caught_up_def)
qed

fun serve :: "u8 list list \<Rightarrow> stream_rx \<Rightarrow> stream_rx option" where
  "serve [] s = Some s"
| "serve (b # bs) s =
     (case AudioStreamRx_Process (dma_complete b True s) of None \<Rightarrow> None | Some t \<Rightarrow> serve bs t)"

lemma serve_all:
  assumes "caught_up s" and "\<forall>b \<in> set bs. length b = 1920"
    and "unat (s_count s) + 1920 * length bs \<le> 32768"
  shows "\<exists>t. serve bs s = Some t \<and> caught_up t \<and> rx_bytes t = rx_bytes s @ concat bs \<and>
    s_overflowDropCount t = s_overflowDropCount s"
  using assms
proof (induction bs arbitrary: s)
  case Nil
  then show ?case by simp
next
  case (Cons b bs)
  from Cons.prems have b: "length b = 1920" by simp
  obtain t where t: "AudioStreamRx_Process (dma_complete b True s) = Some t" "caught_up t"
    "rx_bytes t = rx_bytes s @ take (32768 - unat (s_count s)) b"
    "s_overflowDropCount t = s_overflowDropCount s + of_nat (1920 - (32768 - unat (s_count s)))"
    using Cons.prems(1) b by (rule serve_block)
  have tb: "rx_bytes t = rx_bytes s @ b" using t(3) b Cons.prems(3) by simp
  have "unat (s_count t) = unat (s_count s) + 1920"
    using arg_cong [OF tb, of length] b by simp
  then have "\<exists>u. serve bs t = Some u \<and> caught_up u \<and> rx_bytes u = rx_bytes t @ concat bs \<and>
    s_overflowDropCount u = s_overflowDropCount t"
    using Cons.prems by (intro Cons.IH t(2)) simp_all
  with t tb Cons.prems(3) show ?case by auto
qed

text \<open>
  When the main loop falls behind by a block, both flags are set and the two calls that
  catch up take block 0 first, whichever block is older.
\<close>

definition process_twice :: "stream_rx \<Rightarrow> stream_rx option" where
  "process_twice s = Option.bind (AudioStreamRx_Process s) AudioStreamRx_Process"

lemma both_pending:
  assumes inv: "rx_inv s" and flags: "s_readyFlags s = [1, 1]"
    and room: "unat (s_count s) + 3840 \<le> 32768"
  shows "\<exists>t. process_twice s = Some t \<and>
    rx_bytes t = rx_bytes s @ s_spiRxBuf s ! 0 @ s_spiRxBuf s ! 1 \<and>
    s_overflowDropCount t = s_overflowDropCount s"
proof -
  have len: "length (s_spiRxBuf s ! 0) = 1920" "length (s_spiRxBuf s ! 1) = 1920"
    using inv by (auto simp: rx_inv_def dma_inv_def)
  have "AudioStreamRx_TakeReadyBlock s = Some (0, s\<lparr>s_readyFlags := [0, 1]\<rparr>)"
    using flags by (simp add: AudioStreamRx_TakeReadyBlock_def)
  from Process_block [OF inv this] obtain t where t: "AudioStreamRx_Process s = Some t" "rx_inv t"
    "s_spiRxBuf t = s_spiRxBuf s" "s_readyFlags t = [0, 1]"
    "rx_bytes t = rx_bytes s @ take (32768 - unat (s_count s)) (s_spiRxBuf s ! 0)"
    "s_overflowDropCount t
      = s_overflowDropCount s + of_nat (1920 - (32768 - unat (s_count s)))" by auto
  have tb: "rx_bytes t = rx_bytes s @ s_spiRxBuf s ! 0" using t(5) len room by simp
  then have "length (rx_bytes t) = length (rx_bytes s @ s_spiRxBuf s ! 0)" by simp
  then have cnt: "unat (s_count t) = unat (s_count s) + 1920" using len by simp
  have "AudioStreamRx_TakeReadyBlock t = Some (1, t\<lparr>s_readyFlags := [0, 0]\<rparr>)"
    using t(4) by (simp add: AudioStreamRx_TakeReadyBlock_def)
  from Process_block [OF t(2) this] obtain u where u: "AudioStreamRx_Process t = Some u"
    "rx_bytes u = rx_bytes t @ take (32768 - unat (s_count t)) (s_spiRxBuf t ! 1)"
    "s_overflowDropCount u
      = s_overflowDropCount t + of_nat (1920 - (32768 - unat (s_count t)))" by auto
  have "rx_bytes u = rx_bytes s @ s_spiRxBuf s ! 0 @ s_spiRxBuf s ! 1"
    using u(2) tb cnt room len t(3) by simp
  moreover have "s_overflowDropCount u = s_overflowDropCount s"
    using u(3) t(6) cnt room by simp
  ultimately show ?thesis using t(1) u(1) by (simp add: process_twice_def)
qed

text \<open>Two blocks finish in a row, from a caught-up state.\<close>

lemma complete_twice:
  assumes "caught_up s" and "length b1 = 1920" and "length b2 = 1920"
  defines "u \<equiv> dma_complete b2 True (dma_complete b1 True s)"
  shows "rx_inv u" and "s_readyFlags u = [1, 1]" and "rx_bytes u = rx_bytes s"
    and "s_overflowDropCount u = s_overflowDropCount s" and "dma_target u = dma_target s"
    and "s_dmaBufIndex u = s_dmaBufIndex s" and "s_count u = s_count s"
    and "s_spiRxBuf u = (if s_dmaBufIndex s = 0 then [b1, b2] else [b2, b1])"
proof -
  obtain i where i: "s_dmaBufIndex s = i" "i \<in> {0, 1}" "dma_target s = Some (unat i)"
    using assms(1) by (rule caught_up_index)
  have s: "rx_inv s" "s_readyFlags s = [0, 0]" "length (s_spiRxBuf s) = 2"
    using assms(1) by (auto simp: caught_up_def rx_inv_def dma_inv_def)
  then obtain c d where cd: "s_spiRxBuf s = [c, d]"
    by (auto simp: length_Suc_conv eval_nat_numeral)
  show "rx_inv u" unfolding u_def using s assms by (intro dma_complete_inv)
  show "s_readyFlags u = [1, 1]" "rx_bytes u = rx_bytes s"
    "s_overflowDropCount u = s_overflowDropCount s" "dma_target u = dma_target s"
    "s_dmaBufIndex u = s_dmaBufIndex s" "s_count u = s_count s"
    "s_spiRxBuf u = (if s_dmaBufIndex s = 0 then [b1, b2] else [b2, b1])"
    using i s cd by (auto simp: u_def dma_complete_simp)
qed

section \<open>Properties\<close>

text \<open>
  C6: In every state the component can reach, whatever the interleaving of the main loop with
  the DMA interrupts, the ring and DMA invariant holds; hence neither the copy into the ring
  nor a read into a large enough buffer ever touches memory outside its array.
\<close>

theorem rx_reachable_safe:
  assumes "rx_reachable s" and "unat len \<le> length dst"
  shows "rx_inv s \<and> AudioStreamRx_Process s \<noteq> None \<and> AudioStreamRx_Read s dst len \<noteq> None"
proof -
  have inv: "rx_inv s" using assms(1) by (rule rx_machine.reached_inv)
  then have "AudioStreamRx_Process s \<noteq> None"
    by (cases "AudioStreamRx_TakeReadyBlock s") (auto simp: Process_idle elim: Process_block)
  moreover have "AudioStreamRx_Read s dst len \<noteq> None"
    using Read_law [of s len dst] inv assms(2) by (auto simp: rx_inv_def)
  ultimately show ?thesis using inv by blast
qed

lemma rx_reachable_safe_witness:
  "AudioStreamRx_Read (AudioStreamRx_Init rx_power_on) [7, 7] 2 \<noteq> None"
  using rx_reachable_safe [OF rx_reachable_init, of rx_power_on 2 "[7, 7]"]
  by (simp add: rx_power_on_def)

text \<open>
  C11: The ring refines a bounded first-in first-out buffer: for any sequence of block writes
  and reads after initialisation, the bytes it accepted are, in order, exactly the bytes read
  out followed by the bytes it still holds; no operation leaves its arrays.
\<close>

theorem ring_conserves_bytes:
  assumes "list_all (op_ok 4294967295 (\<lambda>_. True)) ops"
  shows "\<exists>acc out t. fifo_run ring_push ring_pull ops (AudioStreamRx_Init s) = Some (acc, out, t)
    \<and> acc = out @ rx_bytes t \<and> length (rx_bytes t) \<le> 32768"
proof -
  have inv: "ring_inv (AudioStreamRx_Init s)"
    by (simp add: ring_inv_def AudioStreamRx_Init_def size_defs)
  from rx_ring.run_conserves [OF this assms] obtain acc out t where
    "fifo_run ring_push ring_pull ops (AudioStreamRx_Init s) = Some (acc, out, t)"
    "ring_inv t" "acc = out @ rx_bytes t"
    by (auto simp: Init_empty)
  then show ?thesis using rx_ring.bounded by blast
qed

lemma ring_conserves_bytes_witness:
  "\<exists>acc out t. fifo_run ring_push ring_pull [Push [1, 2, 3], Pull 2, Push [4]]
      (AudioStreamRx_Init rx_power_on) = Some (acc, out, t)
    \<and> acc = out @ rx_bytes t \<and> length (rx_bytes t) \<le> 32768"
  by (rule ring_conserves_bytes) simp

text \<open>
  A read returns the oldest bytes in order, as many as asked for or as there are, leaves
  the rest of the caller's buffer alone, and leaves exactly the remaining bytes in the ring.
\<close>

theorem Read_returns_oldest:
  assumes "rx_inv s" and "unat len \<le> length dst"
  shows "\<exists>m dst' t. AudioStreamRx_Read s dst len = Some (m, dst', t) \<and>
    unat m = min (unat len) (unat (AudioStreamRx_Available s)) \<and>
    dst' = take (unat len) (rx_bytes s) @ drop (unat m) dst \<and>
    rx_bytes t = drop (unat len) (rx_bytes s)"
  using Read_law [of s len dst] assms
  by (auto simp: rx_inv_def AudioStreamRx_Available_def word_min_if_nat)

lemma Read_returns_oldest_witness:
  "\<exists>m dst' t. AudioStreamRx_Read (AudioStreamRx_Init rx_power_on) [9] 1 = Some (m, dst', t) \<and>
    unat m = min (unat (1 :: u32)) (unat (AudioStreamRx_Available (AudioStreamRx_Init rx_power_on))) \<and>
    dst' = take (unat (1 :: u32)) (rx_bytes (AudioStreamRx_Init rx_power_on)) @ drop (unat m) [9] \<and>
    rx_bytes t = drop (unat (1 :: u32)) (rx_bytes (AudioStreamRx_Init rx_power_on))"
  by (rule Read_returns_oldest) (simp_all add: Init_inv rx_power_on_def)

text \<open>
  While the main loop serves each block before the next one finishes, the ring receives the
  blocks of the stream in order and complete, and no byte is counted as dropped, up to the
  capacity of the ring (17 blocks from empty).
\<close>

theorem prompt_service_in_order:
  assumes "\<forall>b \<in> set bs. length b = 1920" and "length bs \<le> 17"
  shows "\<exists>t. serve bs (AudioStreamRx_Start True (AudioStreamRx_Init rx_power_on)) = Some t \<and>
    rx_bytes t = concat bs \<and> s_overflowDropCount t = 0"
proof -
  let ?s = "AudioStreamRx_Start True (AudioStreamRx_Init rx_power_on)"
  have "caught_up ?s" by (rule caught_up_start) (simp add: rx_power_on_def)
  moreover have z: "s_count ?s = 0" "s_overflowDropCount ?s = 0" "rx_bytes ?s = []"
    by (simp_all add: AudioStreamRx_Start_def AudioStreamRx_Init_def HAL_SPI_Receive_DMA_def
        Let_def rx_bytes_def)
  ultimately show ?thesis using serve_all [of ?s bs] assms by auto
qed

lemma prompt_service_in_order_witness:
  "\<exists>t. serve [replicate 1920 1, replicate 1920 2]
      (AudioStreamRx_Start True (AudioStreamRx_Init rx_power_on)) = Some t \<and>
    rx_bytes t = concat [replicate 1920 1, replicate 1920 2] \<and> s_overflowDropCount t = 0"
  by (rule prompt_service_in_order) auto

text \<open>
  When two blocks finish before the main loop runs, the order in which they reach the ring
  depends on the DMA buffer that was next: with buffer 1 next, the younger block is moved first
  and the two blocks are exchanged in the stream.
\<close>

theorem late_service_order:
  assumes "caught_up s" and "length b1 = 1920" and "length b2 = 1920"
    and "unat (s_count s) + 3840 \<le> 32768"
  shows "\<exists>t. process_twice (dma_complete b2 True (dma_complete b1 True s)) = Some t \<and>
    rx_bytes t = rx_bytes s @ (if s_dmaBufIndex s = 0 then b1 @ b2 else b2 @ b1)"
proof -
  note c = complete_twice [OF assms(1-3)]
  show ?thesis
    using both_pending [OF c(1,2)] assms(4) c(3,7,8) by auto
qed

lemma late_service_order_witness:
  "\<exists>s t. s_dmaBufIndex s = 1 \<and> rx_bytes s = replicate 1920 0 \<and>
    process_twice (dma_complete (replicate 1920 2) True (dma_complete (replicate 1920 1) True s))
      = Some t \<and>
    rx_bytes t = replicate 1920 0 @ replicate 1920 2 @ replicate 1920 1"
proof -
  let ?z = "AudioStreamRx_Start True (AudioStreamRx_Init rx_power_on)"
  have z: "caught_up ?z" by (rule caught_up_start) (simp add: rx_power_on_def)
  have cnt: "s_count ?z = 0" "rx_bytes ?z = []" "s_dmaBufIndex ?z = 0" "dma_target ?z = Some 0"
    by (simp_all add: AudioStreamRx_Start_def AudioStreamRx_Init_def HAL_SPI_Receive_DMA_def
        Let_def rx_bytes_def)
  obtain s where s: "AudioStreamRx_Process (dma_complete (replicate 1920 0) True ?z) = Some s"
    "caught_up s" "rx_bytes s = replicate 1920 0"
    using serve_block [OF z, of "replicate 1920 0"] cnt by auto
  have "s_dmaBufIndex s = s_dmaBufIndex (dma_complete (replicate 1920 0) True ?z)"
    using s(1) dma_complete_inv [of ?z "replicate 1920 0" True] z
    by (cases "AudioStreamRx_TakeReadyBlock (dma_complete (replicate 1920 0) True ?z)")
      (auto simp: Process_idle caught_up_def elim: Process_block)
  then have i: "s_dmaBufIndex s = 1" using cnt by (simp add: dma_complete_simp)
  have "length (rx_bytes s) = 1920" using s(3) by simp
  then have "unat (s_count s) = 1920" by simp
  then show ?thesis
    using late_service_order [OF s(2), of "replicate 1920 1" "replicate 1920 2"] i s(3) by auto
qed

text \<open>
  When three blocks finish before the main loop runs, the first of them is overwritten in its
  DMA buffer and never reaches the ring, and the drop counter does not count it.
\<close>

theorem overrun_loses_block_uncounted:
  assumes "caught_up s" and "length b1 = 1920" and "length b2 = 1920" and "length b3 = 1920"
    and "unat (s_count s) + 3840 \<le> 32768"
  shows "\<exists>t. process_twice (dma_complete b3 True (dma_complete b2 True (dma_complete b1 True s)))
      = Some t \<and>
    rx_bytes t = rx_bytes s @ (if s_dmaBufIndex s = 0 then b3 @ b2 else b2 @ b3) \<and>
    s_overflowDropCount t = s_overflowDropCount s"
proof -
  let ?u = "dma_complete b2 True (dma_complete b1 True s)"
  note c = complete_twice [OF assms(1-3)]
  obtain i where i: "s_dmaBufIndex s = i" "i \<in> {0, 1}" "dma_target s = Some (unat i)"
    using assms(1) by (rule caught_up_index)
  then have u: "dma_target ?u = Some (unat i)" using c(5) by simp
  let ?v = "dma_complete b3 True ?u"
  have "rx_inv ?v" using c(1) assms(4) by (rule dma_complete_inv)
  moreover have "s_readyFlags ?v = [1, 1]"
    using i c(2,6) by (auto simp: dma_complete_simp [OF u])
  moreover have v: "rx_bytes ?v = rx_bytes s" "s_count ?v = s_count s"
    "s_overflowDropCount ?v = s_overflowDropCount s"
    "s_spiRxBuf ?v = (if s_dmaBufIndex s = 0 then [b3, b2] else [b2, b3])"
    using i c(3,4,6,7,8) by (auto simp: dma_complete_simp [OF u])
  ultimately show ?thesis using both_pending [of ?v] assms(5) by auto
qed

lemma overrun_loses_block_uncounted_witness:
  "\<exists>t. process_twice (dma_complete (replicate 1920 3) True (dma_complete (replicate 1920 2) True
      (dma_complete (replicate 1920 1) True
        (AudioStreamRx_Start True (AudioStreamRx_Init rx_power_on))))) = Some t \<and>
    rx_bytes t = replicate 1920 3 @ replicate 1920 2 \<and> s_overflowDropCount t = 0"
proof -
  let ?z = "AudioStreamRx_Start True (AudioStreamRx_Init rx_power_on)"
  have z: "caught_up ?z" by (rule caught_up_start) (simp add: rx_power_on_def)
  have "s_count ?z = 0" "rx_bytes ?z = []" "s_dmaBufIndex ?z = 0" "s_overflowDropCount ?z = 0"
    by (simp_all add: AudioStreamRx_Start_def AudioStreamRx_Init_def HAL_SPI_Receive_DMA_def
        Let_def rx_bytes_def)
  then show ?thesis
    using overrun_loses_block_uncounted [OF z, of "replicate 1920 1" "replicate 1920 2"
        "replicate 1920 3"] by simp
qed

end
