(* ===== verification/Audio_Player.thy ===== *)
theory Audio_Player
  imports Audio_Stream_Rx "HOL-Library.Char_ord"
begin

text \<open>
  \<open>Core/Src/services/audio/audio_player.c\<close>: WAV files named by a queue, or the SPI stream, are
  played through a stereo double buffer that the I2S DMA sends out in halves. The record holds
  the file's static variables; \<open>rx\<close> is the state of the stream component it calls;
  \<open>s_wavFile\<close> is \<open>None\<close> while no file is open, and \<open>i2s_running\<close> says whether the circular I2S
  transfer runs (a HAL state). FatFs is a parameter, the record \<open>fatfs\<close> of its calls on a handle
  of any type; the results of \<open>HAL_I2S_Transmit_DMA\<close> and \<open>HAL_GetTick\<close> are arguments, one per call.
  Diagnostic \<open>printf\<close>s are left out.
\<close>

section \<open>State\<close>

definition AUDIO_PLAYER_QUEUE_MAX :: u8 where "AUDIO_PLAYER_QUEUE_MAX = 16"
definition AUDIO_PLAYER_NAME_MAX :: nat where "AUDIO_PLAYER_NAME_MAX = 32"
definition AUDIO_PLAYER_MONO_SAMPLES :: nat where "AUDIO_PLAYER_MONO_SAMPLES = 4096"
definition AUDIO_PLAYER_WAV_HEADER_SIZE :: nat where "AUDIO_PLAYER_WAV_HEADER_SIZE = 44"
definition AUDIO_STREAM_PREBUFFER_BYTES :: u32 where "AUDIO_STREAM_PREBUFFER_BYTES = 1920 * 4"
definition AUDIO_STREAM_TIMEOUT_MS :: u32 where "AUDIO_STREAM_TIMEOUT_MS = 500"

lemmas player_consts = AUDIO_PLAYER_QUEUE_MAX_def AUDIO_PLAYER_NAME_MAX_def
  AUDIO_PLAYER_MONO_SAMPLES_def AUDIO_PLAYER_WAV_HEADER_SIZE_def AUDIO_STREAM_PREBUFFER_BYTES_def
  AUDIO_STREAM_TIMEOUT_MS_def

datatype AudioSource_t = AUDIO_SOURCE_NONE | AUDIO_SOURCE_WAV | AUDIO_SOURCE_STREAM

text \<open>
  The FatFs calls: opening a named file for reading, seeking, reading at most so many bytes
  (the bytes and the handle after), each on a handle.
\<close>

record 'f fatfs =
  f_open :: "u8 list \<Rightarrow> 'f option"
  f_lseek :: "'f \<Rightarrow> nat \<Rightarrow> 'f option"
  f_read :: "'f \<Rightarrow> nat \<Rightarrow> u8 list \<times> 'f"

text \<open>
  The mono buffer is kept as the bytes the readers store in it; sample \<open>i\<close> is bytes \<open>2 * i\<close> and
  \<open>2 * i + 1\<close>, low byte first.
\<close>

record 'f audio =
  s_monoBuf :: "u8 list"
  s_i2sBuf :: "u16 list"
  s_wavFile :: "'f option"
  s_audioQueue :: "u8 list list"
  s_queueHead :: u8
  s_queueTail :: u8
  s_audioSource :: AudioSource_t
  s_bufferEvent :: u8
  s_wavEof :: u8
  s_isPlaying :: u8
  s_stopPending :: u8
  s_streamStopRequested :: u8
  s_streamLastDataTick :: u32
  i2s_running :: bool
  rx :: stream_rx

definition audio_power_on :: "'f audio" where
  "audio_power_on = \<lparr>s_monoBuf = replicate 8192 0, s_i2sBuf = replicate 16384 0, s_wavFile = None,
     s_audioQueue = replicate 16 (replicate 32 0), s_queueHead = 0, s_queueTail = 0,
     s_audioSource = AUDIO_SOURCE_NONE, s_bufferEvent = 0, s_wavEof = 0, s_isPlaying = 0,
     s_stopPending = 0, s_streamStopRequested = 0, s_streamLastDataTick = 0,
     i2s_running = False, rx = AudioStreamRx_Init rx_power_on\<rparr>"

definition clear_buffers :: "'f audio \<Rightarrow> 'f audio" where
  "clear_buffers s = s\<lparr>s_monoBuf := replicate (2 * AUDIO_PLAYER_MONO_SAMPLES) 0,
     s_i2sBuf := replicate (AUDIO_PLAYER_MONO_SAMPLES * 2 * 2) 0\<rparr>"

section \<open>The name queue\<close>

definition AudioPlayer_IsQueueEmpty :: "'f audio \<Rightarrow> bool" where
  "AudioPlayer_IsQueueEmpty s \<longleftrightarrow> s_queueHead s = s_queueTail s"

text \<open>The index arithmetic is on 32-bit unsigned values, as \<open>1U\<close> and \<open>16U\<close> make it.\<close>

definition queue_next :: "u8 \<Rightarrow> u32" where
  "queue_next i = (ucast i + 1) mod ucast AUDIO_PLAYER_QUEUE_MAX"

definition AudioPlayer_IsQueueFull :: "'f audio \<Rightarrow> bool" where
  "AudioPlayer_IsQueueFull s \<longleftrightarrow> queue_next (s_queueTail s) = ucast (s_queueHead s)"

definition AudioPlayer_ClearQueue :: "'f audio \<Rightarrow> 'f audio" where
  "AudioPlayer_ClearQueue s = s\<lparr>s_queueHead := 0, s_queueTail := 0\<rparr>"

definition AudioPlayer_Enqueue :: "u8 list \<Rightarrow> 'f audio \<Rightarrow> (u8 \<times> 'f audio) option" where
  "AudioPlayer_Enqueue filename s =
     (if AudioPlayer_IsQueueFull s then Some (0, s)
      else do {
        let entry = strncpy (AUDIO_PLAYER_NAME_MAX - 1) filename @ [0];
        q \<leftarrow> c_store (s_audioQueue s) (uint (s_queueTail s)) entry;
        Some (1, s\<lparr>s_audioQueue := q, s_queueTail := ucast (queue_next (s_queueTail s))\<rparr>)
      })"

text \<open>\<open>out\<close> receives at most 32 bytes of the entry and ends in a zero; the result is the string.\<close>

definition AudioPlayer_Dequeue :: "'f audio \<Rightarrow> (u8 list option \<times> 'f audio) option" where
  "AudioPlayer_Dequeue s =
     (if AudioPlayer_IsQueueEmpty s then Some (None, s)
      else do {
        entry \<leftarrow> c_load (s_audioQueue s) (uint (s_queueHead s));
        let out = (strncpy AUDIO_PLAYER_NAME_MAX (c_string entry))[AUDIO_PLAYER_NAME_MAX - 1 := 0];
        Some (Some (c_string out), s\<lparr>s_queueHead := ucast (queue_next (s_queueHead s))\<rparr>)
      })"

section \<open>Reading and filling\<close>

definition AudioSource_ReadMonoPcm ::
    "'f fatfs \<Rightarrow> nat \<Rightarrow> 'f audio \<Rightarrow> (nat \<times> 'f audio) option" where
  "AudioSource_ReadMonoPcm fs bytesToRead s =
     (case s_audioSource s of
        AUDIO_SOURCE_WAV \<Rightarrow>
          (case s_wavFile s of
             None \<Rightarrow> Some (0, s)
           | Some f \<Rightarrow>
               (case f_read fs f bytesToRead of (bs, f') \<Rightarrow> do {
                  mbuf \<leftarrow> memcpy (s_monoBuf s) 0 bs 0 (length bs);
                  Some (length bs, s\<lparr>s_monoBuf := mbuf, s_wavFile := Some f'\<rparr>) }))
      | AUDIO_SOURCE_STREAM \<Rightarrow> do {
          (n, mbuf, r) \<leftarrow> AudioStreamRx_Read (rx s) (s_monoBuf s) (of_nat bytesToRead);
          Some (unat n, s\<lparr>s_monoBuf := mbuf, rx := r\<rparr>) }
      | AUDIO_SOURCE_NONE \<Rightarrow> Some (0, s))"

definition mono_sample :: "u8 list \<Rightarrow> nat \<Rightarrow> u16" where
  "mono_sample mbuf i = join16 (mbuf ! (2 * i + 1)) (mbuf ! (2 * i))"

text \<open>Copying \<open>n\<close> samples, from index \<open>i\<close> on, to both channels of the half at \<open>off\<close>.\<close>

fun stereo_loop :: "u8 list \<Rightarrow> nat \<Rightarrow> nat \<Rightarrow> nat \<Rightarrow> u16 list \<Rightarrow> u16 list option" where
  "stereo_loop mbuf off i 0 buf = Some buf"
| "stereo_loop mbuf off i (Suc n) buf = do {
     buf \<leftarrow> c_store buf (int (off + i * 2)) (mono_sample mbuf i);
     buf \<leftarrow> c_store buf (int (off + (i * 2 + 1))) (mono_sample mbuf i);
     stereo_loop mbuf off (Suc i) n buf }"

fun padding_loop :: "nat \<Rightarrow> nat \<Rightarrow> nat \<Rightarrow> u16 list \<Rightarrow> u16 list option" where
  "padding_loop off i 0 buf = Some buf"
| "padding_loop off i (Suc n) buf = do {
     buf \<leftarrow> c_store buf (int (off + i * 2)) 0;
     buf \<leftarrow> c_store buf (int (off + (i * 2 + 1))) 0;
     padding_loop off (Suc i) n buf }"

text \<open>\<open>AudioPlayer_FillHalfBuffer\<close> on the half of \<open>s_i2sBuf\<close> that starts at \<open>off\<close>.\<close>

definition AudioPlayer_FillHalfBuffer ::
    "'f fatfs \<Rightarrow> nat \<Rightarrow> 'f audio \<Rightarrow> 'f audio option" where
  "AudioPlayer_FillHalfBuffer fs off s =
     (if s_audioSource s = AUDIO_SOURCE_WAV \<and> s_wavEof s \<noteq> 0
      then do {
        buf \<leftarrow> memset (s_i2sBuf s) off 0 (AUDIO_PLAYER_MONO_SAMPLES * 2);
        Some (s\<lparr>s_i2sBuf := buf\<rparr>)
      }
      else do {
        (bytesRead, s) \<leftarrow> AudioSource_ReadMonoPcm fs (AUDIO_PLAYER_MONO_SAMPLES * 2) s;
        let sampleCount = bytesRead div 2;
        if sampleCount = 0
        then do {
          let s = (if s_audioSource s = AUDIO_SOURCE_WAV then s\<lparr>s_wavEof := 1\<rparr> else s);
          buf \<leftarrow> memset (s_i2sBuf s) off 0 (AUDIO_PLAYER_MONO_SAMPLES * 2);
          Some (s\<lparr>s_i2sBuf := buf\<rparr>)
        }
        else do {
          buf \<leftarrow> stereo_loop (s_monoBuf s) off 0 sampleCount (s_i2sBuf s);
          buf \<leftarrow> padding_loop off sampleCount (AUDIO_PLAYER_MONO_SAMPLES - sampleCount) buf;
          let s = s\<lparr>s_i2sBuf := buf\<rparr>;
          Some (if s_audioSource s = AUDIO_SOURCE_WAV \<and> sampleCount < AUDIO_PLAYER_MONO_SAMPLES
                then s\<lparr>s_wavEof := 1\<rparr> else s)
        }
      })"

section \<open>Interrupts\<close>

definition HAL_I2S_TxHalfCpltCallback :: "'f audio \<Rightarrow> 'f audio" where
  "HAL_I2S_TxHalfCpltCallback s = s\<lparr>s_bufferEvent := s_bufferEvent s OR 0x01\<rparr>"

definition HAL_I2S_TxCpltCallback :: "'f audio \<Rightarrow> 'f audio" where
  "HAL_I2S_TxCpltCallback s = s\<lparr>s_bufferEvent := s_bufferEvent s OR 0x02\<rparr>"

section \<open>Starting and stopping\<close>

definition Audio_Init :: "'f audio \<Rightarrow> 'f audio" where
  "Audio_Init s =
     (let s = AudioPlayer_ClearQueue s;
          s = s\<lparr>s_audioSource := AUDIO_SOURCE_NONE, s_bufferEvent := 0, s_wavEof := 0,
                s_isPlaying := 0, s_stopPending := 0, s_streamStopRequested := 0,
                s_streamLastDataTick := 0\<rparr>
      in clear_buffers s)"

text \<open>The two pre-fills and the start of the transfer, which both start functions share.\<close>

definition prefill :: "'f fatfs \<Rightarrow> 'f audio \<Rightarrow> 'f audio option" where
  "prefill fs s = do {
     s \<leftarrow> AudioPlayer_FillHalfBuffer fs 0 (clear_buffers s);
     AudioPlayer_FillHalfBuffer fs (AUDIO_PLAYER_MONO_SAMPLES * 2) s }"

definition Audio_StartWav :: "'f fatfs \<Rightarrow> bool \<Rightarrow> u8 list \<Rightarrow> 'f audio \<Rightarrow> (u8 \<times> 'f audio) option" where
  "Audio_StartWav fs hal_ok filename s =
     (if s_isPlaying s \<noteq> 0 then Some (0, s)
      else
       (let s = s\<lparr>s_audioSource := AUDIO_SOURCE_WAV, s_bufferEvent := 0, s_wavEof := 0,
                  s_stopPending := 0, s_streamStopRequested := 0, s_streamLastDataTick := 0\<rparr>
        in case f_open fs filename of
             None \<Rightarrow> Some (0, s\<lparr>s_audioSource := AUDIO_SOURCE_NONE\<rparr>)
           | Some f \<Rightarrow>
               (case f_lseek fs f AUDIO_PLAYER_WAV_HEADER_SIZE of
                  None \<Rightarrow> Some (0, s\<lparr>s_wavFile := None, s_audioSource := AUDIO_SOURCE_NONE\<rparr>)
                | Some f \<Rightarrow> do {
                    s \<leftarrow> prefill fs (s\<lparr>s_wavFile := Some f\<rparr>);
                    if hal_ok then Some (1, s\<lparr>i2s_running := True, s_isPlaying := 1\<rparr>)
                    else Some (0, s\<lparr>s_wavFile := None, s_audioSource := AUDIO_SOURCE_NONE\<rparr>) })))"

definition Audio_StartStream :: "'f fatfs \<Rightarrow> bool \<Rightarrow> u32 \<Rightarrow> 'f audio \<Rightarrow> (u8 \<times> 'f audio) option" where
  "Audio_StartStream fs hal_ok tick s =
     (if s_isPlaying s \<noteq> 0 then Some (0, s)
      else if AudioStreamRx_Available (rx s) < AUDIO_STREAM_PREBUFFER_BYTES then Some (0, s)
      else do {
        s \<leftarrow> prefill fs (s\<lparr>s_audioSource := AUDIO_SOURCE_STREAM, s_bufferEvent := 0, s_wavEof := 0,
               s_stopPending := 0, s_streamStopRequested := 0, s_streamLastDataTick := tick\<rparr>);
        if hal_ok then Some (1, s\<lparr>i2s_running := True, s_isPlaying := 1\<rparr>)
        else Some (0, s\<lparr>s_audioSource := AUDIO_SOURCE_NONE\<rparr>)
      })"

definition Audio_Stop :: "'f audio \<Rightarrow> 'f audio" where
  "Audio_Stop s =
     (if s_isPlaying s = 0 then s
      else
       (let s = s\<lparr>i2s_running := False\<rparr>;
            s = (if s_audioSource s = AUDIO_SOURCE_WAV then s\<lparr>s_wavFile := None\<rparr> else s)
        in s\<lparr>s_isPlaying := 0, s_wavEof := 0, s_bufferEvent := 0, s_stopPending := 0,
             s_streamStopRequested := 0, s_streamLastDataTick := 0,
             s_audioSource := AUDIO_SOURCE_NONE\<rparr>))"

definition Audio_RequestStopStream :: "'f audio \<Rightarrow> 'f audio" where
  "Audio_RequestStopStream s =
     (if s_audioSource s = AUDIO_SOURCE_STREAM then s\<lparr>s_streamStopRequested := 1\<rparr> else s)"

definition Audio_IsPlaying :: "'f audio \<Rightarrow> u8" where
  "Audio_IsPlaying s = s_isPlaying s"

definition AudioPlayer_PlayNextFromQueue ::
    "'f fatfs \<Rightarrow> bool \<Rightarrow> 'f audio \<Rightarrow> 'f audio option" where
  "AudioPlayer_PlayNextFromQueue fs hal_ok s =
     (if s_isPlaying s \<noteq> 0 then Some s
      else do {
        (name, s) \<leftarrow> AudioPlayer_Dequeue s;
        case name of None \<Rightarrow> Some s
          | Some filename \<Rightarrow> map_option snd (Audio_StartWav fs hal_ok filename s)
      })"

section \<open>Guide announcements\<close>

text \<open>\<open>snprintf\<close> of \<open>guide_%d.wav\<close> for a platform number.\<close>

definition guide_name :: "nat \<Rightarrow> u8 list" where
  "guide_name n = c_lit ''guide_'' @ [of_nat (48 + n)] @ c_lit ''.wav''"

text \<open>The loop over the platforms \<open>i\<close> to 7, with its two flags.\<close>

fun guide_loop :: "u8 list \<Rightarrow> nat \<Rightarrow> bool \<times> bool \<Rightarrow> 'f audio \<Rightarrow> ((bool \<times> bool) \<times> 'f audio) option" where
  "guide_loop [] i flags s = Some (flags, s)"
| "guide_loop (c # cs) i (has_zero, all_two) s = do {
     (has_zero, s) \<leftarrow>
       (if c = 0
        then do {
          s \<leftarrow> (if \<not> has_zero then map_option snd (AudioPlayer_Enqueue (c_lit ''guide_start.wav'') s)
                else Some s);
          s \<leftarrow> map_option snd (AudioPlayer_Enqueue (guide_name (i + 1)) s);
          Some (True, s)
        }
        else Some (has_zero, s));
     guide_loop cs (i + 1) (has_zero, if c \<noteq> 2 then False else all_two) s }"

text \<open>All of the eight levels are read; an array with fewer is read outside.\<close>

definition Audio_Guide :: "'f fatfs \<Rightarrow> bool \<Rightarrow> u8 list \<Rightarrow> 'f audio \<Rightarrow> 'f audio option" where
  "Audio_Guide fs hal_ok congestion s = do {
     levels \<leftarrow> (if length congestion < 8 then None else Some (take 8 congestion));
     ((has_zero, all_two), s) \<leftarrow> guide_loop levels 0 (False, True) s;
     s \<leftarrow> (if has_zero then map_option snd (AudioPlayer_Enqueue (c_lit ''guide_end.wav'') s)
           else if all_two then map_option snd (AudioPlayer_Enqueue (c_lit ''warning.wav'') s)
           else Some s);
     AudioPlayer_PlayNextFromQueue fs hal_ok s }"

section \<open>The main-loop step\<close>

definition serve_half :: "'f fatfs \<Rightarrow> u8 \<Rightarrow> nat \<Rightarrow> 'f audio \<Rightarrow> 'f audio option" where
  "serve_half fs ev off s =
     (if s_bufferEvent s AND ev \<noteq> 0
      then do {
        s \<leftarrow> AudioPlayer_FillHalfBuffer fs off (s\<lparr>s_bufferEvent := s_bufferEvent s AND NOT ev\<rparr>);
        Some (if s_audioSource s = AUDIO_SOURCE_WAV \<and> s_wavEof s \<noteq> 0
              then s\<lparr>s_stopPending := 1\<rparr> else s)
      }
      else Some s)"

text \<open>The two ends of playback: a WAV file at its end, a stream that ran dry or was stopped.\<close>

definition end_wav :: "'f audio \<Rightarrow> 'f audio" where
  "end_wav s =
     (if s_audioSource s = AUDIO_SOURCE_WAV \<and> s_stopPending s \<noteq> 0 \<and> s_wavEof s \<noteq> 0
      then (if s_bufferEvent s = 0 then Audio_Stop s else s) else s)"

definition end_stream :: "u32 \<Rightarrow> 'f audio \<Rightarrow> 'f audio" where
  "end_stream now s =
     (if s_audioSource s = AUDIO_SOURCE_STREAM
      then (if AudioStreamRx_Available (rx s) = 0 \<and> s_bufferEvent s = 0 \<and>
                 now - s_streamLastDataTick s \<ge> AUDIO_STREAM_TIMEOUT_MS \<or>
               s_streamStopRequested s \<noteq> 0 \<and> AudioStreamRx_Available (rx s) = 0 \<and>
                 s_bufferEvent s = 0
            then Audio_Stop s else s)
      else s)"

definition process_playing :: "'f fatfs \<Rightarrow> u32 \<Rightarrow> 'f audio \<Rightarrow> 'f audio option" where
  "process_playing fs now s = do {
     s \<leftarrow> serve_half fs 0x01 0 s;
     s \<leftarrow> serve_half fs 0x02 (AUDIO_PLAYER_MONO_SAMPLES * 2) s;
     Some (end_stream now (end_wav s)) }"

definition process_stream_rx :: "u32 \<Rightarrow> 'f audio \<Rightarrow> 'f audio option" where
  "process_stream_rx now s = do {
     r \<leftarrow> AudioStreamRx_Process (rx s);
     let s = s\<lparr>rx := r\<rparr>;
     Some (if AudioStreamRx_Available (rx s) > 0 then s\<lparr>s_streamLastDataTick := now\<rparr> else s) }"

text \<open>
  \<open>Audio_Process\<close>; \<open>t1\<close>, \<open>t2\<close> and \<open>t3\<close> are the results of its calls of \<open>HAL_GetTick\<close>, in
  order (the last is the one of \<open>Audio_StartStream\<close>).
\<close>

definition Audio_Process ::
    "'f fatfs \<Rightarrow> bool \<Rightarrow> u32 \<Rightarrow> u32 \<Rightarrow> u32 \<Rightarrow> 'f audio \<Rightarrow> 'f audio option" where
  "Audio_Process fs hal_ok t1 t2 t3 s = do {
     s \<leftarrow> process_stream_rx t1 s;
     s \<leftarrow> (if s_isPlaying s \<noteq> 0 then process_playing fs t2 s else Some s);
     if s_isPlaying s = 0
     then (if \<not> AudioPlayer_IsQueueEmpty s then AudioPlayer_PlayNextFromQueue fs hal_ok s
           else map_option snd (Audio_StartStream fs hal_ok t3 s))
     else Some s }"

section \<open>Filling one half\<close>

text \<open>What FatFs documents of \<open>f_read\<close>: never more bytes than asked for.\<close>

definition fatfs_ok :: "'f fatfs \<Rightarrow> bool" where
  "fatfs_ok fs \<longleftrightarrow> (\<forall>f n. length (fst (f_read fs f n)) \<le> n)"

text \<open>The samples in a run of bytes, both channels of a sample list, and a half padded with silence.\<close>

definition samples :: "u8 list \<Rightarrow> u16 list" where
  "samples bs = map (mono_sample bs) [0..<length bs div 2]"

definition stereo :: "u16 list \<Rightarrow> u16 list" where
  "stereo xs = concat (map (\<lambda>x. [x, x]) xs)"

definition half_of :: "u8 list \<Rightarrow> u16 list" where
  "half_of bs = stereo (samples bs) @ replicate (8192 - 2 * (length bs div 2)) 0"

lemma length_stereo [simp]: "length (stereo xs) = 2 * length xs"
  by (induction xs) (simp_all add: stereo_def)

lemma length_half_of: "length bs \<le> 8192 \<Longrightarrow> length (half_of bs) = 8192"
  by (simp add: half_of_def samples_def)

lemma half_of_silence: "length bs < 2 \<Longrightarrow> half_of bs = replicate 8192 0"
  by (simp add: half_of_def samples_def stereo_def)

text \<open>Both loops overwrite their cells from left to right.\<close>

lemma two_stores:
  assumes "k + 2 \<le> length buf"
  shows "c_store buf (int k) a = Some (buf[k := a])"
    and "c_store (buf[k := a]) (int (k + 1)) b = Some (buf[k := a, k + 1 := b])"
    and "take (k + 2) (buf[k := a, k + 1 := b]) = take k buf @ [a, b]"
    and "drop (k + 2 + m) (buf[k := a, k + 1 := b]) = drop (k + 2 + m) buf"
  using assms by (simp_all add: c_store_def nat_add_distrib take_Suc_conv_app_nth)

lemma stereo_loop_eq:
  "off + 2 * (i + n) \<le> length buf \<Longrightarrow>
   stereo_loop mbuf off i n buf = Some (take (off + 2 * i) buf @
     stereo (map (mono_sample mbuf) [i..<i + n]) @ drop (off + 2 * (i + n)) buf)"
proof (induction n arbitrary: i buf)
  case 0
  then show ?case by (simp add: stereo_def)
next
  case (Suc n)
  let ?k = "off + i * 2" and ?x = "mono_sample mbuf i"
  let ?buf = "buf[?k := ?x, ?k + 1 := ?x]"
  have k: "?k + 2 \<le> length buf" using Suc.prems by simp
  have "stereo_loop mbuf off i (Suc n) buf = stereo_loop mbuf off (Suc i) n ?buf"
    using two_stores(1) [OF k, of ?x] two_stores(2) [OF k, of ?x ?x] by (simp add: add.assoc)
  also have "\<dots> = Some (take (?k + 2) ?buf @ stereo (map (mono_sample mbuf) [Suc i..<Suc i + n]) @
      drop (?k + 2 + 2 * n) ?buf)"
    using Suc.prems by (subst Suc.IH) (simp_all add: algebra_simps)
  also have "take (?k + 2) ?buf = take ?k buf @ [?x, ?x]" by (rule two_stores(3) [OF k])
  also have "drop (?k + 2 + 2 * n) ?buf = drop (?k + 2 + 2 * n) buf" by (rule two_stores(4) [OF k])
  also have "(take ?k buf @ [?x, ?x]) @ stereo (map (mono_sample mbuf) [Suc i..<Suc i + n]) @
      drop (?k + 2 + 2 * n) buf
      = take ?k buf @ stereo (map (mono_sample mbuf) [i..<i + Suc n]) @ drop (?k + 2 + 2 * n) buf"
    by (simp add: stereo_def upt_conv_Cons del: upt_Suc)
  finally show ?case by (simp add: algebra_simps)
qed

lemma padding_loop_eq:
  "off + 2 * (i + n) \<le> length buf \<Longrightarrow>
   padding_loop off i n buf
     = Some (take (off + 2 * i) buf @ replicate (2 * n) 0 @ drop (off + 2 * (i + n)) buf)"
proof (induction n arbitrary: i buf)
  case 0
  then show ?case by simp
next
  case (Suc n)
  let ?k = "off + i * 2"
  let ?buf = "buf[?k := 0, ?k + 1 := 0]"
  have k: "?k + 2 \<le> length buf" using Suc.prems by simp
  have "padding_loop off i (Suc n) buf = padding_loop off (Suc i) n ?buf"
    using two_stores(1) [OF k, of 0] two_stores(2) [OF k, of 0 0] by (simp add: add.assoc)
  also have "\<dots> = Some (take (?k + 2) ?buf @ replicate (2 * n) 0 @ drop (?k + 2 + 2 * n) ?buf)"
    using Suc.prems by (subst Suc.IH) (simp_all add: algebra_simps)
  also have "take (?k + 2) ?buf = take ?k buf @ [0, 0]" by (rule two_stores(3) [OF k])
  also have "drop (?k + 2 + 2 * n) ?buf = drop (?k + 2 + 2 * n) buf" by (rule two_stores(4) [OF k])
  finally show ?case by (simp add: algebra_simps)
qed

text \<open>The bytes that the next half is made of, by the source and its position.\<close>

definition delivered :: "'f fatfs \<Rightarrow> 'f audio \<Rightarrow> u8 list" where
  "delivered fs s =
     (case s_audioSource s of
        AUDIO_SOURCE_NONE \<Rightarrow> []
      | AUDIO_SOURCE_STREAM \<Rightarrow> take 8192 (rx_bytes (rx s))
      | AUDIO_SOURCE_WAV \<Rightarrow>
          (if s_wavEof s \<noteq> 0 then []
           else case s_wavFile s of None \<Rightarrow> [] | Some f \<Rightarrow> fst (f_read fs f 8192)))"

definition buf_inv :: "'f audio \<Rightarrow> bool" where
  "buf_inv s \<longleftrightarrow> length (s_monoBuf s) = 8192 \<and> length (s_i2sBuf s) = 16384 \<and> rx_inv (rx s)"

lemma length_delivered: "fatfs_ok fs \<Longrightarrow> length (delivered fs s) \<le> 8192"
  by (auto simp: delivered_def fatfs_ok_def split: AudioSource_t.split option.split)

text \<open>What a fill leaves of the file handle and of the end-of-file flag.\<close>

definition file_after :: "'f fatfs \<Rightarrow> 'f audio \<Rightarrow> 'f option" where
  "file_after fs s =
     (if s_audioSource s = AUDIO_SOURCE_WAV \<and> s_wavEof s = 0
      then map_option (\<lambda>f. snd (f_read fs f 8192)) (s_wavFile s) else s_wavFile s)"

definition eof_after :: "'f fatfs \<Rightarrow> 'f audio \<Rightarrow> u8" where
  "eof_after fs s =
     (if s_audioSource s = AUDIO_SOURCE_WAV \<and> s_wavEof s = 0 \<and> length (delivered fs s) < 8192
      then 1 else s_wavEof s)"

definition stream_after :: "'f audio \<Rightarrow> u8 list" where
  "stream_after s = (if s_audioSource s = AUDIO_SOURCE_STREAM then drop 8192 (rx_bytes (rx s))
     else rx_bytes (rx s))"

lemmas fill_defs = delivered_def file_after_def eof_after_def stream_after_def

lemma ReadMonoPcm_law:
  assumes fs: "fatfs_ok fs" and inv: "buf_inv s"
    and wav: "s_audioSource s = AUDIO_SOURCE_WAV \<Longrightarrow> s_wavEof s = 0"
  obtains mbuf r where "AudioSource_ReadMonoPcm fs 8192 s
      = Some (length (delivered fs s), s\<lparr>s_monoBuf := mbuf, s_wavFile := file_after fs s, rx := r\<rparr>)"
    and "length mbuf = 8192" and "take (length (delivered fs s)) mbuf = delivered fs s"
    and "rx_inv r" and "rx_bytes r = stream_after s"
    and "s_audioSource s \<noteq> AUDIO_SOURCE_STREAM \<Longrightarrow> r = rx s"
proof (cases "s_audioSource s")
  case AUDIO_SOURCE_NONE
  then show ?thesis using inv
    by (intro that [of "rx s" "s_monoBuf s"])
      (simp_all add: AudioSource_ReadMonoPcm_def fill_defs buf_inv_def)
next
  case AUDIO_SOURCE_WAV
  show ?thesis
  proof (cases "s_wavFile s")
    case None
    then show ?thesis using inv AUDIO_SOURCE_WAV wav
      by (intro that [of "rx s" "s_monoBuf s"])
        (simp_all add: AudioSource_ReadMonoPcm_def fill_defs buf_inv_def)
  next
    case (Some f)
    obtain bs f' where r: "f_read fs f 8192 = (bs, f')" by fastforce
    then have "length bs \<le> 8192" using fs [unfolded fatfs_ok_def, rule_format, of f 8192] by simp
    then show ?thesis using inv AUDIO_SOURCE_WAV wav Some r
      by (intro that [of "rx s" "bs @ drop (length bs) (s_monoBuf s)"])
        (simp_all add: AudioSource_ReadMonoPcm_def fill_defs buf_inv_def memcpy_def)
  qed
next
  case AUDIO_SOURCE_STREAM
  have n: "unat (of_nat 8192 :: u32) = 8192" by (rule unat_of_nat_u32) simp
  have le: "unat (of_nat 8192 :: u32) \<le> length (s_monoBuf s)" unfolding n using inv by (simp add: buf_inv_def)
  have "rx_inv (rx s)" "ring_inv (rx s)" using inv by (auto simp: buf_inv_def rx_inv_def)
  from Read_law [OF this(2) le] obtain m d r where
    rd: "AudioStreamRx_Read (rx s) (s_monoBuf s) (of_nat 8192) = Some (m, d, r)"
    and m: "unat m = min 8192 (unat (s_count (rx s)))"
    and d: "d = take 8192 (rx_bytes (rx s)) @ drop (unat m) (s_monoBuf s)"
    and r: "rx_bytes r = drop 8192 (rx_bytes (rx s))"
    unfolding n by (metis (no_types, lifting) n word_min_if_nat)
  have "rx_inv r" using Read_inv [OF \<open>rx_inv (rx s)\<close> rd le] .
  then show ?thesis using rd m d r inv AUDIO_SOURCE_STREAM
    by (intro that [of r d]) (simp_all add: AudioSource_ReadMonoPcm_def fill_defs buf_inv_def min_def)
qed

lemma mono_sample_prefix:
  assumes "take n mbuf = bs" and "n \<le> length mbuf"
  shows "map (mono_sample mbuf) [0..<n div 2] = samples bs"
proof -
  have n: "length bs = n" using assms by auto
  have "mono_sample mbuf i = mono_sample bs i" if "i < n div 2" for i
    using that assms(1) [symmetric] by (auto simp: mono_sample_def)
  then show ?thesis by (simp add: samples_def n)
qed

lemma memset_half:
  assumes "length buf = 16384" and "off \<in> {0, 8192}"
  shows "memset buf off 0 8192 = Some (take off buf @ replicate 8192 0 @ drop (off + 8192) buf)"
  using assms by (auto simp: memset_def)

lemma fill_half:
  assumes "length buf = 16384" and "off \<in> {0, 8192}" and "n \<le> length mbuf" and "n \<le> 8192"
  obtains buf' where "stereo_loop mbuf off 0 (n div 2) buf = Some buf'"
    and "padding_loop off (n div 2) (4096 - n div 2) buf'
      = Some (take off buf @ half_of (take n mbuf) @ drop (off + 8192) buf)"
proof -
  let ?c = "n div 2" and ?st = "stereo (samples (take n mbuf))"
  have c: "?c \<le> 4096" and lst: "length ?st = 2 * ?c" using assms(3,4) by (simp_all add: samples_def)
  let ?buf' = "take off buf @ ?st @ drop (off + 2 * ?c) buf"
  have "stereo_loop mbuf off 0 ?c buf = Some ?buf'"
    using assms c mono_sample_prefix [of n mbuf "take n mbuf"]
    by (subst stereo_loop_eq) (auto simp del: upt_Suc)
  moreover have "padding_loop off ?c (4096 - ?c) ?buf'
      = Some (take (off + 2 * ?c) ?buf' @ replicate (2 * (4096 - ?c)) 0 @ drop (off + 2 * (?c + (4096 - ?c))) ?buf')"
    using assms(1,2) c lst by (intro padding_loop_eq) auto
  moreover have "take (off + 2 * ?c) ?buf' = take off buf @ ?st"
    using assms(1,2) lst by auto
  moreover have "drop (off + 2 * (?c + (4096 - ?c))) ?buf' = drop (off + 8192) buf"
    using assms(1,2) c lst by auto
  moreover have "half_of (take n mbuf) = ?st @ replicate (2 * (4096 - ?c)) 0"
    using assms(3) by (simp add: half_of_def diff_mult_distrib2)
  ultimately show ?thesis by (intro that [of ?buf']) (simp_all only: append.assoc)
qed

text \<open>
  The law of \<open>AudioPlayer_FillHalfBuffer\<close>: the half holds what the source delivers, on both
  channels and padded with silence, the other half is untouched, and the source has moved on.
\<close>

definition after_fill :: "'f fatfs \<Rightarrow> nat \<Rightarrow> 'f audio \<Rightarrow> u8 list \<Rightarrow> stream_rx \<Rightarrow> 'f audio" where
  "after_fill fs off s mbuf r = s\<lparr>s_monoBuf := mbuf,
     s_i2sBuf := take off (s_i2sBuf s) @ half_of (delivered fs s) @ drop (off + 8192) (s_i2sBuf s),
     s_wavFile := file_after fs s, s_wavEof := eof_after fs s, rx := r\<rparr>"

lemma Fill_law:
  assumes fs: "fatfs_ok fs" and inv: "buf_inv s" and off: "off \<in> {0, 8192}"
  obtains mbuf r where "AudioPlayer_FillHalfBuffer fs off s = Some (after_fill fs off s mbuf r)"
    and "buf_inv (after_fill fs off s mbuf r)" and "rx_bytes r = stream_after s"
    and "s_audioSource s \<noteq> AUDIO_SOURCE_STREAM \<Longrightarrow> r = rx s"
proof (cases "s_audioSource s = AUDIO_SOURCE_WAV \<and> s_wavEof s \<noteq> 0")
  case True
  then have "delivered fs s = []" "file_after fs s = s_wavFile s" "eof_after fs s = s_wavEof s"
    "stream_after s = rx_bytes (rx s)" by (simp_all add: fill_defs)
  then show ?thesis using True inv off memset_half [of "s_i2sBuf s" off]
    by (intro that [of "s_monoBuf s" "rx s"])
      (auto simp: AudioPlayer_FillHalfBuffer_def after_fill_def buf_inv_def half_of_silence player_consts)
next
  case False
  let ?d = "delivered fs s"
  have le: "length ?d \<le> 8192" using fs by (rule length_delivered)
  have i2s: "length (s_i2sBuf s) = 16384" using inv by (simp add: buf_inv_def)
  from False have "s_audioSource s = AUDIO_SOURCE_WAV \<Longrightarrow> s_wavEof s = 0" by simp
  from ReadMonoPcm_law [OF fs inv this] obtain mbuf r where
    rd: "AudioSource_ReadMonoPcm fs 8192 s
      = Some (length ?d, s\<lparr>s_monoBuf := mbuf, s_wavFile := file_after fs s, rx := r\<rparr>)"
    and mb: "length mbuf = 8192" "take (length ?d) mbuf = ?d"
    and r: "rx_inv r" "rx_bytes r = stream_after s"
      "s_audioSource s \<noteq> AUDIO_SOURCE_STREAM \<Longrightarrow> r = rx s" by metis
  have buf: "buf_inv (after_fill fs off s mbuf r)"
    using mb r i2s off length_half_of [OF le] by (auto simp: buf_inv_def after_fill_def)
  have eof: "length ?d div 2 < 4096 \<longleftrightarrow> length ?d < 8192" by auto
  have "length ?d \<le> length mbuf" using le mb by simp
  from fill_half [OF i2s off this le] obtain buf' where
    st: "stereo_loop mbuf off 0 (length ?d div 2) (s_i2sBuf s) = Some buf'"
    and pad: "padding_loop off (length ?d div 2) (4096 - length ?d div 2) buf'
      = Some (take off (s_i2sBuf s) @ half_of ?d @ drop (off + 8192) (s_i2sBuf s))"
    unfolding mb(2) .
  have "AudioPlayer_FillHalfBuffer fs off s = Some (after_fill fs off s mbuf r)"
  proof (cases "length ?d div 2 = 0")
    case True
    then have "half_of ?d = replicate 8192 0" by (intro half_of_silence) auto
    then show ?thesis using True False rd memset_half [OF i2s off]
      by (auto simp: AudioPlayer_FillHalfBuffer_def after_fill_def player_consts eof_after_def Let_def)
  next
    case nz: False
    then show ?thesis using False rd st pad eof
      by (auto simp: AudioPlayer_FillHalfBuffer_def after_fill_def player_consts eof_after_def Let_def)
  qed
  with buf r show ?thesis by (intro that)
qed

section \<open>The name queue as a first-in first-out buffer\<close>

definition queue_inv :: "'f audio \<Rightarrow> bool" where
  "queue_inv s \<longleftrightarrow> length (s_audioQueue s) = 16 \<and>
     (\<forall>e \<in> set (s_audioQueue s). length e = 32 \<and> e ! 31 = 0) \<and>
     unat (s_queueHead s) < 16 \<and> unat (s_queueTail s) < 16"

definition queue_length :: "'f audio \<Rightarrow> nat" where
  "queue_length s = (unat (s_queueTail s) + 16 - unat (s_queueHead s)) mod 16"

definition queue_names :: "'f audio \<Rightarrow> u8 list list" where
  "queue_names s = map c_string (window (s_audioQueue s) (unat (s_queueHead s)) (queue_length s))"

text \<open>The names the queue keeps whole: C strings of at most 31 bytes.\<close>

definition name_ok :: "u8 list \<Rightarrow> bool" where
  "name_ok n \<longleftrightarrow> length n \<le> 31 \<and> 0 \<notin> set n"

lemma length_queue_names [simp]: "length (queue_names s) = queue_length s"
  by (simp add: queue_names_def)

lemma queue_length_bound: "queue_length s \<le> 15"
proof -
  have "queue_length s < 16" unfolding queue_length_def by simp
  then show ?thesis by simp
qed

lemma queue_next_unat: "unat (queue_next i) = (unat i + 1) mod 16"
proof -
  have i: "unat (ucast i :: u32) = unat i" by (simp add: unat_ucast_widen)
  have "unat (ucast i :: u32) + unat (1 :: u32) < 2 ^ LENGTH(32)"
    unfolding i by (rule less_trans [of _ "256 + 1"]) (simp_all add: less_le_trans [OF unat_u8])
  then have "unat (ucast i + 1 :: u32) = unat i + 1" by (simp add: unat_add_bounded i)
  then show ?thesis by (simp add: queue_next_def unat_mod_distrib AUDIO_PLAYER_QUEUE_MAX_def)
qed

lemma queue_next_u8: "unat (ucast (queue_next i) :: u8) = (unat i + 1) mod 16"
proof -
  have "(unat i + 1) mod 16 < (256 :: nat)" by (rule less_trans [of _ 16]) simp_all
  then show ?thesis by (simp add: unat_ucast_mod queue_next_unat)
qed

lemma ring_len:
  "h < 16 \<Longrightarrow> t < (16 :: nat) \<Longrightarrow> (t + 16 - h) mod 16 = (if h \<le> t then t - h else t + 16 - h)"
  by (auto simp: mod_if)

lemma ring_succ: "t < (16 :: nat) \<Longrightarrow> (t + 1) mod 16 = (if t = 15 then 0 else t + 1)"
  by auto

lemma ring16:
  assumes "h < 16" and "t < (16 :: nat)"
  shows "h = t \<longleftrightarrow> (t + 16 - h) mod 16 = 0" and "(t + 1) mod 16 = h \<longleftrightarrow> (t + 16 - h) mod 16 = 15"
    and "(h + (t + 16 - h) mod 16) mod 16 = t"
    and "(t + 1) mod 16 \<noteq> h \<Longrightarrow> ((t + 1) mod 16 + 16 - h) mod 16 = (t + 16 - h) mod 16 + 1"
    and "h \<noteq> t \<Longrightarrow> (t + 16 - (h + 1) mod 16) mod 16 = (t + 16 - h) mod 16 - 1"
proof -
  have s: "(t + 1) mod 16 < 16" "(h + 1) mod 16 < 16" by simp_all
  show "h = t \<longleftrightarrow> (t + 16 - h) mod 16 = 0" "(t + 1) mod 16 = h \<longleftrightarrow> (t + 16 - h) mod 16 = 15"
    "(h + (t + 16 - h) mod 16) mod 16 = t"
    unfolding ring_len [OF assms] ring_succ [OF assms(2)] using assms by auto
  show "(t + 1) mod 16 \<noteq> h \<Longrightarrow> ((t + 1) mod 16 + 16 - h) mod 16 = (t + 16 - h) mod 16 + 1"
    unfolding ring_len [OF assms] ring_len [OF assms(1) s(1)] unfolding ring_succ [OF assms(2)]
    using assms by (auto split: if_splits)
  show "h \<noteq> t \<Longrightarrow> (t + 16 - (h + 1) mod 16) mod 16 = (t + 16 - h) mod 16 - 1"
    unfolding ring_len [OF assms] ring_len [OF s(2) assms(2)] unfolding ring_succ [OF assms(1)]
    using assms by (auto split: if_splits)
qed

lemma empty_iff:
  assumes "queue_inv s"
  shows "AudioPlayer_IsQueueEmpty s \<longleftrightarrow> queue_length s = 0"
proof -
  have "unat (s_queueHead s) < 16" "unat (s_queueTail s) < 16"
    using assms by (simp_all add: queue_inv_def)
  from ring16(1) [OF this] show ?thesis
    by (simp only: AudioPlayer_IsQueueEmpty_def queue_length_def word_unat_eq_iff)
qed

lemma full_iff:
  assumes "queue_inv s"
  shows "AudioPlayer_IsQueueFull s \<longleftrightarrow> queue_length s = 15"
proof -
  have w: "unat (ucast (s_queueHead s) :: u32) = unat (s_queueHead s)" by (rule unat_ucast_widen) simp
  have "unat (s_queueHead s) < 16" "unat (s_queueTail s) < 16"
    using assms by (simp_all add: queue_inv_def)
  from ring16(2) [OF this] show ?thesis
    by (simp only: AudioPlayer_IsQueueFull_def queue_length_def word_unat_eq_iff queue_next_unat w)
qed

lemma c_string_short: "length e = 32 \<Longrightarrow> e ! 31 = 0 \<Longrightarrow> length (c_string e) \<le> 31"
proof (rule ccontr)
  assume e: "length e = 32" "e ! 31 = 0" and "\<not> length (c_string e) \<le> 31"
  then have k: "31 < length (takeWhile (\<lambda>b. b \<noteq> 0) e)" by (simp add: c_string_def)
  from nth_mem [OF k] have "takeWhile (\<lambda>b. b \<noteq> 0) e ! 31 \<noteq> 0" by (rule conjunct2 [OF set_takeWhileD])
  with e show False unfolding takeWhile_nth [OF k] by blast
qed

lemma c_string_no_zero: "0 \<notin> set (c_string e)"
  by (auto simp: c_string_def dest: set_takeWhileD)

lemma dequeue_copy:
  assumes "length e = 32" and "e ! 31 = 0"
  shows "c_string ((strncpy 32 (c_string e))[31 := 0]) = c_string e"
proof -
  let ?c = "c_string e"
  have len: "length ?c \<le> 31" using c_string_short [OF assms] .
  have "(strncpy 32 ?c)[31 := 0] = strncpy 31 ?c @ [0]"
  proof (rule nth_equalityI)
    fix i assume "i < length ((strncpy 32 ?c)[31 := 0])"
    then have "i < 32" by simp
    then consider "i < length ?c" | "length ?c \<le> i" "i < 31" | "i = 31" by linarith
    then show "(strncpy 32 ?c)[31 := 0] ! i = (strncpy 31 ?c @ [0]) ! i"
      by cases (use len in \<open>simp_all add: strncpy_def nth_append\<close>)
  qed simp
  then show ?thesis using len c_string_no_zero by (simp add: c_string_strncpy)
qed

lemma head_tail:
  assumes "queue_inv s"
  shows "unat (s_queueHead s) < 16" and "unat (s_queueTail s) < 16"
    and "(unat (s_queueHead s) + queue_length s) mod 16 = unat (s_queueTail s)"
  using assms ring16(3) [of "unat (s_queueHead s)" "unat (s_queueTail s)"]
  by (simp_all add: queue_inv_def queue_length_def)

text \<open>An accepted name goes to the end; a full queue refuses it.\<close>

lemma Enqueue_full:
  "queue_inv s \<Longrightarrow> queue_length s = 15 \<Longrightarrow> AudioPlayer_Enqueue n s = Some (0, s)"
  by (simp add: AudioPlayer_Enqueue_def full_iff)

lemma Enqueue_law:
  assumes inv: "queue_inv s" and room: "queue_length s < 15" and n: "0 \<notin> set n"
  obtains q tl where "AudioPlayer_Enqueue n s = Some (1, s\<lparr>s_audioQueue := q, s_queueTail := tl\<rparr>)"
    and "queue_inv (s\<lparr>s_audioQueue := q, s_queueTail := tl\<rparr>)"
    and "queue_names (s\<lparr>s_audioQueue := q, s_queueTail := tl\<rparr>) = queue_names s @ [take 31 n]"
proof -
  let ?e = "strncpy 31 n @ [0]" and ?h = "unat (s_queueHead s)" and ?t = "unat (s_queueTail s)"
  let ?q = "(s_audioQueue s)[?t := ?e]" and ?tl = "ucast (queue_next (s_queueTail s)) :: u8"
  let ?s = "s\<lparr>s_audioQueue := ?q, s_queueTail := ?tl\<rparr>"
  note ht = head_tail [OF inv]
  have len: "length (s_audioQueue s) = 16" using inv by (simp add: queue_inv_def)
  have tl: "unat ?tl = (?t + 1) mod 16" by (rule queue_next_u8)
  have ent: "length ?e = 32" "?e ! 31 = 0" by (simp_all add: nth_append)
  have set: "set ?q \<subseteq> insert ?e (set (s_audioQueue s))" by (rule set_update_subset_insert)
  have inv': "queue_inv ?s"
    unfolding queue_inv_def using inv ent set tl by (auto simp: queue_inv_def)
  have nf: "(?t + 1) mod 16 \<noteq> ?h"
    using ring16(2) [OF ht(1,2)] room by (simp add: queue_length_def)
  then have ql: "queue_length ?s = queue_length s + 1"
    using ring16(4) [OF ht(1,2)] tl by (simp add: queue_length_def)
  have "window ?q ?h (queue_length s + 1) = window (s_audioQueue s) ?h (queue_length s) @ [?e]"
  proof (rule window_write)
    show "length ?q = length (s_audioQueue s)" "?h < length (s_audioQueue s)"
      "queue_length s + 1 \<le> length (s_audioQueue s)" "1 = length [?e]"
      using len ht room by simp_all
    show "?q ! ((?h + queue_length s + i) mod length (s_audioQueue s)) = [?e] ! i" if "i < 1" for i
      using that ht len by simp
    show "?q ! j = s_audioQueue s ! j" if "j < length (s_audioQueue s)"
      "\<forall>i<1. j \<noteq> (?h + queue_length s + i) mod length (s_audioQueue s)" for j
      using that ht(3) len by (auto simp: nth_list_update)
  qed
  then have "queue_names ?s = queue_names s @ [take 31 n]"
    using n by (simp add: queue_names_def ql c_string_strncpy)
  moreover have "AudioPlayer_Enqueue n s = Some (1, ?s)"
    using full_iff [OF inv] room ht(2) len
    by (simp add: AudioPlayer_Enqueue_def player_consts c_store_unat Let_def)
  ultimately show ?thesis using inv' by (intro that)
qed

lemma Dequeue_empty:
  "queue_inv s \<Longrightarrow> queue_names s = [] \<Longrightarrow> AudioPlayer_Dequeue s = Some (None, s)"
  using length_queue_names [of s] by (simp add: AudioPlayer_Dequeue_def empty_iff)

lemma Dequeue_law:
  assumes inv: "queue_inv s" and ne: "queue_names s \<noteq> []"
  obtains h where "AudioPlayer_Dequeue s = Some (Some (hd (queue_names s)), s\<lparr>s_queueHead := h\<rparr>)"
    and "queue_inv (s\<lparr>s_queueHead := h\<rparr>)"
    and "queue_names (s\<lparr>s_queueHead := h\<rparr>) = tl (queue_names s)"
proof -
  let ?h = "unat (s_queueHead s)" and ?t = "unat (s_queueTail s)"
  let ?hd = "ucast (queue_next (s_queueHead s)) :: u8"
  let ?e = "s_audioQueue s ! ?h" and ?s = "s\<lparr>s_queueHead := ?hd\<rparr>"
  note ht = head_tail [OF inv]
  have len: "length (s_audioQueue s) = 16" using inv by (simp add: queue_inv_def)
  have e: "length ?e = 32" "?e ! 31 = 0" using inv len ht(1) by (auto simp: queue_inv_def)
  have pos: "0 < queue_length s" using ne length_queue_names [of s] by (metis length_greater_0_conv)
  have hd: "unat ?hd = (?h + 1) mod 16" by (rule queue_next_u8)
  have inv': "queue_inv ?s" using inv hd by (simp add: queue_inv_def)
  have "?h \<noteq> ?t" using ring16(1) [OF ht(1,2)] pos by (simp add: queue_length_def)
  then have ql: "queue_length ?s = queue_length s - 1"
    using ring16(5) [OF ht(1,2)] hd by (simp add: queue_length_def)
  have w: "window (s_audioQueue s) ?h (queue_length s)
      = ?e # window (s_audioQueue s) (?h + 1) (queue_length s - 1)"
    using window_append [of "s_audioQueue s" ?h 1 "queue_length s - 1"] pos ht(1) len
    by (simp add: window_def [of _ _ "Suc 0"])
  have "window (s_audioQueue s) ((?h + 1) mod 16) (queue_length s - 1)
      = window (s_audioQueue s) (?h + 1) (queue_length s - 1)"
    using window_mod [of "s_audioQueue s" "?h + 1"] len by simp
  then have "queue_names ?s = tl (queue_names s)" by (simp add: queue_names_def ql hd w)
  moreover have "hd (queue_names s) = c_string ?e" by (simp add: queue_names_def w)
  moreover have "AudioPlayer_Dequeue s = Some (Some (c_string ?e), ?s)"
    using empty_iff [OF inv] pos ht(1) len dequeue_copy [OF e]
    by (simp add: AudioPlayer_Dequeue_def player_consts c_load_unat Let_def)
  ultimately show ?thesis using inv' by (intro that) simp_all
qed

text \<open>The second provider of the contract of Fifo: one name per operation, 15 names at most.\<close>

definition queue_push :: "u8 list list \<Rightarrow> 'f audio \<Rightarrow> (nat \<times> 'f audio) option" where
  "queue_push ns s = (case ns of [] \<Rightarrow> Some (0, s)
     | n # _ \<Rightarrow> map_option (\<lambda>(r, t). (unat r, t)) (AudioPlayer_Enqueue n s))"

definition queue_pull :: "nat \<Rightarrow> 'f audio \<Rightarrow> (u8 list list \<times> 'f audio) option" where
  "queue_pull n s = (if n = 0 then Some ([], s) else
     map_option (\<lambda>(r, t). (case r of None \<Rightarrow> [] | Some x \<Rightarrow> [x], t)) (AudioPlayer_Dequeue s))"

interpretation name_queue: block_fifo queue_inv queue_names 15 1 name_ok queue_push queue_pull
proof unfold_locales
  fix s :: "'f audio"
  assume inv: "queue_inv s"
  then show "length (queue_names s) \<le> 15" by (simp add: queue_length_bound)
  fix ns :: "u8 list list"
  assume ns: "length ns \<le> 1" "list_all name_ok ns"
  show "\<exists>t. queue_push ns s = Some (min (length ns) (15 - length (queue_names s)), t) \<and>
      queue_inv t \<and> queue_names t = queue_names s @ take (15 - length (queue_names s)) ns"
  proof (cases ns)
    case Nil
    then show ?thesis using inv by (simp add: queue_push_def)
  next
    case (Cons n ns')
    then have one: "ns = [n]" and n: "0 \<notin> set n" "take 31 n = n"
      using ns by (auto simp: name_ok_def)
    show ?thesis
    proof (cases "queue_length s = 15")
      case True
      then show ?thesis using inv one by (simp add: queue_push_def Enqueue_full)
    next
      case False
      then have lt: "queue_length s < 15" using queue_length_bound [of s] by simp
      from Enqueue_law [OF inv this n(1)] obtain q tl where
        "AudioPlayer_Enqueue n s = Some (1, s\<lparr>s_audioQueue := q, s_queueTail := tl\<rparr>)"
        "queue_inv (s\<lparr>s_audioQueue := q, s_queueTail := tl\<rparr>)"
        "queue_names (s\<lparr>s_audioQueue := q, s_queueTail := tl\<rparr>) = queue_names s @ [n]"
        unfolding n(2) by blast
      then show ?thesis using lt one by (simp add: queue_push_def)
    qed
  qed
next
  fix s :: "'f audio" and n :: nat
  assume inv: "queue_inv s" and n: "n \<le> 1"
  show "\<exists>t. queue_pull n s = Some (take n (queue_names s), t) \<and> queue_inv t \<and>
      queue_names t = drop n (queue_names s)"
  proof (cases "n = 0 \<or> queue_names s = []")
    case True
    then show ?thesis using inv by (auto simp: queue_pull_def Dequeue_empty)
  next
    case False
    then have "n = 1" using n by simp
    from False obtain h where
      "AudioPlayer_Dequeue s = Some (Some (hd (queue_names s)), s\<lparr>s_queueHead := h\<rparr>)"
      "queue_inv (s\<lparr>s_queueHead := h\<rparr>)" "queue_names (s\<lparr>s_queueHead := h\<rparr>) = tl (queue_names s)"
      using Dequeue_law [OF inv] by blast
    then show ?thesis using False \<open>n = 1\<close>
      by (cases "queue_names s") (simp_all add: queue_pull_def)
  qed
qed

section \<open>The player's invariant\<close>

text \<open>
  The I2S transfer runs exactly while something is playing, a file is open exactly while the
  source is a WAV file, and the arrays of the player, of the queue and of the stream keep their
  shapes.
\<close>

definition player_inv :: "'f audio \<Rightarrow> bool" where
  "player_inv s \<longleftrightarrow> buf_inv s \<and> queue_inv s \<and> s_isPlaying s \<in> {0, 1} \<and>
     (s_isPlaying s \<noteq> 0 \<longleftrightarrow> s_audioSource s \<noteq> AUDIO_SOURCE_NONE) \<and>
     (i2s_running s \<longleftrightarrow> s_isPlaying s \<noteq> 0) \<and>
     (s_wavFile s \<noteq> None \<longleftrightarrow> s_audioSource s = AUDIO_SOURCE_WAV)"

lemma queue_frame:
  assumes "s_audioQueue t = s_audioQueue s" "s_queueHead t = s_queueHead s"
    "s_queueTail t = s_queueTail s"
  shows "queue_inv t = queue_inv s" and "queue_names t = queue_names s"
  using assms by (simp_all add: queue_inv_def queue_names_def queue_length_def)

lemma after_fill_fields [simp]:
  "s_audioQueue (after_fill fs off s m r) = s_audioQueue s"
  "s_queueHead (after_fill fs off s m r) = s_queueHead s"
  "s_queueTail (after_fill fs off s m r) = s_queueTail s"
  "s_audioSource (after_fill fs off s m r) = s_audioSource s"
  "s_bufferEvent (after_fill fs off s m r) = s_bufferEvent s"
  "s_isPlaying (after_fill fs off s m r) = s_isPlaying s"
  "s_stopPending (after_fill fs off s m r) = s_stopPending s"
  "s_streamStopRequested (after_fill fs off s m r) = s_streamStopRequested s"
  "s_streamLastDataTick (after_fill fs off s m r) = s_streamLastDataTick s"
  "i2s_running (after_fill fs off s m r) = i2s_running s"
  "s_wavEof (after_fill fs off s m r) = eof_after fs s"
  "s_wavFile (after_fill fs off s m r) = file_after fs s"
  "rx (after_fill fs off s m r) = r"
  by (simp_all add: after_fill_def)

lemma file_after_None [simp]: "file_after fs s = None \<longleftrightarrow> s_wavFile s = None"
  by (simp add: file_after_def)

lemma player_inv_after_fill:
  "player_inv s \<Longrightarrow> buf_inv (after_fill fs off s m r) \<Longrightarrow> player_inv (after_fill fs off s m r)"
  by (auto simp: player_inv_def queue_inv_def)

lemma Audio_Init_inv:
  "s_wavFile s = None \<Longrightarrow> \<not> i2s_running s \<Longrightarrow> rx_inv (rx s) \<Longrightarrow> length (s_audioQueue s) = 16 \<Longrightarrow>
   \<forall>e \<in> set (s_audioQueue s). length e = 32 \<and> e ! 31 = 0 \<Longrightarrow> player_inv (Audio_Init s)"
  by (simp add: player_inv_def Audio_Init_def AudioPlayer_ClearQueue_def clear_buffers_def buf_inv_def
      queue_inv_def player_consts Let_def)

lemma power_on_inv: "player_inv (Audio_Init audio_power_on)"
  by (rule Audio_Init_inv) (simp_all add: audio_power_on_def Init_inv rx_power_on_def)

lemma Audio_Stop_inv: "player_inv s \<Longrightarrow> player_inv (Audio_Stop s)"
  by (cases "s_audioSource s")
    (auto simp: player_inv_def Audio_Stop_def buf_inv_def queue_inv_def Let_def)

text \<open>Flags outside the invariant.\<close>

lemma player_flags [simp]:
  "player_inv (s\<lparr>s_bufferEvent := e\<rparr>) = player_inv s"
  "player_inv (s\<lparr>s_stopPending := p\<rparr>) = player_inv s"
  "player_inv (s\<lparr>s_streamStopRequested := p\<rparr>) = player_inv s"
  "player_inv (s\<lparr>s_streamLastDataTick := d\<rparr>) = player_inv s"
  by (simp_all add: player_inv_def buf_inv_def queue_inv_def)

lemma clear_buffers_fields [simp]:
  "s_audioQueue (clear_buffers s) = s_audioQueue s" "s_queueHead (clear_buffers s) = s_queueHead s"
  "s_queueTail (clear_buffers s) = s_queueTail s" "s_audioSource (clear_buffers s) = s_audioSource s"
  "s_bufferEvent (clear_buffers s) = s_bufferEvent s" "s_isPlaying (clear_buffers s) = s_isPlaying s"
  "s_stopPending (clear_buffers s) = s_stopPending s" "i2s_running (clear_buffers s) = i2s_running s"
  "s_streamStopRequested (clear_buffers s) = s_streamStopRequested s"
  "s_streamLastDataTick (clear_buffers s) = s_streamLastDataTick s"
  "s_wavEof (clear_buffers s) = s_wavEof s" "s_wavFile (clear_buffers s) = s_wavFile s"
  "rx (clear_buffers s) = rx s"
  by (simp_all add: clear_buffers_def)

lemma Enqueue_player:
  assumes "player_inv s" and "0 \<notin> set n"
  obtains r t where "AudioPlayer_Enqueue n s = Some (r, t)" and "player_inv t"
    and "queue_names t = (if queue_length s < 15 then queue_names s @ [take 31 n] else queue_names s)"
    and "s_isPlaying t = s_isPlaying s"
proof (cases "queue_length s < 15")
  case True
  have "queue_inv s" using assms(1) by (simp add: player_inv_def)
  then obtain q tl where
    e: "AudioPlayer_Enqueue n s = Some (1, s\<lparr>s_audioQueue := q, s_queueTail := tl\<rparr>)"
    "queue_inv (s\<lparr>s_audioQueue := q, s_queueTail := tl\<rparr>)"
    "queue_names (s\<lparr>s_audioQueue := q, s_queueTail := tl\<rparr>) = queue_names s @ [take 31 n]"
    using True assms(2) by (rule Enqueue_law)
  show ?thesis
    by (rule that [OF e(1)]) (use e True assms(1) in \<open>auto simp: player_inv_def buf_inv_def\<close>)
next
  case False
  then have "queue_length s = 15" using queue_length_bound [of s] by simp
  then show ?thesis using assms(1) by (intro that [OF Enqueue_full]) (auto simp: player_inv_def)
qed

lemma prefill_law:
  assumes fs: "fatfs_ok fs" and s: "buf_inv s"
  obtains m1 r1 m2 r2 u where "u = after_fill fs 0 (clear_buffers s) m1 r1"
    and "prefill fs s = Some (after_fill fs 8192 u m2 r2)"
    and "buf_inv u" and "buf_inv (after_fill fs 8192 u m2 r2)"
    and "rx_bytes r1 = stream_after s" and "rx_bytes r2 = stream_after u"
proof -
  have "buf_inv (clear_buffers s)" using s by (simp add: buf_inv_def clear_buffers_def player_consts)
  with fs obtain m1 r1 where 1:
    "AudioPlayer_FillHalfBuffer fs 0 (clear_buffers s) = Some (after_fill fs 0 (clear_buffers s) m1 r1)"
    "buf_inv (after_fill fs 0 (clear_buffers s) m1 r1)" "rx_bytes r1 = stream_after (clear_buffers s)"
    by (rule Fill_law [of _ _ 0]) simp_all
  moreover have "stream_after (clear_buffers s) = stream_after s"
    by (simp add: stream_after_def clear_buffers_def)
  moreover obtain m2 r2 where
    "AudioPlayer_FillHalfBuffer fs 8192 (after_fill fs 0 (clear_buffers s) m1 r1)
      = Some (after_fill fs 8192 (after_fill fs 0 (clear_buffers s) m1 r1) m2 r2)"
    "buf_inv (after_fill fs 8192 (after_fill fs 0 (clear_buffers s) m1 r1) m2 r2)"
    "rx_bytes r2 = stream_after (after_fill fs 0 (clear_buffers s) m1 r1)"
    using fs 1(2) by (rule Fill_law [of _ _ 8192]) simp_all
  ultimately show ?thesis by (intro that [OF refl]) (simp_all add: prefill_def player_consts)
qed

text \<open>
  Starting: from a state that is not playing, either nothing plays afterwards or both halves
  hold the first two chunks of the source and the transfer runs.
\<close>

lemma queue_inv_after_fill [simp]: "queue_inv (after_fill fs off s m r) = queue_inv s"
  by (simp add: queue_inv_def)

lemma queue_inv_clear [simp]: "queue_inv (clear_buffers s) = queue_inv s"
  by (simp add: queue_inv_def)

lemma queue_names_after_fill [simp]: "queue_names (after_fill fs off s m r) = queue_names s"
  by (rule queue_frame(2)) simp_all

lemma queue_names_clear [simp]: "queue_names (clear_buffers s) = queue_names s"
  by (rule queue_frame(2)) simp_all

lemma StartWav_playing: "s_isPlaying s \<noteq> 0 \<Longrightarrow> Audio_StartWav fs hal_ok name s = Some (0, s)"
  by (simp add: Audio_StartWav_def)

definition wav_state :: "'f \<Rightarrow> 'f audio \<Rightarrow> 'f audio" where
  "wav_state f s = s\<lparr>s_audioSource := AUDIO_SOURCE_WAV, s_bufferEvent := 0, s_wavEof := 0,
     s_stopPending := 0, s_streamStopRequested := 0, s_streamLastDataTick := 0,
     s_wavFile := Some f\<rparr>"

lemma StartWav_open:
  assumes "s_isPlaying s = 0" and "f_open fs name = Some f0" and "f_lseek fs f0 44 = Some f"
  shows "Audio_StartWav fs True name s
    = map_option (\<lambda>u. (1, u\<lparr>i2s_running := True, s_isPlaying := 1\<rparr>)) (prefill fs (wav_state f s))"
  using assms by (simp add: Audio_StartWav_def player_consts wav_state_def map_conv_bind_option Let_def o_def)

lemma StartWav_inv:
  assumes fs: "fatfs_ok fs" and inv: "player_inv s"
  obtains r t where "Audio_StartWav fs hal_ok name s = Some (r, t)" and "player_inv t"
    and "queue_names t = queue_names s" and "rx_bytes (rx t) = rx_bytes (rx s)"
proof (cases "s_isPlaying s = 0")
  case False
  then show ?thesis using inv by (intro that [OF StartWav_playing]) simp_all
next
  case True
  note i = inv [unfolded player_inv_def]
  let ?s = "s\<lparr>s_audioSource := AUDIO_SOURCE_NONE, s_bufferEvent := 0, s_wavEof := 0,
    s_stopPending := 0, s_streamStopRequested := 0, s_streamLastDataTick := 0\<rparr>"
  have idle: "player_inv ?s" "queue_names ?s = queue_names s" "rx ?s = rx s"
    "s_wavFile ?s = None" "s_audioSource s = AUDIO_SOURCE_NONE"
    using i True by (auto simp: player_inv_def buf_inv_def queue_inv_def queue_names_def queue_length_def)
  show ?thesis
  proof (cases "f_open fs name")
    case None
    then show ?thesis using True idle by (intro that [of 0 ?s]) (simp_all add: Audio_StartWav_def Let_def)
  next
    case f0: (Some f0)
    show ?thesis
    proof (cases "f_lseek fs f0 44")
      case None
      have "?s\<lparr>s_wavFile := None\<rparr> = ?s" using idle(4) by simp
      then show ?thesis using True idle f0 None
        by (intro that [of 0 ?s]) (simp_all add: Audio_StartWav_def player_consts Let_def)
    next
      case (Some f)
      have "buf_inv (wav_state f s)" using i by (simp add: buf_inv_def wav_state_def)
      from prefill_law [OF fs this] obtain m1 r1 m2 r2 u where
        u: "u = after_fill fs 0 (clear_buffers (wav_state f s)) m1 r1"
        and pre: "prefill fs (wav_state f s) = Some (after_fill fs 8192 u m2 r2)"
        and b: "buf_inv (after_fill fs 8192 u m2 r2)"
        and r: "rx_bytes r1 = stream_after (wav_state f s)" "rx_bytes r2 = stream_after u" by metis
      let ?t = "after_fill fs 8192 u m2 r2"
      have rxb: "rx_bytes r2 = rx_bytes (rx s)" using r by (simp add: stream_after_def u wav_state_def)
      have q: "queue_inv ?t" "queue_names ?t = queue_names s"
        using i by (simp_all add: u wav_state_def queue_inv_def queue_names_def queue_length_def)
      let ?v = "if hal_ok then ?t\<lparr>i2s_running := True, s_isPlaying := 1\<rparr>
        else ?t\<lparr>s_wavFile := None, s_audioSource := AUDIO_SOURCE_NONE\<rparr>"
      have "Audio_StartWav fs hal_ok name s = Some (if hal_ok then 1 else 0, ?v)"
        using True f0 Some pre by (simp add: Audio_StartWav_def player_consts Let_def wav_state_def)
      moreover have "player_inv ?v"
        using i True b q(1) u
        by (auto simp: player_inv_def buf_inv_def queue_inv_def wav_state_def)
      moreover have "queue_names ?v = queue_names s"
        using q(2) by (simp add: queue_names_def queue_length_def)
      moreover have "rx_bytes (rx ?v) = rx_bytes (rx s)" using rxb by simp
      ultimately show ?thesis by (rule that)
    qed
  qed
qed

lemma StartStream_inv:
  assumes fs: "fatfs_ok fs" and inv: "player_inv s"
  obtains r t where "Audio_StartStream fs hal_ok tick s = Some (r, t)" and "player_inv t"
    and "queue_names t = queue_names s"
proof (cases "s_isPlaying s \<noteq> 0 \<or> AudioStreamRx_Available (rx s) < AUDIO_STREAM_PREBUFFER_BYTES")
  case True
  then show ?thesis using inv by (intro that [of 0 s]) (auto simp: Audio_StartStream_def)
next
  case False
  note i = inv [unfolded player_inv_def]
  let ?s = "s\<lparr>s_audioSource := AUDIO_SOURCE_STREAM, s_bufferEvent := 0, s_wavEof := 0,
    s_stopPending := 0, s_streamStopRequested := 0, s_streamLastDataTick := tick\<rparr>"
  have "buf_inv ?s" using i by (simp add: buf_inv_def)
  from prefill_law [OF fs this] obtain m1 r1 m2 r2 u where
    u: "u = after_fill fs 0 (clear_buffers ?s) m1 r1"
    and pre: "prefill fs ?s = Some (after_fill fs 8192 u m2 r2)"
    and b: "buf_inv (after_fill fs 8192 u m2 r2)" by metis
  let ?t = "after_fill fs 8192 u m2 r2"
  have q: "queue_inv ?t" "queue_names ?t = queue_names s"
    using i by (simp_all add: u queue_inv_def queue_names_def queue_length_def)
  let ?v = "if hal_ok then ?t\<lparr>i2s_running := True, s_isPlaying := 1\<rparr>
    else ?t\<lparr>s_audioSource := AUDIO_SOURCE_NONE\<rparr>"
  have "Audio_StartStream fs hal_ok tick s = Some (if hal_ok then 1 else 0, ?v)"
    using False pre by (simp add: Audio_StartStream_def)
  moreover have "player_inv ?v"
    using i False b q(1) u by (auto simp: player_inv_def buf_inv_def queue_inv_def)
  moreover have "queue_names ?v = queue_names s"
    using q(2) by (simp add: queue_names_def queue_length_def)
  ultimately show ?thesis by (intro that)
qed

lemma PlayNext_inv:
  assumes fs: "fatfs_ok fs" and inv: "player_inv s"
  obtains t where "AudioPlayer_PlayNextFromQueue fs hal_ok s = Some t" and "player_inv t"
    and "queue_names t = (if s_isPlaying s = 0 then tl (queue_names s) else queue_names s)"
    and "rx_bytes (rx t) = rx_bytes (rx s)"
proof (cases "s_isPlaying s = 0")
  case False
  then show ?thesis using inv by (intro that [of s]) (simp_all add: AudioPlayer_PlayNextFromQueue_def)
next
  case True
  have q: "queue_inv s" using inv by (simp add: player_inv_def)
  show ?thesis
  proof (cases "queue_names s = []")
    case empty: True
    then show ?thesis using True inv Dequeue_empty [OF q]
      by (intro that [of s]) (simp_all add: AudioPlayer_PlayNextFromQueue_def)
  next
    case False
    obtain h where h: "AudioPlayer_Dequeue s = Some (Some (hd (queue_names s)), s\<lparr>s_queueHead := h\<rparr>)"
      "queue_inv (s\<lparr>s_queueHead := h\<rparr>)" "queue_names (s\<lparr>s_queueHead := h\<rparr>) = tl (queue_names s)"
      using Dequeue_law [OF q False] by blast
    have "player_inv (s\<lparr>s_queueHead := h\<rparr>)" using inv h(2) by (auto simp: player_inv_def buf_inv_def)
    with fs obtain r t where "Audio_StartWav fs hal_ok (hd (queue_names s)) (s\<lparr>s_queueHead := h\<rparr>) = Some (r, t)"
      "player_inv t" "queue_names t = queue_names (s\<lparr>s_queueHead := h\<rparr>)"
      "rx_bytes (rx t) = rx_bytes (rx (s\<lparr>s_queueHead := h\<rparr>))" by (rule StartWav_inv)
    then show ?thesis using True h
      by (intro that [of t]) (simp_all add: AudioPlayer_PlayNextFromQueue_def)
  qed
qed

section \<open>The announcement playlist\<close>

text \<open>The platform numbers with congestion 0, counted from \<open>i + 1\<close>, and the files to play.\<close>

definition zero_platforms :: "nat \<Rightarrow> u8 list \<Rightarrow> nat list" where
  "zero_platforms i cs = map fst (filter (\<lambda>(n, c). c = 0) (enumerate (i + 1) cs))"

definition guide_playlist :: "u8 list \<Rightarrow> u8 list list" where
  "guide_playlist cs =
     (if 0 \<in> set cs then [c_lit ''guide_start.wav''] @ map guide_name (zero_platforms 0 cs) @ [c_lit ''guide_end.wav'']
      else if \<forall>c \<in> set cs. c = 2 then [c_lit ''warning.wav''] else [])"

lemma length_zero_platforms: "length (zero_platforms i cs) \<le> length cs"
  by (simp add: zero_platforms_def) (metis length_enumerate length_filter_le)

lemma zero_platforms_Cons:
  "zero_platforms i (c # cs) = (if c = 0 then [i + 1] else []) @ zero_platforms (i + 1) cs"
  by (simp add: zero_platforms_def)

lemma zero_platforms_none: "0 \<notin> set cs \<Longrightarrow> zero_platforms i cs = []"
  by (induction cs arbitrary: i) (auto simp: zero_platforms_Cons, simp add: zero_platforms_def)

lemma guide_literals:
  "name_ok (c_lit ''guide_start.wav'')" "name_ok (c_lit ''guide_end.wav'')" "name_ok (c_lit ''warning.wav'')"
  by code_simp+

lemma guide_name_ok: "n \<le> 8 \<Longrightarrow> name_ok (guide_name n)"
proof -
  assume n: "n \<le> 8"
  have "name_ok (c_lit ''guide_'')" "name_ok (c_lit ''.wav'')" "length (c_lit ''guide_'') = 6"
    "length (c_lit ''.wav'') = 4" by code_simp+
  moreover have "unat (of_nat (48 + n) :: u8) = 48 + n" using n by (intro unat_of_nat_u8) simp
  then have "(of_nat (48 + n) :: u8) \<noteq> 0" by (metis add_is_0 unat_0 zero_neq_numeral)
  ultimately show "name_ok (guide_name n)" by (auto simp: name_ok_def guide_name_def)
qed

lemma Enqueue_room:
  assumes "player_inv s" and "name_ok n" and "queue_length s < 15"
  obtains r t where "AudioPlayer_Enqueue n s = Some (r, t)" and "player_inv t"
    and "queue_names t = queue_names s @ [n]" and "s_isPlaying t = s_isPlaying s"
proof -
  have "0 \<notin> set n" "take 31 n = n" using assms(2) by (simp_all add: name_ok_def)
  with Enqueue_player [OF assms(1) this(1)] show ?thesis using that assms(3) by metis
qed

lemma guide_loop_law:
  assumes "player_inv s" and "i + length cs \<le> 8"
    and "queue_length s + length (zero_platforms i cs) + (if hz \<or> 0 \<notin> set cs then 0 else 1) \<le> 15"
  shows "\<exists>t. guide_loop cs i (hz, a2) s = Some ((hz \<or> 0 \<in> set cs, a2 \<and> (\<forall>c \<in> set cs. c = 2)), t) \<and>
    player_inv t \<and> s_isPlaying t = s_isPlaying s \<and>
    queue_names t = queue_names s @ (if \<not> hz \<and> 0 \<in> set cs then [c_lit ''guide_start.wav''] else []) @
      map guide_name (zero_platforms i cs)"
  using assms
proof (induction cs arbitrary: i hz a2 s)
  case Nil
  then show ?case by (simp add: zero_platforms_def)
next
  case (Cons c cs)
  note zp = zero_platforms_Cons
  show ?case
  proof (cases "c = 0")
    case False
    with Cons.IH [of s "i + 1" hz "a2 \<and> c = 2"] Cons.prems show ?thesis by (auto simp: zp)
  next
    case True
    have "length (zero_platforms i (c # cs)) = 1 + length (zero_platforms (i + 1) cs)"
      using True unfolding zp by simp
    then have room: "queue_length s + 1 + length (zero_platforms (i + 1) cs) + (if hz then 0 else 1) \<le> 15"
      using Cons.prems(3) True by (auto split: if_splits)
    obtain u where u: "(if \<not> hz then map_option snd (AudioPlayer_Enqueue (c_lit ''guide_start.wav'') s) else Some s)
        = Some u" "player_inv u" "s_isPlaying u = s_isPlaying s"
      "queue_names u = queue_names s @ (if hz then [] else [c_lit ''guide_start.wav''])"
    proof (cases hz)
      case False
      have "queue_length s < 15" using room by simp
      from Enqueue_room [OF Cons.prems(1) guide_literals(1) this] that False show ?thesis by fastforce
    qed (use Cons.prems(1) that in auto)
    then have lu: "queue_length u = queue_length s + (if hz then 0 else 1)"
      using length_queue_names [of u] by (cases hz) auto
    have "name_ok (guide_name (i + 1))" using Cons.prems(2) by (intro guide_name_ok) simp
    moreover have "queue_length u < 15" using room lu by (simp split: if_splits)
    ultimately obtain r v where v: "AudioPlayer_Enqueue (guide_name (i + 1)) u = Some (r, v)" "player_inv v"
      "queue_names v = queue_names u @ [guide_name (i + 1)]" "s_isPlaying v = s_isPlaying u"
      using u(2) Enqueue_room by blast
    then have lv: "queue_length v = queue_length u + 1" using length_queue_names [of v] by simp
    have "queue_length v + length (zero_platforms (i + 1) cs) + (if True \<or> 0 \<notin> set cs then 0 else 1) \<le> 15"
      using room lu lv by (simp split: if_splits)
    with Cons.IH [OF v(2), of "i + 1" True "False"] Cons.prems(2) obtain t where
      "guide_loop cs (i + 1) (True, False) v = Some ((True, False), t)" "player_inv t"
      "s_isPlaying t = s_isPlaying v" "queue_names t = queue_names v @ map guide_name (zero_platforms (i + 1) cs)"
      by auto
    then show ?thesis using True u v by (auto simp: zp)
  qed
qed

lemma Guide_law:
  assumes fs: "fatfs_ok fs" and inv: "player_inv s" and cs: "length cs = 8"
    and room: "queue_length s + length (guide_playlist cs) \<le> 15"
  obtains t where "Audio_Guide fs hal_ok cs s = Some t" and "player_inv t"
    and "queue_names t = (if s_isPlaying s = 0 then tl (queue_names s @ guide_playlist cs)
      else queue_names s @ guide_playlist cs)"
proof -
  let ?z = "0 \<in> set cs" and ?two = "\<forall>c \<in> set cs. c = 2"
  let ?last = "if ?z then [c_lit ''guide_end.wav''] else if ?two then [c_lit ''warning.wav''] else []"
  let ?most = "(if ?z then [c_lit ''guide_start.wav''] else []) @ map guide_name (zero_platforms 0 cs)"
  have zp: "\<not> ?z \<Longrightarrow> zero_platforms 0 cs = []"
    by (rule zero_platforms_none)
  then have list: "guide_playlist cs = ?most @ ?last" by (simp add: guide_playlist_def)
  have "0 + length cs \<le> 8"
    "queue_length s + length (zero_platforms 0 cs) + (if False \<or> 0 \<notin> set cs then 0 else 1) \<le> 15"
    using cs room list by auto
  from guide_loop_law [OF inv this, of True] obtain u where
    u: "guide_loop cs 0 (False, True) s = Some ((?z, ?two), u)" "player_inv u" "s_isPlaying u = s_isPlaying s"
      "queue_names u = queue_names s @ ?most" by auto
  have len: "queue_length u + length ?last \<le> 15"
    using room list arg_cong [OF u(4), of length] by simp
  obtain v where v: "(if ?z then map_option snd (AudioPlayer_Enqueue (c_lit ''guide_end.wav'') u)
      else if ?two then map_option snd (AudioPlayer_Enqueue (c_lit ''warning.wav'') u) else Some u) = Some v"
    "player_inv v" "s_isPlaying v = s_isPlaying u" "queue_names v = queue_names u @ ?last"
  proof (cases "?last = []")
    case True
    then show ?thesis using u(2) that by (auto split: if_splits)
  next
    case False
    then have "queue_length u < 15" using len by (auto split: if_splits)
    from Enqueue_room [OF u(2) guide_literals(2) this] obtain r1 v1 where
      1: "AudioPlayer_Enqueue (c_lit ''guide_end.wav'') u = Some (r1, v1)" "player_inv v1"
        "queue_names v1 = queue_names u @ [c_lit ''guide_end.wav'']" "s_isPlaying v1 = s_isPlaying u" .
    from Enqueue_room [OF u(2) guide_literals(3) \<open>queue_length u < 15\<close>] obtain r2 v2 where
      2: "AudioPlayer_Enqueue (c_lit ''warning.wav'') u = Some (r2, v2)" "player_inv v2"
        "queue_names v2 = queue_names u @ [c_lit ''warning.wav'']" "s_isPlaying v2 = s_isPlaying u" .
    show ?thesis
    proof (cases ?z)
      case True
      with 1 show ?thesis by (intro that [of v1]) simp_all
    next
      case nz: False
      with False have ?two by (simp split: if_splits)
      with nz 2 show ?thesis by (intro that [of v2]) simp_all
    qed
  qed
  obtain t where "AudioPlayer_PlayNextFromQueue fs hal_ok v = Some t" "player_inv t"
    "queue_names t = (if s_isPlaying v = 0 then tl (queue_names v) else queue_names v)"
    using fs v(2) by (rule PlayNext_inv)
  then show ?thesis using u v cs list
    by (intro that [of t]) (simp_all add: Audio_Guide_def)
qed

text \<open>With a queue of any fill, the announcement still runs to its end.\<close>

lemma guide_loop_inv:
  "player_inv s \<Longrightarrow> i + length cs \<le> 8 \<Longrightarrow>
   \<exists>flags t. guide_loop cs i fl s = Some (flags, t) \<and> player_inv t"
proof (induction cs arbitrary: i fl s)
  case Nil
  then show ?case by (cases fl) simp
next
  case (Cons c cs)
  obtain hz a2 where fl: "fl = (hz, a2)" by (cases fl)
  show ?case
  proof (cases "c = 0")
    case False
    then show ?thesis using Cons.IH [of s "i + 1"] Cons.prems by (simp add: fl)
  next
    case True
    obtain u where u: "(if \<not> hz then map_option snd (AudioPlayer_Enqueue (c_lit ''guide_start.wav'') s) else Some s)
        = Some u" "player_inv u"
    proof (cases hz)
      case False
      from guide_literals(1) have "0 \<notin> set (c_lit ''guide_start.wav'')" by (simp add: name_ok_def)
      from Enqueue_player [OF Cons.prems(1) this] that False show ?thesis by fastforce
    qed (use Cons.prems(1) that in auto)
    have "0 \<notin> set (guide_name (i + 1))" using guide_name_ok [of "i + 1"] Cons.prems(2) by (simp add: name_ok_def)
    from Enqueue_player [OF u(2) this] obtain r v where
      "AudioPlayer_Enqueue (guide_name (i + 1)) u = Some (r, v)" "player_inv v" by blast
    then show ?thesis using Cons.IH [of v "i + 1"] Cons.prems True u by (simp add: fl)
  qed
qed

lemma Guide_inv:
  assumes fs: "fatfs_ok fs" and inv: "player_inv s" and cs: "8 \<le> length cs"
  obtains t where "Audio_Guide fs hal_ok cs s = Some t" and "player_inv t"
proof -
  obtain hz a2 u where u: "guide_loop (take 8 cs) 0 (False, True) s = Some ((hz, a2), u)" "player_inv u"
    using guide_loop_inv [OF inv, of 0 "take 8 cs" "(False, True)"] by auto
  have "0 \<notin> set (c_lit ''guide_end.wav'')" "0 \<notin> set (c_lit ''warning.wav'')"
    using guide_literals by (simp_all add: name_ok_def)
  then obtain r1 v1 r2 v2 where "AudioPlayer_Enqueue (c_lit ''guide_end.wav'') u = Some (r1, v1)" "player_inv v1"
    "AudioPlayer_Enqueue (c_lit ''warning.wav'') u = Some (r2, v2)" "player_inv v2"
    using Enqueue_player [OF u(2)] by metis
  then obtain v where v: "(if hz then map_option snd (AudioPlayer_Enqueue (c_lit ''guide_end.wav'') u)
      else if a2 then map_option snd (AudioPlayer_Enqueue (c_lit ''warning.wav'') u) else Some u) = Some v"
    "player_inv v" using u(2) that by (cases hz; cases a2) simp_all
  from PlayNext_inv [OF fs v(2)] show ?thesis using that u v cs by (simp add: Audio_Guide_def) metis
qed

text \<open>The main-loop step.\<close>

lemma serve_half_inv:
  assumes fs: "fatfs_ok fs" and inv: "player_inv s" and off: "off \<in> {0, 8192}"
  obtains t where "serve_half fs ev off s = Some t" and "player_inv t"
    and "queue_names t = queue_names s" and "s_audioSource t = s_audioSource s"
    and "s_isPlaying t = s_isPlaying s"
proof (cases "s_bufferEvent s AND ev = 0")
  case True
  then show ?thesis using inv by (intro that [of s]) (simp_all add: serve_half_def)
next
  case False
  let ?s = "s\<lparr>s_bufferEvent := s_bufferEvent s AND NOT ev\<rparr>"
  have s: "player_inv ?s" "queue_names ?s = queue_names s"
    using inv by (simp_all add: queue_names_def queue_length_def)
  then have "buf_inv ?s" by (simp add: player_inv_def)
  with fs obtain m r where f: "AudioPlayer_FillHalfBuffer fs off ?s = Some (after_fill fs off ?s m r)"
    "buf_inv (after_fill fs off ?s m r)" using off by (rule Fill_law)
  have "player_inv (after_fill fs off ?s m r)" using player_inv_after_fill [OF s(1) f(2)] .
  moreover have "queue_names (after_fill fs off ?s m r) = queue_names s" using s(2) by simp
  ultimately show ?thesis using f(1) False
    by (intro that [of "if s_audioSource s = AUDIO_SOURCE_WAV \<and> eof_after fs ?s \<noteq> 0
          then (after_fill fs off ?s m r)\<lparr>s_stopPending := 1\<rparr> else after_fill fs off ?s m r"])
      (auto simp: serve_half_def queue_names_def queue_length_def)
qed

lemma Stop_names [simp]: "queue_names (Audio_Stop s) = queue_names s"
  by (simp add: Audio_Stop_def queue_names_def queue_length_def Let_def)

lemma end_wav_inv: "player_inv s \<Longrightarrow> player_inv (end_wav s)"
  by (simp add: end_wav_def Audio_Stop_inv)

lemma end_stream_inv: "player_inv s \<Longrightarrow> player_inv (end_stream now s)"
  by (simp add: end_stream_def Audio_Stop_inv)

lemma process_playing_inv:
  assumes fs: "fatfs_ok fs" and inv: "player_inv s"
  obtains t where "process_playing fs now s = Some t" and "player_inv t"
proof -
  from serve_half_inv [OF fs inv] obtain u where u: "serve_half fs 1 0 s = Some u" "player_inv u" by blast
  from serve_half_inv [OF fs u(2)] obtain v where v: "serve_half fs 2 8192 u = Some v" "player_inv v" by blast
  show ?thesis
    by (rule that [of "end_stream now (end_wav v)"])
      (simp_all add: process_playing_def player_consts u v end_wav_inv end_stream_inv)
qed

lemma process_stream_rx_inv:
  assumes inv: "player_inv s"
  obtains t where "process_stream_rx now s = Some t" and "player_inv t"
proof -
  have "rx_inv (rx s)" using inv by (simp add: player_inv_def buf_inv_def)
  then obtain r where r: "AudioStreamRx_Process (rx s) = Some r" "rx_inv r"
    by (cases "AudioStreamRx_TakeReadyBlock (rx s)") (auto simp: Process_idle elim: Process_block)
  then have "player_inv (s\<lparr>rx := r\<rparr>)" using inv by (auto simp: player_inv_def buf_inv_def queue_inv_def)
  then show ?thesis
    by (intro that [of "if AudioStreamRx_Available r > 0
        then s\<lparr>rx := r, s_streamLastDataTick := now\<rparr> else s\<lparr>rx := r\<rparr>"])
      (simp_all add: process_stream_rx_def r(1) Let_def)
qed

lemma Process_inv:
  assumes fs: "fatfs_ok fs" and inv: "player_inv s"
  obtains t where "Audio_Process fs hal_ok t1 t2 t3 s = Some t" and "player_inv t"
proof -
  obtain u where u: "process_stream_rx t1 s = Some u" "player_inv u"
    using inv by (rule process_stream_rx_inv)
  obtain v where v: "(if s_isPlaying u \<noteq> 0 then process_playing fs t2 u else Some u) = Some v" "player_inv v"
    using process_playing_inv [OF fs u(2)] u(2) by (metis (full_types))
  obtain a where a: "AudioPlayer_PlayNextFromQueue fs hal_ok v = Some a" "player_inv a"
    using PlayNext_inv [OF fs v(2)] by blast
  obtain q b where b: "Audio_StartStream fs hal_ok t3 v = Some (q, b)" "player_inv b"
    using StartStream_inv [OF fs v(2)] by blast
  show ?thesis
    using that [of "if s_isPlaying v = 0 then (if AudioPlayer_IsQueueEmpty v then b else a) else v"]
      u v a b by (simp add: Audio_Process_def)
qed

section \<open>The player as a step relation\<close>

text \<open>
  What can happen after the initialisation: the main loop runs \<open>Audio_Process\<close>, a command or
  the display starts or stops something, an interrupt arrives.
\<close>

inductive player_step :: "'f fatfs \<Rightarrow> 'f audio \<Rightarrow> 'f audio \<Rightarrow> bool" for fs where
  process: "Audio_Process fs hal_ok t1 t2 t3 s = Some t \<Longrightarrow> player_step fs s t"
| guide: "Audio_Guide fs hal_ok cs s = Some t \<Longrightarrow> player_step fs s t"
| start_wav: "Audio_StartWav fs hal_ok name s = Some (r, t) \<Longrightarrow> player_step fs s t"
| start_stream: "Audio_StartStream fs hal_ok tick s = Some (r, t) \<Longrightarrow> player_step fs s t"
| stop: "player_step fs s (Audio_Stop s)"
| request_stop: "player_step fs s (Audio_RequestStopStream s)"
| tx_half: "player_step fs s (HAL_I2S_TxHalfCpltCallback s)"
| tx_full: "player_step fs s (HAL_I2S_TxCpltCallback s)"
| rx_block: "length blk = 1920 \<Longrightarrow> player_step fs s (s\<lparr>rx := dma_complete blk hal_ok (rx s)\<rparr>)"
| rx_error: "player_step fs s (s\<lparr>rx := HAL_SPI_ErrorCallback hal_ok (rx s)\<rparr>)"

text \<open>The boot sequence of \<open>main\<close>: both initialisations, then the start of the reception.\<close>

definition audio_boot :: "bool \<Rightarrow> 'f audio" where
  "audio_boot hal_ok = (let s = Audio_Init audio_power_on in s\<lparr>rx := AudioStreamRx_Start hal_ok (rx s)\<rparr>)"

text \<open>The card may be another one at every step; its file system keeps its contract.\<close>

definition player_start :: "'f audio \<Rightarrow> bool" where
  "player_start s \<longleftrightarrow> (\<exists>hal_ok. s = audio_boot hal_ok)"

definition player_move :: "'f audio \<Rightarrow> 'f audio \<Rightarrow> bool" where
  "player_move s t \<longleftrightarrow> (\<exists>fs. fatfs_ok fs \<and> player_step fs s t)"

abbreviation player_reachable :: "'f audio \<Rightarrow> bool" where
  "player_reachable \<equiv> reached player_start player_move"

inductive_cases player_stepE: "player_step fs s t"

lemma player_rx: "player_inv s \<Longrightarrow> rx_inv r \<Longrightarrow> player_inv (s\<lparr>rx := r\<rparr>)"
  by (auto simp: player_inv_def buf_inv_def queue_inv_def)

lemma Guide_reads: "Audio_Guide fs hal_ok cs s = Some t \<Longrightarrow> 8 \<le> length cs"
  by (simp add: Audio_Guide_def split: if_splits)

lemma player_step_inv:
  assumes "player_step fs s t" and fs: "fatfs_ok fs" and inv: "player_inv s"
  shows "player_inv t"
proof -
  have "rx_inv (rx s)" using inv by (simp add: player_inv_def buf_inv_def)
  from assms(1) show ?thesis
  proof cases
    case process then show ?thesis using Process_inv [OF fs inv] by (metis option.inject)
  next
    case guide then show ?thesis using Guide_inv [OF fs inv Guide_reads] by (metis option.inject)
  next
    case start_wav then show ?thesis using StartWav_inv [OF fs inv] by (metis option.inject prod.inject)
  next
    case start_stream then show ?thesis using StartStream_inv [OF fs inv] by (metis option.inject prod.inject)
  next
    case rx_block
    then show ?thesis using inv \<open>rx_inv (rx s)\<close> by (simp add: player_rx dma_complete_inv)
  next
    case rx_error
    then show ?thesis using inv \<open>rx_inv (rx s)\<close> by (simp add: player_rx ErrorCallback_inv)
  qed (use inv in \<open>simp_all add: Audio_Stop_inv Audio_RequestStopStream_def
    HAL_I2S_TxHalfCpltCallback_def HAL_I2S_TxCpltCallback_def\<close>)
qed

lemma Init_rx: "rx (Audio_Init audio_power_on) = AudioStreamRx_Init rx_power_on"
  by (simp add: Audio_Init_def AudioPlayer_ClearQueue_def clear_buffers_def audio_power_on_def Let_def)

lemma player_boot_inv: "player_inv (audio_boot hal_ok)"
proof -
  have "dma_target rx_power_on = None" by (simp add: rx_power_on_def)
  then have "rx_inv (AudioStreamRx_Init rx_power_on)" "dma_target (AudioStreamRx_Init rx_power_on) = None"
    by (rule Init_inv, simp add: AudioStreamRx_Init_def)
  then show ?thesis unfolding audio_boot_def Let_def Init_rx
    by (intro player_rx power_on_inv Start_inv)
qed

interpretation player_machine: machine player_start player_move player_inv
  by unfold_locales (auto simp: player_start_def player_move_def player_boot_inv player_step_inv)

lemma player_reachable_init: "player_reachable (audio_boot hal_ok)"
  by (rule reached.start) (auto simp: player_start_def)

section \<open>Playing a file to its end\<close>

text \<open>
  FatFs on a file that is read from front to back: \<open>view f\<close> is what handle \<open>f\<close> has still to
  deliver, and a read delivers its first bytes and moves on.
\<close>

definition fatfs_view :: "'f fatfs \<Rightarrow> ('f \<Rightarrow> u8 list) \<Rightarrow> bool" where
  "fatfs_view fs view \<longleftrightarrow> (\<forall>f n. fst (f_read fs f n) = take n (view f) \<and>
     view (snd (f_read fs f n)) = drop n (view f))"

lemma fatfs_view_ok: "fatfs_view fs view \<Longrightarrow> fatfs_ok fs"
  by (simp add: fatfs_view_def fatfs_ok_def)

definition chunk :: "u8 list \<Rightarrow> nat \<Rightarrow> u8 list" where
  "chunk bs k = take 8192 (drop (8192 * k) bs)"

text \<open>
  The I2S transfer sends the halves in turn; after each the interrupt and the main loop run.
  The result lists the halves that were sent completely.
\<close>

definition half_off :: "nat \<Rightarrow> nat" where
  "half_off k = (if even k then 0 else 8192)"

definition i2s_half :: "'f audio \<Rightarrow> nat \<Rightarrow> u16 list" where
  "i2s_half s k = take 8192 (drop (half_off k) (s_i2sBuf s))"

definition i2s_interrupt :: "nat \<Rightarrow> 'f audio \<Rightarrow> 'f audio" where
  "i2s_interrupt k s = (if even k then HAL_I2S_TxHalfCpltCallback s else HAL_I2S_TxCpltCallback s)"

fun i2s_rounds :: "'f fatfs \<Rightarrow> nat \<Rightarrow> nat \<Rightarrow> 'f audio \<Rightarrow> (u16 list list \<times> 'f audio) option" where
  "i2s_rounds fs k 0 s = Some ([], s)"
| "i2s_rounds fs k (Suc n) s =
     (if s_isPlaying s = 0 then Some ([], s)
      else do {
        let h = i2s_half s k;
        s \<leftarrow> Audio_Process fs True 0 0 0 (i2s_interrupt k s);
        (hs, s) \<leftarrow> i2s_rounds fs (Suc k) n s;
        Some (h # hs, s)
      })"

text \<open>No block waits and the ring is empty, so the stream component has nothing to do.\<close>

definition rx_quiet :: "stream_rx \<Rightarrow> bool" where
  "rx_quiet r \<longleftrightarrow> AudioStreamRx_TakeReadyBlock r = None \<and> s_count r = 0"

lemma quiet_process: "rx_quiet (rx s) \<Longrightarrow> process_stream_rx now s = Some s"
  by (simp add: process_stream_rx_def rx_quiet_def Process_idle AudioStreamRx_Available_def)

lemma quiet_StartStream:
  "rx_quiet (rx s) \<Longrightarrow> Audio_StartStream fs hal_ok tick s = Some (0, s)"
  by (simp add: Audio_StartStream_def rx_quiet_def AudioStreamRx_Available_def player_consts)

lemma half_after_fill:
  assumes "buf_inv s" and "fatfs_ok fs"
  shows "i2s_half (after_fill fs (half_off k) s m r) k = half_of (delivered fs s)"
    and "i2s_half (after_fill fs (half_off k) s m r) (Suc k) = i2s_half s (Suc k)"
  using assms length_half_of [OF length_delivered [OF assms(2)]]
  by (auto simp: i2s_half_def half_off_def after_fill_def buf_inv_def)

text \<open>The part of a pass that serves the half just sent.\<close>

lemma serve_pass:
  assumes flags: "s_bufferEvent s = 0" "s_bufferEvent u = 0"
    and f: "AudioPlayer_FillHalfBuffer fs (half_off k) s = Some u"
  defines "t \<equiv> if s_audioSource u = AUDIO_SOURCE_WAV \<and> s_wavEof u \<noteq> 0 then u\<lparr>s_stopPending := 1\<rparr> else u"
  shows "process_playing fs now (i2s_interrupt k s) = Some (end_stream now (end_wav t))"
proof -
  let ?ev = "if even k then 1 else 2 :: u8"
  have ev: "?ev AND ?ev \<noteq> 0" "?ev AND NOT ?ev = 0" by simp_all
  have s0: "s\<lparr>s_bufferEvent := 0\<rparr> = s" using flags by simp
  have i: "i2s_interrupt k s = s\<lparr>s_bufferEvent := ?ev\<rparr>"
    using flags by (simp add: i2s_interrupt_def HAL_I2S_TxHalfCpltCallback_def HAL_I2S_TxCpltCallback_def)
  have serve: "serve_half fs ?ev (half_off k) (i2s_interrupt k s) = Some t"
    unfolding i t_def using f s0 ev by (simp add: serve_half_def)
  have skip: "serve_half fs e off t = Some t" "even k \<or> e = 1 \<Longrightarrow> \<not> even k \<or> e = 2 \<Longrightarrow>
      serve_half fs e off' (i2s_interrupt k s) = Some (i2s_interrupt k s)" for e off off'
    using flags unfolding i t_def by (auto simp: serve_half_def)
  show ?thesis
  proof (cases "even k")
    case True
    then show ?thesis using serve skip(1) [of 2 8192]
      by (simp add: process_playing_def player_consts half_off_def)
  next
    case False
    then show ?thesis using serve skip(2) [of 1 0]
      by (simp add: process_playing_def player_consts half_off_def)
  qed
qed

lemma wav_pass:
  assumes fs: "fatfs_ok fs" and inv: "player_inv s" and src: "s_audioSource s = AUDIO_SOURCE_WAV"
    and flags: "s_bufferEvent s = 0" "s_stopPending s = 0"
  obtains m where "process_playing fs now (i2s_interrupt k s)
      = Some (if eof_after fs s \<noteq> 0 then Audio_Stop ((after_fill fs (half_off k) s m (rx s))\<lparr>s_stopPending := 1\<rparr>)
              else after_fill fs (half_off k) s m (rx s))"
    and "buf_inv (after_fill fs (half_off k) s m (rx s))"
proof -
  have b: "buf_inv s" using inv by (simp add: player_inv_def)
  have off: "half_off k \<in> {0, 8192}" by (simp add: half_off_def)
  from fs b off obtain m r where
    f: "AudioPlayer_FillHalfBuffer fs (half_off k) s = Some (after_fill fs (half_off k) s m r)"
    "buf_inv (after_fill fs (half_off k) s m r)" "r = rx s"
    using Fill_law src by (metis AudioSource_t.distinct(5))
  let ?u = "after_fill fs (half_off k) s m (rx s)"
  let ?t = "if eof_after fs s \<noteq> 0 then ?u\<lparr>s_stopPending := 1\<rparr> else ?u"
  have "process_playing fs now (i2s_interrupt k s) = Some (end_stream now (end_wav ?t))"
    using serve_pass [of s ?u fs k now] f(1,3) flags src by simp
  moreover have "end_wav ?t = (if eof_after fs s \<noteq> 0 then Audio_Stop ?t else ?t)"
    using src flags by (simp add: end_wav_def)
  moreover have "end_stream now (Audio_Stop ?t) = Audio_Stop ?t" if "eof_after fs s \<noteq> 0"
    using src inv by (auto simp: end_stream_def Audio_Stop_def player_inv_def Let_def)
  moreover have "end_stream now ?t = ?t" using src by (simp add: end_stream_def)
  ultimately show ?thesis using f(2,3) by (intro that [of m]) (auto split: if_splits)
qed

text \<open>
  The state before round \<open>k\<close> of a file with contents \<open>bs\<close>: the half about to be sent holds
  chunk \<open>k\<close>, the other one chunk \<open>k + 1\<close>, and the file stands after them.
\<close>

definition wav_at :: "('f \<Rightarrow> u8 list) \<Rightarrow> u8 list \<Rightarrow> nat \<Rightarrow> 'f audio \<Rightarrow> bool" where
  "wav_at view bs k s \<longleftrightarrow> player_inv s \<and> s_isPlaying s = 1 \<and> s_audioSource s = AUDIO_SOURCE_WAV \<and>
     queue_names s = [] \<and> rx_quiet (rx s) \<and> s_bufferEvent s = 0 \<and> s_stopPending s = 0 \<and>
     s_wavEof s = (if length bs < 8192 * (k + 2) then 1 else 0) \<and>
     map_option view (s_wavFile s) = Some (drop (8192 * (k + 2)) bs) \<and>
     i2s_half s k = half_of (chunk bs k) \<and> i2s_half s (Suc k) = half_of (chunk bs (Suc k))"

lemma wav_at_delivered:
  assumes "fatfs_view fs view" and "wav_at view bs k s"
  shows "delivered fs s = chunk bs (k + 2)"
    and "eof_after fs s = (if length bs < 8192 * (k + 3) then 1 else 0)"
    and "eof_after fs s = 0 \<Longrightarrow> map_option view (file_after fs s) = Some (drop (8192 * (k + 3)) bs)"
proof -
  from assms(2) obtain f where f: "s_wavFile s = Some f" "view f = drop (8192 * (k + 2)) bs"
    and w: "s_audioSource s = AUDIO_SOURCE_WAV" "s_wavEof s = (if length bs < 8192 * (k + 2) then 1 else 0)"
    by (auto simp: wav_at_def)
  from assms(1) have r: "fst (f_read fs f 8192) = take 8192 (drop (8192 * (k + 2)) bs)"
    "view (snd (f_read fs f 8192)) = drop 8192 (drop (8192 * (k + 2)) bs)"
    by (simp_all add: fatfs_view_def f(2))
  show d: "delivered fs s = chunk bs (k + 2)"
    using w f r by (simp add: delivered_def chunk_def)
  show e: "eof_after fs s = (if length bs < 8192 * (k + 3) then 1 else 0)"
    unfolding eof_after_def d using w by (auto simp: chunk_def)
  assume "eof_after fs s = 0"
  then have "s_wavEof s = 0" using w e by (auto split: if_splits)
  then show "map_option view (file_after fs s) = Some (drop (8192 * (k + 3)) bs)"
    using w f r by (simp add: file_after_def add.commute)
qed

lemma wav_round:
  assumes fs: "fatfs_view fs view" and at: "wav_at view bs k s"
  shows "\<exists>t. Audio_Process fs True 0 0 0 (i2s_interrupt k s) = Some t \<and>
    (if length bs < 8192 * (k + 3) then s_isPlaying t = 0 else wav_at view bs (Suc k) t)"
proof -
  note ok = fatfs_view_ok [OF fs] and a = at [unfolded wav_at_def] and d = wav_at_delivered [OF fs at]
  from a have inv: "player_inv s" and q: "rx_quiet (rx s)" "queue_names s = []" by simp_all
  from wav_pass [OF ok inv] a obtain m where
    pass: "process_playing fs 0 (i2s_interrupt k s)
      = Some (if eof_after fs s \<noteq> 0 then Audio_Stop ((after_fill fs (half_off k) s m (rx s))\<lparr>s_stopPending := 1\<rparr>)
              else after_fill fs (half_off k) s m (rx s))"
    and buf: "buf_inv (after_fill fs (half_off k) s m (rx s))" by metis
  have i: "rx (i2s_interrupt k s) = rx s" "s_isPlaying (i2s_interrupt k s) = 1"
    using a by (simp_all add: i2s_interrupt_def HAL_I2S_TxHalfCpltCallback_def HAL_I2S_TxCpltCallback_def)
  let ?u = "after_fill fs (half_off k) s m (rx s)"
  have u: "player_inv ?u" using inv buf by (rule player_inv_after_fill)
  show ?thesis
  proof (cases "length bs < 8192 * (k + 3)")
    case True
    let ?t = "Audio_Stop (?u\<lparr>s_stopPending := 1\<rparr>)"
    have "player_inv ?t" using u by (simp add: Audio_Stop_inv)
    then have "queue_inv ?t" by (simp add: player_inv_def)
    have "queue_names (?u\<lparr>s_stopPending := 1\<rparr>) = queue_names ?u"
      by (simp add: queue_names_def queue_length_def)
    then have names: "queue_names ?t = []" using q(2) by simp
    have "s_isPlaying ?t = 0" "rx ?t = rx s" using a by (simp_all add: Audio_Stop_def Let_def)
    moreover have "AudioPlayer_IsQueueEmpty ?t"
      using names length_queue_names [of ?t] by (simp add: empty_iff [OF \<open>queue_inv ?t\<close>])
    ultimately show ?thesis
      using True pass d(2) q i quiet_process [of "i2s_interrupt k s"] quiet_StartStream [of ?t]
      by (simp add: Audio_Process_def)
  next
    case False
    then have e: "eof_after fs s = 0" using d(2) by simp
    have "Audio_Process fs True 0 0 0 (i2s_interrupt k s) = Some ?u"
      using e pass q i quiet_process [of "i2s_interrupt k s"] a by (simp add: Audio_Process_def)
    moreover have "wav_at view bs (Suc k) ?u"
      using a u e False d q half_after_fill [OF _ ok, of s k m "rx s"] inv
      by (simp add: wav_at_def player_inv_def add.commute)
        (simp add: i2s_half_def half_off_def)
    ultimately show ?thesis using False by simp
  qed
qed

lemma rounds_from:
  assumes fs: "fatfs_view fs view"
  shows "wav_at view bs k s \<Longrightarrow> length bs div 8192 - (k + 2) < n \<Longrightarrow>
    \<exists>t. i2s_rounds fs k n s
      = Some (map (\<lambda>i. half_of (chunk bs i)) [k..<k + 1 + (length bs div 8192 - (k + 2))], t) \<and>
    s_isPlaying t = 0"
proof (induction n arbitrary: k s)
  case 0
  then show ?case by simp
next
  case (Suc n)
  from Suc.prems(1) have p: "s_isPlaying s \<noteq> 0" "i2s_half s k = half_of (chunk bs k)"
    by (simp_all add: wav_at_def)
  from wav_round [OF fs Suc.prems(1)] obtain t where
    t: "Audio_Process fs True 0 0 0 (i2s_interrupt k s) = Some t"
    "if length bs < 8192 * (k + 3) then s_isPlaying t = 0 else wav_at view bs (Suc k) t" by blast
  show ?case
  proof (cases "length bs < 8192 * (k + 3)")
    case True
    then have "length bs div 8192 - (k + 2) = 0" by simp
    moreover have "i2s_rounds fs (Suc k) n t = Some ([], t)" using True t(2) by (cases n) simp_all
    ultimately show ?thesis using True p t by simp
  next
    case False
    then have ge: "k + 3 \<le> length bs div 8192" by simp
    then have "length bs div 8192 - (Suc k + 2) < n" using Suc.prems(2) by simp
    with Suc.IH [of "Suc k" t] False t(2) obtain u where
      u: "i2s_rounds fs (Suc k) n t = Some (map (\<lambda>i. half_of (chunk bs i))
        [Suc k..<Suc k + 1 + (length bs div 8192 - (Suc k + 2))], u)" "s_isPlaying u = 0" by auto
    define m where "m = k + 1 + (length bs div 8192 - (k + 2))"
    have "Suc k + 1 + (length bs div 8192 - (Suc k + 2)) = m" using ge by (simp add: m_def)
    then have "i2s_rounds fs (Suc k) n t = Some (map (\<lambda>i. half_of (chunk bs i)) [Suc k..<m], u)"
      using u(1) by simp
    moreover have "[k..<m] = k # [Suc k..<m]" by (simp add: upt_conv_Cons m_def)
    ultimately show ?thesis using u(2) p t(1) unfolding m_def [symmetric] by simp
  qed
qed

lemma StartWav_at:
  assumes fs: "fatfs_view fs view" and inv: "player_inv s" and idle: "s_isPlaying s = 0"
    and q: "queue_names s = []" "rx_quiet (rx s)"
    and open_ok: "f_open fs name = Some f0" "f_lseek fs f0 44 = Some f"
  obtains t where "Audio_StartWav fs True name s = Some (1, t)" and "wav_at view (view f) 0 t"
proof -
  note ok = fatfs_view_ok [OF fs] and i = inv [unfolded player_inv_def]
  let ?s = "wav_state f s" and ?bs = "view f"
  have b: "buf_inv ?s" using i by (simp add: buf_inv_def wav_state_def)
  have bc: "buf_inv (clear_buffers ?s)" using b by (simp add: buf_inv_def clear_buffers_def player_consts)
  have w: "s_audioSource ?s = AUDIO_SOURCE_WAV" "s_wavEof ?s = 0" "s_wavFile ?s = Some f"
    "rx ?s = rx s" "s_bufferEvent ?s = 0" "s_stopPending ?s = 0" by (simp_all add: wav_state_def)
  have rd: "fst (f_read fs g 8192) = take 8192 (view g)" "view (snd (f_read fs g 8192)) = drop 8192 (view g)"
    for g using fs by (simp_all add: fatfs_view_def)
  have d0: "delivered fs (clear_buffers ?s) = chunk ?bs 0"
    using w rd by (simp add: delivered_def chunk_def)
  obtain m1 r1 where f1: "AudioPlayer_FillHalfBuffer fs 0 (clear_buffers ?s)
      = Some (after_fill fs 0 (clear_buffers ?s) m1 r1)" "buf_inv (after_fill fs 0 (clear_buffers ?s) m1 r1)"
    "s_audioSource (clear_buffers ?s) \<noteq> AUDIO_SOURCE_STREAM \<Longrightarrow> r1 = rx (clear_buffers ?s)"
    using Fill_law [OF ok bc, of 0] by (metis insertI1)
  let ?u = "after_fill fs 0 (clear_buffers ?s) m1 r1"
  have u: "s_wavEof ?u = (if length ?bs < 8192 then 1 else 0)"
    "s_wavFile ?u = Some (snd (f_read fs f 8192))" "r1 = rx s" "s_audioSource ?u = AUDIO_SOURCE_WAV"
    using w d0 f1(3) by (auto simp: eof_after_def file_after_def chunk_def)
  have d1: "delivered fs ?u = chunk ?bs 1"
    using u rd [of "snd (f_read fs f 8192)"] rd(2) [of f] by (simp add: delivered_def chunk_def)
  obtain m2 r2 where f2: "AudioPlayer_FillHalfBuffer fs 8192 ?u = Some (after_fill fs 8192 ?u m2 r2)"
    "buf_inv (after_fill fs 8192 ?u m2 r2)" "s_audioSource ?u \<noteq> AUDIO_SOURCE_STREAM \<Longrightarrow> r2 = rx ?u"
    using Fill_law [OF ok f1(2), of 8192] by (metis insertI1 insertI2)
  let ?v = "after_fill fs 8192 ?u m2 r2"
  have v: "s_wavEof ?v = (if length ?bs < 16384 then 1 else 0)" "r2 = rx s"
    "map_option view (s_wavFile ?v) = Some (drop 16384 ?bs) \<or> length ?bs < 16384"
    using u d1 f2(3) rd by (auto simp: eof_after_def file_after_def chunk_def)
  have short: "map_option view (s_wavFile ?v) = Some (drop 16384 ?bs)"
    using u v(3) rd by (auto simp: file_after_def)
  have halves: "i2s_half ?v 0 = half_of (chunk ?bs 0)" "i2s_half ?v 1 = half_of (chunk ?bs 1)"
    using half_after_fill [OF bc ok, of 0 m1 r1] half_after_fill [OF f1(2) ok, of 1 m2 r2] d0 d1
    by (simp_all add: half_off_def) (simp add: i2s_half_def half_off_def)
  have start: "Audio_StartWav fs True name s = Some (1, ?v\<lparr>i2s_running := True, s_isPlaying := 1\<rparr>)"
    using StartWav_open [of s fs name f0 f] idle open_ok f1(1) f2(1)
    by (simp add: prefill_def player_consts)
  have qv: "queue_names ?v = []" using q(1) by (simp add: wav_state_def queue_names_def queue_length_def)
  have inv': "player_inv (?v\<lparr>i2s_running := True, s_isPlaying := 1\<rparr>)"
    using StartWav_inv [OF ok inv, of True name] start by (metis option.inject prod.inject)
  show ?thesis
  proof (rule that [OF start])
    show "wav_at view ?bs 0 (?v\<lparr>i2s_running := True, s_isPlaying := 1\<rparr>)"
      unfolding wav_at_def using inv' u v w short halves q(2) qv
      by (simp add: i2s_half_def queue_names_def queue_length_def)
  qed
qed

text \<open>A file system of named byte strings, for the concrete instances.\<close>

definition mem_fatfs :: "(u8 list \<times> u8 list) list \<Rightarrow> u8 list fatfs" where
  "mem_fatfs files = \<lparr>f_open = map_of files, f_lseek = (\<lambda>f n. Some (drop n f)),
     f_read = (\<lambda>f n. (take n f, drop n f))\<rparr>"

lemma mem_fatfs_view: "fatfs_view (mem_fatfs files) id"
  by (simp add: fatfs_view_def mem_fatfs_def)

lemma mem_fatfs_ok: "fatfs_ok (mem_fatfs files)"
  using mem_fatfs_view by (rule fatfs_view_ok)

lemma boot_idle:
  "s_isPlaying (audio_boot hal_ok) = 0" "queue_names (audio_boot hal_ok) = []"
  "rx_quiet (rx (audio_boot hal_ok))" "s_audioSource (audio_boot hal_ok) = AUDIO_SOURCE_NONE"
  by (simp_all add: audio_boot_def Audio_Init_def AudioPlayer_ClearQueue_def clear_buffers_def Let_def
      queue_names_def queue_length_def rx_quiet_def AudioStreamRx_Start_def HAL_SPI_Receive_DMA_def
      AudioStreamRx_TakeReadyBlock_def audio_power_on_def AudioStreamRx_Init_def)

lemma half_of_nth:
  assumes "length d \<le> 8192" and "j < 4096"
  defines "v \<equiv> (if 2 * j + 1 < length d then mono_sample d j else 0)"
  shows "half_of d ! (2 * j) = v" and "half_of d ! (2 * j + 1) = v"
proof -
  have st: "stereo xs ! (2 * i) = xs ! i \<and> stereo xs ! (2 * i + 1) = xs ! i" if "i < length xs" for xs and i
    using that
  proof (induction xs arbitrary: i)
    case (Cons x xs)
    then show ?case by (cases i) (auto simp: stereo_def)
  qed simp
  have "2 * j + 1 < length d \<longleftrightarrow> j < length d div 2" by auto
  then show "half_of d ! (2 * j) = v" "half_of d ! (2 * j + 1) = v"
    using assms(1,2) st [of j "samples d"]
    by (auto simp: half_of_def v_def nth_append samples_def)
qed

lemma boot_queue_inv: "queue_inv (audio_boot hal_ok)"
  using player_boot_inv [of hal_ok] unfolding player_inv_def by blast

section \<open>Properties\<close>

text \<open>
  C7: In every state the player can reach, whatever the order of commands, passes of the main loop
  and interrupts, and whatever the card holds at each of them, its invariant holds (the I2S transfer runs exactly while something plays, a
  file is open exactly while the source is a WAV file, all arrays keep their shapes), and
  neither a pass of the main loop nor an announcement of an array of at least eight levels accesses memory outside
  an array.
\<close>

theorem player_reachable_safe:
  assumes "fatfs_ok fs" and "player_reachable s" and "8 \<le> length cs"
  shows "player_inv s \<and> (\<exists>t. Audio_Process fs hal_ok t1 t2 t3 s = Some t \<and> player_inv t) \<and>
    (\<exists>t. Audio_Guide fs hal_ok cs s = Some t \<and> player_inv t)"
proof -
  have inv: "player_inv s" using assms(2) by (rule player_machine.reached_inv)
  with Process_inv [OF assms(1) inv] Guide_inv [OF assms(1) inv assms(3)] show ?thesis by metis
qed

lemma player_reachable_safe_witness:
  "player_inv (audio_boot True :: u8 list audio) \<and>
   (\<exists>t. Audio_Process (mem_fatfs []) True 1 1 1 (audio_boot True) = Some t \<and> player_inv t) \<and>
   (\<exists>t. Audio_Guide (mem_fatfs []) True [0, 2, 0, 1, 1, 2, 2, 0] (audio_boot True) = Some t \<and> player_inv t)"
  by (rule player_reachable_safe [OF mem_fatfs_ok player_reachable_init]) simp

text \<open>
  C13: Filling a half: stereo sample \<open>j\<close> of the half is the \<open>j\<close>-th 16-bit sample the source
  delivers, on both channels, or silence where the source has no more; every cell outside the
  half is untouched.
\<close>

theorem FillHalfBuffer_content:
  assumes "fatfs_ok fs" and "player_inv s" and "off \<in> {0, 8192}"
  shows "\<exists>t. AudioPlayer_FillHalfBuffer fs off s = Some t \<and>
    (\<forall>j<4096. let v = if 2 * j + 1 < length (delivered fs s) then mono_sample (delivered fs s) j else 0
       in s_i2sBuf t ! (off + 2 * j) = v \<and> s_i2sBuf t ! (off + 2 * j + 1) = v) \<and>
    (\<forall>j<16384. j < off \<or> off + 8192 \<le> j \<longrightarrow> s_i2sBuf t ! j = s_i2sBuf s ! j)"
proof -
  have b: "buf_inv s" using assms(2) by (simp add: player_inv_def)
  from assms(1) b assms(3) obtain m r where f:
    "AudioPlayer_FillHalfBuffer fs off s = Some (after_fill fs off s m r)" by (rule Fill_law)
  have d: "length (delivered fs s) \<le> 8192" using assms(1) by (rule length_delivered)
  let ?b = "s_i2sBuf (after_fill fs off s m r)"
  have at: "?b ! (off + i) = half_of (delivered fs s) ! i" if "i < 8192" for i
    using that assms(3) b length_half_of [OF d] by (auto simp: after_fill_def buf_inv_def nth_append)
  have out: "?b ! j = s_i2sBuf s ! j" if "j < 16384" "j < off \<or> off + 8192 \<le> j" for j
    using that assms(3) b length_half_of [OF d] by (auto simp: after_fill_def buf_inv_def nth_append)
  have at': "?b ! (off + 2 * j) = half_of (delivered fs s) ! (2 * j)"
    "?b ! (off + 2 * j + 1) = half_of (delivered fs s) ! (2 * j + 1)" if "j < 4096" for j
    using at [of "2 * j"] at [of "2 * j + 1"] that by (simp_all add: add.assoc)
  show ?thesis
    unfolding Let_def by (rule exI [of _ "after_fill fs off s m r"])
      (use f out at' half_of_nth [OF d] in simp)
qed

definition wav_playing :: "u8 list \<Rightarrow> u8 list audio" where
  "wav_playing bs = (audio_boot True)\<lparr>s_audioSource := AUDIO_SOURCE_WAV, s_wavFile := Some bs,
     s_isPlaying := 1, i2s_running := True\<rparr>"

lemma wav_playing_inv: "player_inv (wav_playing bs)"
  using player_boot_inv [of True, where 'a = "u8 list"]
  by (simp add: wav_playing_def player_inv_def buf_inv_def queue_inv_def)

lemma wav_playing_delivered: "length bs \<le> 8192 \<Longrightarrow> delivered (mem_fatfs fs) (wav_playing bs) = bs"
  by (simp add: delivered_def wav_playing_def mem_fatfs_def audio_boot_def Audio_Init_def
      AudioPlayer_ClearQueue_def clear_buffers_def Let_def)

lemma FillHalfBuffer_content_witness:
  "\<exists>t. AudioPlayer_FillHalfBuffer (mem_fatfs []) 8192 (wav_playing [1, 2, 3, 4, 5]) = Some t \<and>
    s_i2sBuf t ! 8193 = 0x0201 \<and> s_i2sBuf t ! 8194 = 0x0403 \<and> s_i2sBuf t ! 8196 = 0"
proof -
  have d: "delivered (mem_fatfs []) (wav_playing [1, 2, 3, 4, 5]) = [1, 2, 3, 4, 5]"
    by (rule wav_playing_delivered) simp
  obtain t where "AudioPlayer_FillHalfBuffer (mem_fatfs []) 8192 (wav_playing [1, 2, 3, 4, 5]) = Some t"
    and c: "\<forall>j<4096. let v = if 2 * j + 1 < length [1, 2, 3, 4, 5 :: u8] then mono_sample [1, 2, 3, 4, 5] j else 0
       in s_i2sBuf t ! (8192 + 2 * j) = v \<and> s_i2sBuf t ! (8192 + 2 * j + 1) = v"
    using FillHalfBuffer_content [OF mem_fatfs_ok wav_playing_inv, of 8192 "[]" "[1, 2, 3, 4, 5]"]
    unfolding d by blast
  moreover have "mono_sample [1, 2, 3, 4, 5] 0 = 0x0201" "mono_sample [1, 2, 3, 4, 5] 1 = 0x0403"
    by code_simp+
  ultimately show ?thesis
    using c [rule_format, of 0] c [rule_format, of 1] c [rule_format, of 2] by (simp add: Let_def)
qed



text \<open>
  C16: An announcement appends to the name queue, when it has room, exactly the playlist of the
  congestion levels: the start, one file per platform with level 0 in ascending order, and
  the end, or the warning when every level is 2, or nothing; and when nothing plays, the first
  name of the queue is taken out for playing at once.
\<close>

theorem Guide_queues_playlist:
  assumes "fatfs_ok fs" and "player_inv s" and "length cs = 8"
    and "queue_length s + length (guide_playlist cs) \<le> 15"
  shows "\<exists>t. Audio_Guide fs hal_ok cs s = Some t \<and>
    queue_names t = (if s_isPlaying s = 0 then tl (queue_names s @ guide_playlist cs)
      else queue_names s @ guide_playlist cs)"
  using Guide_law [OF assms] by metis

lemma Guide_queues_playlist_witness:
  "\<exists>t. Audio_Guide (mem_fatfs []) True [2, 0, 1, 1, 0, 2, 1, 1] (wav_playing []) = Some t \<and>
    queue_names t = [c_lit ''guide_start.wav'', c_lit ''guide_2.wav'', c_lit ''guide_5.wav'', c_lit ''guide_end.wav'']"
proof -
  let ?cs = "[2, 0, 1, 1, 0, 2, 1, 1] :: u8 list"
  have pl: "guide_playlist ?cs
    = [c_lit ''guide_start.wav'', c_lit ''guide_2.wav'', c_lit ''guide_5.wav'', c_lit ''guide_end.wav'']" by code_simp
  have "queue_names (wav_playing []) = queue_names (audio_boot True :: u8 list audio)"
    by (rule queue_frame(2)) (simp_all add: wav_playing_def)
  then have q: "queue_names (wav_playing []) = []" "s_isPlaying (wav_playing []) = 1"
    by (simp_all add: boot_idle) (simp add: wav_playing_def)
  then have "queue_length (wav_playing []) + length (guide_playlist ?cs) \<le> 15"
    using length_queue_names [of "wav_playing []"] pl by simp
  from Guide_queues_playlist [OF mem_fatfs_ok wav_playing_inv _ this, of "[]" True] q pl
  show ?thesis by simp
qed

text \<open>
  C12: The name queue refines a bounded first-in first-out buffer of 15 names: over any sequence of
  enqueues and dequeues from power-on, the names accepted are, in order and unchanged, those
  taken out followed by those still queued.
\<close>

theorem name_queue_conserves:
  assumes "list_all (op_ok 1 name_ok) ops"
  shows "\<exists>acc out (t :: 'f audio). fifo_run queue_push queue_pull ops (audio_boot hal_ok) = Some (acc, out, t) \<and>
    acc = out @ queue_names t \<and> length (queue_names t) \<le> 15"
proof -
  from name_queue.run_conserves [OF boot_queue_inv [of hal_ok, where 'a = 'f] assms] obtain acc out and t :: "'f audio" where
    "fifo_run queue_push queue_pull ops (audio_boot hal_ok) = Some (acc, out, t)" "queue_inv t"
    "acc = out @ queue_names t" by (auto simp: boot_idle)
  then show ?thesis using name_queue.bounded by blast
qed

lemma name_queue_conserves_witness:
  "\<exists>acc out t. fifo_run queue_push queue_pull [Push [c_lit ''a.wav''], Push [c_lit ''b.wav''], Pull 1]
      (audio_boot True) = Some (acc, out, t) \<and>
    acc = out @ queue_names t \<and> length (queue_names t) \<le> 15"
proof -
  have "list_all (op_ok 1 name_ok) [Push [c_lit ''a.wav''], Push [c_lit ''b.wav''], Pull 1]" by code_simp
  then show ?thesis by (rule name_queue_conserves)
qed

text \<open>
  A playing stream is never stopped while it still has data: if after a pass of the main loop
  the ring holds any byte, the stream that was playing before the pass still plays.
\<close>

theorem stream_not_cut_while_data:
  assumes "fatfs_ok fs" and "player_inv s" and "s_audioSource s = AUDIO_SOURCE_STREAM"
    and "Audio_Process fs hal_ok t1 t2 t3 s = Some t" and "rx_bytes (rx t) \<noteq> []"
  shows "s_isPlaying t \<noteq> 0 \<and> s_audioSource t = AUDIO_SOURCE_STREAM"
proof -
  obtain u where u: "process_stream_rx t1 s = Some u" "player_inv u"
    using assms(2) by (rule process_stream_rx_inv)
  then have us: "s_audioSource u = AUDIO_SOURCE_STREAM" "s_isPlaying u \<noteq> 0"
    using assms(2,3) by (auto simp: process_stream_rx_def player_inv_def Let_def split: bind_splits if_splits)
  obtain v where v: "serve_half fs 1 0 u = Some v" "player_inv v" "s_audioSource v = AUDIO_SOURCE_STREAM"
    using serve_half_inv [OF assms(1) u(2), of 0 1] us by auto
  obtain w where w: "serve_half fs 2 8192 v = Some w" "player_inv w" "s_audioSource w = AUDIO_SOURCE_STREAM"
    using serve_half_inv [OF assms(1) v(2), of 8192 2] v by auto
  have play: "process_playing fs t2 u = Some (end_stream t2 w)"
    using v w by (simp add: process_playing_def player_consts end_wav_def)
  show ?thesis
  proof (cases "end_stream t2 w = w")
    case True
    then have "t = w" using assms(4) u us play w by (simp add: Audio_Process_def player_inv_def)
    then show ?thesis using w by (simp add: player_inv_def)
  next
    case False
    then have st: "end_stream t2 w = Audio_Stop w" "s_count (rx w) = 0"
      by (auto simp: end_stream_def AudioStreamRx_Available_def split: if_splits)
    have x: "s_isPlaying (Audio_Stop w) = 0" "rx (Audio_Stop w) = rx w"
      by (auto simp: Audio_Stop_def Let_def)
    have inv: "player_inv (Audio_Stop w)" using w(2) by (rule Audio_Stop_inv)
    obtain a where "AudioPlayer_PlayNextFromQueue fs hal_ok (Audio_Stop w) = Some a"
      "rx_bytes (rx a) = rx_bytes (rx w)" using PlayNext_inv [OF assms(1) inv] x(2) by metis
    moreover have "Audio_StartStream fs hal_ok t3 (Audio_Stop w) = Some (0, Audio_Stop w)"
      using st(2) x by (simp add: Audio_StartStream_def AudioStreamRx_Available_def player_consts)
    ultimately have "rx_bytes (rx t) = rx_bytes (rx w)"
      using assms(4) u us play st x by (auto simp: Audio_Process_def split: if_splits)
    then show ?thesis using assms(5) st(2) by (simp add: rx_bytes_def)
  qed
qed

definition stream_idle :: "u8 list audio" where
  "stream_idle = (audio_boot True)\<lparr>s_audioSource := AUDIO_SOURCE_STREAM, s_isPlaying := 1, i2s_running := True,
     rx := dma_complete (replicate 1920 5) True (rx (audio_boot True :: u8 list audio))\<rparr>"

lemma stream_not_cut_while_data_witness:
  "\<exists>t. Audio_Process (mem_fatfs []) True 900 900 900 stream_idle = Some t \<and> rx_bytes (rx t) \<noteq> [] \<and>
    s_isPlaying t \<noteq> 0 \<and> s_audioSource t = AUDIO_SOURCE_STREAM"
proof -
  have r: "rx_inv (rx (audio_boot True :: u8 list audio))"
    using player_boot_inv [of True, where 'a = "u8 list"] by (simp add: player_inv_def buf_inv_def)
  have inv: "player_inv stream_idle"
    using player_boot_inv [of True, where 'a = "u8 list"] dma_complete_inv [OF r, of "replicate 1920 5" True]
    by (auto simp: stream_idle_def player_inv_def buf_inv_def queue_inv_def boot_idle)
  have b: "rx (audio_boot True :: u8 list audio) = AudioStreamRx_Start True (AudioStreamRx_Init rx_power_on)"
    by (simp add: audio_boot_def Init_rx Let_def)
  have "dma_target rx_power_on = None" by (simp add: rx_power_on_def)
  then have c: "caught_up (rx (audio_boot True :: u8 list audio))" unfolding b by (rule caught_up_start)
  have "s_count (rx (audio_boot True :: u8 list audio)) = 0" using boot_idle(3) [of True, where 'c = "u8 list"] by (simp add: rx_quiet_def)
  moreover have "length (replicate 1920 (5 :: u8)) = 1920" by simp
  from serve_block [OF c this] obtain x where
    "AudioStreamRx_Process (dma_complete (replicate 1920 5) True (rx (audio_boot True :: u8 list audio))) = Some x"
    "rx_bytes x = rx_bytes (rx (audio_boot True :: u8 list audio))
      @ take (32768 - unat (s_count (rx (audio_boot True :: u8 list audio)))) (replicate 1920 5)" by metis
  ultimately have x: "AudioStreamRx_Process (rx stream_idle) = Some x" "rx_bytes x \<noteq> []"
    by (simp_all add: stream_idle_def)
  then have "s_count x \<noteq> 0" by (auto simp: rx_bytes_def)
  then have p: "process_stream_rx 900 stream_idle = Some (stream_idle\<lparr>rx := x, s_streamLastDataTick := 900\<rparr>)"
    using x(1) by (simp add: process_stream_rx_def AudioStreamRx_Available_def word_gt_0)
  have f: "s_bufferEvent stream_idle = 0" "s_audioSource stream_idle = AUDIO_SOURCE_STREAM" "s_isPlaying stream_idle = 1"
    by (simp_all add: stream_idle_def audio_boot_def Audio_Init_def Let_def clear_buffers_def)
  let ?t = "stream_idle\<lparr>rx := x, s_streamLastDataTick := 900\<rparr>"
  have "Audio_Process (mem_fatfs []) True 900 900 900 stream_idle = Some ?t"
    using p f \<open>s_count x \<noteq> 0\<close> by (simp add: Audio_Process_def process_playing_def serve_half_def end_wav_def
        end_stream_def AudioStreamRx_Available_def)
  moreover have "rx_bytes (rx ?t) \<noteq> []" using x(2) by simp
  ultimately show ?thesis
    using stream_not_cut_while_data [OF mem_fatfs_ok inv f(2), of "[]" True 900 900 900 ?t] by blast
qed

text \<open>
  \<open>s_bufferEvent &= mask\<close> is a read and a write of a variable that interrupts also write: the two
  accesses, for an interrupt that arrives between them.
\<close>

definition event_read :: "'f audio \<Rightarrow> u8" where
  "event_read s = s_bufferEvent s"

definition event_write :: "u8 \<Rightarrow> u8 \<Rightarrow> 'f audio \<Rightarrow> 'f audio" where
  "event_write ev v s = s\<lparr>s_bufferEvent := v AND NOT ev\<rparr>"

definition clear_event :: "u8 \<Rightarrow> ('f audio \<Rightarrow> 'f audio) \<Rightarrow> 'f audio \<Rightarrow> 'f audio" where
  "clear_event ev interrupt s = event_write ev (event_read s) (interrupt s)"

lemma clear_event_undisturbed: "clear_event ev id s = s\<lparr>s_bufferEvent := s_bufferEvent s AND NOT ev\<rparr>"
  by (simp add: clear_event_def event_read_def event_write_def)

text \<open>
  The interrupt flags are cleared by a read, a mask and a write. When the transfer-complete
  interrupt arrives between the read and the write that clear the half-complete event, its event
  is lost: the second half is not refilled and the buffer sends its old contents again.
\<close>

theorem event_lost_in_clear:
  assumes "s_bufferEvent s = 1"
  shows "serve_half fs 2 off (clear_event 1 HAL_I2S_TxCpltCallback s)
      = Some (clear_event 1 HAL_I2S_TxCpltCallback s) \<and>
    s_bufferEvent (HAL_I2S_TxCpltCallback (clear_event 1 id s)) = 2"
  using assms by (simp add: clear_event_def event_read_def event_write_def serve_half_def
      HAL_I2S_TxCpltCallback_def)

lemma event_lost_in_clear_witness:
  "serve_half (mem_fatfs []) 2 8192 (clear_event 1 HAL_I2S_TxCpltCallback (HAL_I2S_TxHalfCpltCallback stream_idle))
      = Some (clear_event 1 HAL_I2S_TxCpltCallback (HAL_I2S_TxHalfCpltCallback stream_idle)) \<and>
    s_bufferEvent (HAL_I2S_TxCpltCallback (clear_event 1 id (HAL_I2S_TxHalfCpltCallback stream_idle))) = 2"
  by (rule event_lost_in_clear) (simp add: HAL_I2S_TxHalfCpltCallback_def stream_idle_def
      audio_boot_def Audio_Init_def Let_def clear_buffers_def)

end
