(* ===== verification/Uart_Protocol.thy ===== *)
theory Uart_Protocol
  imports Prelude Machine "HOL-Library.Monad_Syntax"
begin

text \<open>
  The serial packet layer: \<open>features/protocol/uart_protocol.{h,c}\<close> (packet type, constants,
  checksum) and the receiving state machine and sender of
  \<open>features/protocol/uart_handler.c\<close>. The byte stream seen by \<open>UART_RxCallback\<close> and the
  bytes handed to \<open>HAL_UART_Transmit\<close> are lists of bytes. Diagnostic \<open>printf\<close>s are left out.
\<close>

section \<open>Packets\<close>

definition PKT_STX :: u8 where "PKT_STX = 0xAA"
definition PKT_ETX :: u8 where "PKT_ETX = 0x55"
definition PKT_MAX_DATA_LEN :: nat where "PKT_MAX_DATA_LEN = 256"

definition CMD_GET_CO :: u8 where "CMD_GET_CO = 0x01"
definition CMD_GET_CO2 :: u8 where "CMD_GET_CO2 = 0x02"
definition CMD_GET_TEMP_HUM :: u8 where "CMD_GET_TEMP_HUM = 0x03"
definition CMD_TRAIN_DEST :: u8 where "CMD_TRAIN_DEST = 0x09"
definition CMD_SET_LED :: u8 where "CMD_SET_LED = 0x10"
definition CMD_DISPLAY_CTRL :: u8 where "CMD_DISPLAY_CTRL = 0x11"
definition CMD_PLAY_WAV :: u8 where "CMD_PLAY_WAV = 0x20"
definition CMD_GET_WAVS :: u8 where "CMD_GET_WAVS = 0x21"
definition CMD_RESP_WAVS :: u8 where "CMD_RESP_WAVS = 0x22"
definition CMD_RESP_SENSOR :: u8 where "CMD_RESP_SENSOR = 0x80"
definition CMD_ACK :: u8 where "CMD_ACK = 0xF0"
definition CMD_NACK :: u8 where "CMD_NACK = 0xF1"

definition ERR_INVALID_CMD :: u8 where "ERR_INVALID_CMD = 0x01"
definition ERR_INVALID_DATA :: u8 where "ERR_INVALID_DATA = 0x02"
definition ERR_DEVICE_BUSY :: u8 where "ERR_DEVICE_BUSY = 0x03"

lemmas cmd_defs = CMD_GET_CO_def CMD_GET_CO2_def CMD_GET_TEMP_HUM_def CMD_TRAIN_DEST_def
  CMD_SET_LED_def CMD_DISPLAY_CTRL_def CMD_PLAY_WAV_def CMD_GET_WAVS_def CMD_RESP_WAVS_def
  CMD_RESP_SENSOR_def CMD_ACK_def CMD_NACK_def

record Packet_t =
  pkt_cmd :: u8
  pkt_len :: u8
  pkt_data :: "u8 list"
  pkt_crc :: u8

text \<open>The payload of a packet: the first \<open>len\<close> bytes of its data array.\<close>

definition payload :: "Packet_t \<Rightarrow> u8 list" where
  "payload p = take (unat (pkt_len p)) (pkt_data p)"

section \<open>Checksum\<close>

fun xor_loop :: "u8 list \<Rightarrow> nat \<Rightarrow> nat \<Rightarrow> u8 \<Rightarrow> u8" where
  "xor_loop d i 0 c = c"
| "xor_loop d i (Suc n) c = xor_loop d (Suc i) n (c XOR d ! i)"

definition Calc_CRC :: "Packet_t \<Rightarrow> u8" where
  "Calc_CRC pkt =
     (let c = pkt_cmd pkt XOR pkt_len pkt;
          c = xor_loop (pkt_data pkt) 0 (unat (pkt_len pkt)) c
      in c XOR PKT_ETX)"

text \<open>The loop is the exclusive or of the bytes it visits.\<close>

definition xor_all :: "u8 list \<Rightarrow> u8" where
  "xor_all bs = foldr (XOR) bs 0"

lemma xor_all_simps [simp]: "xor_all [] = 0" "xor_all (b # bs) = b XOR xor_all bs"
  by (simp_all add: xor_all_def)

lemma xor_all_append [simp]: "xor_all (xs @ ys) = xor_all xs XOR xor_all ys"
  by (induction xs) (simp_all add: xor.assoc)

lemma xor_loop_eq: "i + n \<le> length d \<Longrightarrow> xor_loop d i n c = c XOR xor_all (take n (drop i d))"
  by (induction n arbitrary: i c)
    (simp_all add: Cons_nth_drop_Suc [symmetric] xor.assoc)

lemma Calc_CRC_eq:
  "unat (pkt_len p) \<le> length (pkt_data p) \<Longrightarrow>
   Calc_CRC p = pkt_cmd p XOR pkt_len p XOR xor_all (payload p) XOR PKT_ETX"
  by (simp add: Calc_CRC_def xor_loop_eq payload_def xor.assoc)

section \<open>Receiving\<close>

datatype RxState_t =
    STATE_WAIT_STX | STATE_RECV_CMD | STATE_RECV_LEN | STATE_RECV_DATA | STATE_RECV_CRC
  | STATE_WAIT_ETX

record uart_rx =
  rxState :: RxState_t
  rxPkt :: Packet_t
  dataIdx :: u8
  pktReady :: u8
  pendingPkt :: Packet_t

definition packet_zero :: Packet_t where
  "packet_zero = \<lparr>pkt_cmd = 0, pkt_len = 0, pkt_data = replicate PKT_MAX_DATA_LEN 0, pkt_crc = 0\<rparr>"

definition uart_power_on :: uart_rx where
  "uart_power_on = \<lparr>rxState = STATE_WAIT_STX, rxPkt = packet_zero, dataIdx = 0, pktReady = 0,
     pendingPkt = packet_zero\<rparr>"

text \<open>
  One byte through the state machine; \<open>None\<close> is a store outside the data array. The length
  test compares a byte with 256, as the code does.
\<close>

definition UART_RxCallback :: "u8 \<Rightarrow> uart_rx \<Rightarrow> uart_rx option" where
  "UART_RxCallback byte s =
     (case rxState s of
        STATE_WAIT_STX \<Rightarrow>
          Some (if byte = PKT_STX then s\<lparr>rxState := STATE_RECV_CMD\<rparr> else s)
      | STATE_RECV_CMD \<Rightarrow>
          Some (s\<lparr>rxPkt := (rxPkt s)\<lparr>pkt_cmd := byte\<rparr>, rxState := STATE_RECV_LEN\<rparr>)
      | STATE_RECV_LEN \<Rightarrow>
          (let s = s\<lparr>rxPkt := (rxPkt s)\<lparr>pkt_len := byte\<rparr>, dataIdx := 0\<rparr>
           in if unat (pkt_len (rxPkt s)) > PKT_MAX_DATA_LEN
              then Some (s\<lparr>rxState := STATE_WAIT_STX\<rparr>)
              else Some (s\<lparr>rxState := (if pkt_len (rxPkt s) > 0 then STATE_RECV_DATA
                                        else STATE_RECV_CRC)\<rparr>))
      | STATE_RECV_DATA \<Rightarrow> do {
          d \<leftarrow> c_store (pkt_data (rxPkt s)) (uint (dataIdx s)) byte;
          let s = s\<lparr>rxPkt := (rxPkt s)\<lparr>pkt_data := d\<rparr>, dataIdx := dataIdx s + 1\<rparr>;
          Some (if dataIdx s \<ge> pkt_len (rxPkt s) then s\<lparr>rxState := STATE_RECV_CRC\<rparr> else s)
        }
      | STATE_RECV_CRC \<Rightarrow>
          Some (s\<lparr>rxPkt := (rxPkt s)\<lparr>pkt_crc := byte\<rparr>, rxState := STATE_WAIT_ETX\<rparr>)
      | STATE_WAIT_ETX \<Rightarrow>
          (let s = (if byte = PKT_ETX \<and> Calc_CRC (rxPkt s) = pkt_crc (rxPkt s)
                    then s\<lparr>pktReady := 1, pendingPkt := rxPkt s\<rparr> else s)
           in Some (s\<lparr>rxState := STATE_WAIT_STX\<rparr>)))"

text \<open>The loop of \<open>HAL_UARTEx_RxEventCallback\<close> over the bytes it is given.\<close>

fun receive_bytes :: "u8 list \<Rightarrow> uart_rx \<Rightarrow> uart_rx option" where
  "receive_bytes [] s = Some s"
| "receive_bytes (b # bs) s =
     Option.bind (UART_RxCallback b s) (receive_bytes bs)"

text \<open>
  The callback passes the first \<open>Size\<close> bytes of \<open>rx_buf\<close> on. The restart of the reception at its end does
  nothing to this state; it is in \<open>Uart_Line\<close>.
\<close>

definition HAL_UARTEx_RxEventCallback :: "u8 list \<Rightarrow> u16 \<Rightarrow> uart_rx \<Rightarrow> uart_rx option" where
  "HAL_UARTEx_RxEventCallback rx_buf Size s =
     (if unat Size \<le> length rx_buf then receive_bytes (take (unat Size) rx_buf) s else None)"

lemma callback_receives: "HAL_UARTEx_RxEventCallback rx_buf Size s = Some t \<Longrightarrow> receive_bytes (take (unat Size) rx_buf) s = Some t"
  by (simp add: HAL_UARTEx_RxEventCallback_def split: if_splits)

lemma callback_bytes:
  assumes "length bs < 65536"
  shows "HAL_UARTEx_RxEventCallback (bs @ rest) (of_nat (length bs)) s = receive_bytes bs s"
proof -
  have "unat (of_nat (length bs) :: u16) = length bs" using assms by (simp add: unat_of_nat)
  then show ?thesis by (simp add: HAL_UARTEx_RxEventCallback_def)
qed

section \<open>Sending\<close>

text \<open>
  \<open>SendPacket\<close> fills \<open>uint8_t buf[PKT_MAX_DATA_LEN + 6]\<close> through the byte-wide index
  \<open>idx\<close> and transmits the first \<open>idx\<close> bytes. The content of \<open>buf\<close> on entry is whatever
  the stack held, hence an argument; a read past the caller's data is \<open>None\<close>, as every
  access outside an array.
\<close>

definition put :: "u8 \<Rightarrow> u8 list \<times> u8 \<Rightarrow> (u8 list \<times> u8) option" where
  "put b bi = (case bi of (buf, idx) \<Rightarrow>
     map_option (\<lambda>buf'. (buf', idx + 1)) (c_store buf (uint idx) b))"

fun put_all :: "u8 list \<Rightarrow> u8 list \<times> u8 \<Rightarrow> (u8 list \<times> u8) option" where
  "put_all [] bi = Some bi"
| "put_all (b # bs) bi = Option.bind (put b bi) (put_all bs)"

definition SendPacket :: "u8 list \<Rightarrow> u8 \<Rightarrow> u8 list \<Rightarrow> u8 \<Rightarrow> u8 list option" where
  "SendPacket stack cmd data len =
     (if length data < unat len then None
      else do {
        bi \<leftarrow> put PKT_STX (stack, 0);
        bi \<leftarrow> put cmd bi;
        bi \<leftarrow> put len bi;
        bi \<leftarrow> put_all (take (unat len) data) bi;
        let crc = cmd XOR len XOR PKT_ETX;
        let crc = xor_loop data 0 (unat len) crc;
        bi \<leftarrow> put crc bi;
        (buf, idx) \<leftarrow> put PKT_ETX bi;
        Some (take (unat idx) buf)
      })"

definition UART_SendACK :: "u8 list \<Rightarrow> u8 \<Rightarrow> u8 list option" where
  "UART_SendACK stack cmd = SendPacket stack CMD_ACK [cmd] 1"

definition UART_SendNACK :: "u8 list \<Rightarrow> u8 \<Rightarrow> u8 \<Rightarrow> u8 list option" where
  "UART_SendNACK stack cmd err = SendPacket stack CMD_NACK [cmd, err] 2"

text \<open>The response buffer has \<open>PKT_MAX_DATA_LEN\<close> bytes; \<open>len + 1\<close> is passed on as a byte.\<close>

definition UART_SendSensorResp :: "u8 list \<Rightarrow> u8 \<Rightarrow> u8 list \<Rightarrow> u8 \<Rightarrow> u8 list option" where
  "UART_SendSensorResp stack cmd data len =
     (if length data < unat len then None
      else SendPacket stack CMD_RESP_SENSOR (cmd # take (unat len) data) (len + 1))"

section \<open>The wire format\<close>

text \<open>What a packet looks like on the line, for a payload of at most 255 bytes.\<close>

definition frame :: "u8 \<Rightarrow> u8 list \<Rightarrow> u8 list" where
  "frame c pl = (let n = of_nat (length pl)
     in [PKT_STX, c, n] @ pl @ [c XOR n XOR xor_all pl XOR PKT_ETX, PKT_ETX])"

lemma length_frame [simp]: "length (frame c pl) = length pl + 5"
  by (simp add: frame_def Let_def)

subsection \<open>The sender produces frames\<close>

lemma put_all_append: "put_all (xs @ ys) bi = Option.bind (put_all xs bi) (put_all ys)"
proof (induction xs arbitrary: bi)
  case Nil
  then show ?case by simp
next
  case (Cons x xs)
  then show ?case by (cases "put x bi") simp_all
qed

lemma put_defined:
  assumes "length buf = 262"
  shows "put b (buf, idx) = Some (buf[unat idx := b], idx + 1)"
proof -
  have "unat idx < 262" using unat_u8 [of idx] by linarith
  then have "uint idx < int (length buf)" using assms by (simp only: uint_nat of_nat_less_iff)
  then show ?thesis by (simp add: put_def c_store_def)
qed

text \<open>The index wraps; the stores stay inside the buffer all the same.\<close>

lemma put_all_defined:
  "length buf = 262 \<Longrightarrow>
   \<exists>buf'. put_all bs (buf, idx) = Some (buf', idx + of_nat (length bs)) \<and> length buf' = 262"
proof (induction bs arbitrary: buf idx)
  case Nil
  then show ?case by simp
next
  case (Cons b bs)
  with Cons.IH [of "buf[unat idx := b]" "idx + 1"] show ?case
    by (auto simp: put_defined add.assoc)
qed

lemma put_all_prefix:
  assumes "length buf = 262" and "unat idx + length bs \<le> 255"
  shows "\<exists>buf'. put_all bs (buf, idx) = Some (buf', idx + of_nat (length bs)) \<and>
    length buf' = 262 \<and> take (unat idx + length bs) buf' = take (unat idx) buf @ bs"
  using assms
proof (induction bs arbitrary: buf idx)
  case Nil
  then show ?case by simp
next
  case (Cons b bs)
  have i: "unat (idx + 1) = unat idx + 1"
    using Cons.prems by (simp add: unat_add_bounded)
  let ?buf = "buf[unat idx := b]"
  obtain buf' where "put_all bs (?buf, idx + 1) = Some (buf', idx + 1 + of_nat (length bs))"
    "length buf' = 262" "take (unat (idx + 1) + length bs) buf' = take (unat (idx + 1)) ?buf @ bs"
    using Cons.IH [of ?buf "idx + 1"] Cons.prems i by auto
  moreover have "take (unat idx + 1) ?buf = take (unat idx) buf @ [b]"
    using Cons.prems by (simp add: take_Suc_conv_app_nth)
  ultimately show ?case using Cons.prems i by (simp add: put_defined add.assoc)
qed

lemma SendPacket_put_all:
  assumes "unat n \<le> length d"
  shows "SendPacket stack c d n =
    map_option (\<lambda>(buf, idx). take (unat idx) buf) (put_all (frame c (take (unat n) d)) (stack, 0))"
proof -
  have "length (take (unat n) d) = unat n" using assms by simp
  then have "frame c (take (unat n) d) = PKT_STX # c # n # (take (unat n) d @
      [xor_loop d 0 (unat n) (c XOR n XOR PKT_ETX), PKT_ETX])"
    using assms by (simp add: frame_def Let_def xor_loop_eq ac_simps)
  then show ?thesis using assms
    by (simp add: SendPacket_def put_all_append Let_def case_prod_beta' not_less
        option.map_comp o_def split: bind_split option.split)
qed

subsection \<open>The receiver accepts frames\<close>

lemma events_append:
  "receive_bytes (xs @ ys) s =
    Option.bind (receive_bytes xs s) (receive_bytes ys)"
proof (induction xs arbitrary: s)
  case Nil
  then show ?case by simp
next
  case (Cons x xs)
  then show ?case by (cases "UART_RxCallback x s") simp_all
qed

text \<open>The payload bytes are stored from the current index on.\<close>

lemma receive_payload:
  assumes "rxState s = STATE_RECV_DATA" and "length (pkt_data (rxPkt s)) = 256" and "pl \<noteq> []"
    and "unat (dataIdx s) + length pl = unat (pkt_len (rxPkt s))"
  shows "receive_bytes pl s = Some (s\<lparr>rxState := STATE_RECV_CRC,
    rxPkt := (rxPkt s)\<lparr>pkt_data := take (unat (dataIdx s)) (pkt_data (rxPkt s)) @ pl @
      drop (unat (pkt_len (rxPkt s))) (pkt_data (rxPkt s))\<rparr>, dataIdx := pkt_len (rxPkt s)\<rparr>)"
  using assms
proof (induction pl arbitrary: s)
  case Nil
  then show ?case by simp
next
  case (Cons b pl)
  let ?i = "unat (dataIdx s)" and ?d = "pkt_data (rxPkt s)" and ?n = "pkt_len (rxPkt s)"
  have i: "?i < 256" by simp
  then have "uint (dataIdx s) < int (length ?d)"
    using Cons.prems(2) by (simp only: uint_nat of_nat_less_iff)
  then have st: "c_store ?d (uint (dataIdx s)) b = Some (?d[?i := b])" by simp
  have "?i + 1 + length pl \<le> 255" using Cons.prems(4) unat_u8_le [of ?n] by simp
  then have i1: "unat (dataIdx s + 1) = ?i + 1" by (simp add: unat_add_bounded)
  have cells: "take (Suc ?i) (?d[?i := b]) = take ?i ?d @ [b]"
    using i Cons.prems(2) by (simp add: take_Suc_conv_app_nth)
  show ?case
  proof (cases "pl = []")
    case True
    then have n: "unat ?n = ?i + 1" using Cons.prems(4) by simp
    then have "dataIdx s + 1 = ?n" using i1 by (simp add: word_unat_eq_iff)
    then show ?thesis
      using True Cons.prems st i upd_conv_take_nth_drop [of ?i ?d b] n
      by (simp add: UART_RxCallback_def Let_def)
  next
    case False
    let ?s = "s\<lparr>rxPkt := (rxPkt s)\<lparr>pkt_data := ?d[?i := b]\<rparr>, dataIdx := dataIdx s + 1\<rparr>"
    have "\<not> ?n \<le> dataIdx s + 1"
      using False Cons.prems(4) i1 by (cases pl) (simp_all add: word_le_nat_alt)
    then have "UART_RxCallback b s = Some ?s"
      using Cons.prems st by (simp add: UART_RxCallback_def Let_def)
    moreover have "receive_bytes pl ?s = Some (?s\<lparr>rxState := STATE_RECV_CRC,
      rxPkt := (rxPkt ?s)\<lparr>pkt_data := take (Suc ?i) (?d[?i := b]) @ pl @ drop (unat ?n) (?d[?i := b])\<rparr>,
      dataIdx := ?n\<rparr>)"
      using Cons.IH [of ?s] Cons.prems False i1 by simp
    moreover have "drop (unat ?n) (?d[?i := b]) = drop (unat ?n) ?d"
      using Cons.prems(4) by simp
    ultimately show ?thesis by (simp add: cells)
  qed
qed

text \<open>
  A packet-shaped run of bytes from the idle state, whatever its checksum \<open>x\<close> and its last
  byte \<open>e\<close>: it is accepted exactly when both are right.
\<close>

definition rx_idle :: "uart_rx \<Rightarrow> bool" where
  "rx_idle s \<longleftrightarrow> rxState s = STATE_WAIT_STX \<and> length (pkt_data (rxPkt s)) = 256"

lemma receive_packet:
  assumes idle: "rx_idle s" and n: "unat n = length pl"
  shows "\<exists>t p. receive_bytes ([PKT_STX, c, n] @ pl @ [x, e]) s = Some t \<and> rx_idle t \<and>
    pkt_cmd p = c \<and> pkt_len p = n \<and> payload p = pl \<and> pkt_crc p = x \<and>
    (if e = PKT_ETX \<and> x = c XOR n XOR xor_all pl XOR PKT_ETX
     then pktReady t = 1 \<and> pendingPkt t = p
     else pktReady t = pktReady s \<and> pendingPkt t = pendingPkt s)"
proof -
  have le: "\<not> PKT_MAX_DATA_LEN < unat n"
    using unat_u8 [of n] unfolding PKT_MAX_DATA_LEN_def by linarith
  define d where "d = pl @ drop (unat n) (pkt_data (rxPkt s))"
  define p where "p = (rxPkt s)\<lparr>pkt_cmd := c, pkt_len := n, pkt_data := d, pkt_crc := x\<rparr>"
  define s1 where "s1 = s\<lparr>rxPkt := (rxPkt s)\<lparr>pkt_cmd := c, pkt_len := n\<rparr>, dataIdx := 0,
    rxState := (if n > 0 then STATE_RECV_DATA else STATE_RECV_CRC)\<rparr>"
  define s2 where "s2 = s\<lparr>rxPkt := (rxPkt s)\<lparr>pkt_cmd := c, pkt_len := n, pkt_data := d\<rparr>,
    dataIdx := n, rxState := STATE_RECV_CRC\<rparr>"
  have d: "length d = 256" "take (unat n) d = pl"
    using idle n unat_u8_le [of n] by (simp_all add: d_def rx_idle_def)
  have head: "receive_bytes [PKT_STX, c, n] s = Some s1"
    using idle le by (simp add: rx_idle_def UART_RxCallback_def s1_def)
  have body: "receive_bytes pl s1 = Some s2"
  proof (cases "pl = []")
    case True
    then have "n = 0" using n by (simp add: word_unat_eq_iff)
    then show ?thesis using True by (simp add: s1_def s2_def d_def)
  next
    case False
    then have "n > 0" using n by (cases pl) (simp_all add: word_less_nat_alt)
    then show ?thesis
      using receive_payload [of s1 pl] idle n False by (simp add: s1_def s2_def d_def rx_idle_def)
  qed
  have crc: "Calc_CRC p = c XOR n XOR xor_all pl XOR PKT_ETX"
  proof -
    have "unat n \<le> length d" using d(1) unat_u8 [of n] by linarith
    then show ?thesis using d(2) by (simp add: Calc_CRC_eq p_def payload_def)
  qed
  define t where "t = (let s3 = s2\<lparr>rxPkt := p\<rparr> in
    (if e = PKT_ETX \<and> Calc_CRC p = x then s3\<lparr>pktReady := 1, pendingPkt := p\<rparr> else s3)
      \<lparr>rxState := STATE_WAIT_STX\<rparr>)"
  have tail: "receive_bytes [x, e] s2 = Some t"
    by (auto simp: UART_RxCallback_def s2_def p_def t_def Let_def)
  have "receive_bytes ([PKT_STX, c, n] @ pl @ [x, e]) s = Some t"
    unfolding events_append by (simp add: head body tail del: receive_bytes.simps)
  moreover have "rx_idle t" using d by (auto simp: rx_idle_def t_def s2_def p_def Let_def)
  moreover have "payload p = pl" using d by (simp add: payload_def p_def)
  moreover have "if e = PKT_ETX \<and> x = c XOR n XOR xor_all pl XOR PKT_ETX
     then pktReady t = 1 \<and> pendingPkt t = p
     else pktReady t = pktReady s \<and> pendingPkt t = pendingPkt s"
    using crc by (auto simp: t_def s2_def Let_def)
  ultimately show ?thesis by (intro exI [of _ t] exI [of _ p]) (simp add: p_def)
qed

subsection \<open>Invariant of the receiver\<close>

definition uart_inv :: "uart_rx \<Rightarrow> bool" where
  "uart_inv s \<longleftrightarrow> length (pkt_data (rxPkt s)) = 256 \<and> length (pkt_data (pendingPkt s)) = 256 \<and>
     (rxState s = STATE_RECV_DATA \<longrightarrow> dataIdx s < pkt_len (rxPkt s)) \<and>
     (pktReady s \<noteq> 0 \<longrightarrow> Calc_CRC (pendingPkt s) = pkt_crc (pendingPkt s))"

lemma uart_inv_power_on: "uart_inv uart_power_on"
  by (simp add: uart_inv_def uart_power_on_def packet_zero_def PKT_MAX_DATA_LEN_def)

lemma UART_RxCallback_inv:
  assumes "uart_inv s"
  shows "\<exists>t. UART_RxCallback b s = Some t \<and> uart_inv t"
proof (cases "rxState s = STATE_RECV_DATA")
  case True
  have "uint (dataIdx s) < int (length (pkt_data (rxPkt s)))"
    using assms by (simp only: uint_nat of_nat_less_iff uart_inv_def unat_u8)
  then show ?thesis using assms True
    by (auto simp: UART_RxCallback_def uart_inv_def Let_def not_le)
next
  case False
  then show ?thesis using assms
    by (cases "rxState s") (auto simp: UART_RxCallback_def uart_inv_def Let_def)
qed

lemma events_inv:
  "uart_inv s \<Longrightarrow> \<exists>t. receive_bytes bs s = Some t \<and> uart_inv t"
proof (induction bs arbitrary: s)
  case Nil
  then show ?case by simp
next
  case (Cons b bs)
  from UART_RxCallback_inv [OF Cons.prems, of b] obtain u where
    "UART_RxCallback b s = Some u" "uart_inv u" by blast
  with Cons.IH [of u] show ?case by auto
qed

text \<open>The receiver as a machine: bytes arrive, and the dispatcher takes the packet.\<close>

inductive uart_step :: "uart_rx \<Rightarrow> uart_rx \<Rightarrow> bool" where
  bytes: "receive_bytes bs s = Some t \<Longrightarrow> uart_step s t"
| taken: "uart_step s (s\<lparr>pktReady := 0\<rparr>)"

definition uart_start :: "uart_rx \<Rightarrow> bool" where
  "uart_start s \<longleftrightarrow> s = uart_power_on"

abbreviation uart_reachable :: "uart_rx \<Rightarrow> bool" where
  "uart_reachable \<equiv> reached uart_start uart_step"

lemma uart_step_inv: "uart_step s t \<Longrightarrow> uart_inv s \<Longrightarrow> uart_inv t"
proof (induction rule: uart_step.induct)
  case (bytes bs s t)
  then show ?case using events_inv [of s bs] by simp
qed (simp add: uart_inv_def)

interpretation uart_machine: machine uart_start uart_step uart_inv
  by unfold_locales (auto simp: uart_start_def uart_inv_power_on uart_step_inv)

text \<open>Bytes other than the start byte do nothing while the receiver waits for it.\<close>

lemma noise_ignored:
  "rxState s = STATE_WAIT_STX \<Longrightarrow> PKT_STX \<notin> set noise \<Longrightarrow>
   receive_bytes noise s = Some s"
  by (induction noise) (auto simp: UART_RxCallback_def)

lemma receive_frame:
  assumes "rx_idle s" and "length pl \<le> 255"
  shows "\<exists>t. receive_bytes (frame c pl) s = Some t \<and> rx_idle t \<and> pktReady t = 1 \<and>
    pkt_cmd (pendingPkt t) = c \<and> unat (pkt_len (pendingPkt t)) = length pl \<and>
    payload (pendingPkt t) = pl"
proof -
  have n: "unat (of_nat (length pl) :: u8) = length pl" using assms(2) by simp
  from receive_packet [OF assms(1) n, of c "c XOR of_nat (length pl) XOR xor_all pl XOR PKT_ETX" PKT_ETX]
  show ?thesis using n by (auto simp: frame_def Let_def)
qed

lemma xor_all_update:
  "i < length bs \<Longrightarrow> xor_all (bs[i := b]) = xor_all bs XOR bs ! i XOR b"
proof (induction bs arbitrary: i)
  case Nil
  then show ?case by simp
next
  case (Cons a bs)
  then show ?case
    by (cases i) (simp_all add: xor.assoc xor.left_commute xor.commute)
qed

lemma xor_cancel_eq: "a XOR b = a XOR c \<longleftrightarrow> b = c" for a b c :: "'w::len word"
  by (metis xor.assoc xor_self_eq xor.left_neutral)

lemma xor_cancel_right: "b XOR a = c XOR a \<longleftrightarrow> b = c" for a b c :: "'w::len word"
  by (metis xor.assoc xor_self_eq xor.right_neutral)

text \<open>For a payload of at most 250 bytes, \<open>SendPacket\<close> transmits its frame.\<close>

lemma SendPacket_frame:
  assumes "length stack = 262" and "unat n \<le> 250" and "unat n \<le> length d"
  shows "SendPacket stack c d n = Some (frame c (take (unat n) d))"
proof -
  let ?f = "frame c (take (unat n) d)"
  have f: "length ?f = unat n + 5" using assms by simp
  from put_all_prefix [OF assms(1), of 0 ?f] obtain buf where
    "put_all ?f (stack, 0) = Some (buf, of_nat (length ?f))" "take (length ?f) buf = ?f"
    using f assms(2) by auto
  moreover have "unat (of_nat (length ?f) :: u8) = length ?f"
    using f assms(2) by (intro unat_of_nat_u8) simp
  ultimately show ?thesis using assms(3) by (simp add: SendPacket_put_all del: length_frame)
qed

text \<open>For every payload, the length sent is that of the frame modulo 256.\<close>

lemma SendPacket_length:
  assumes "length stack = 262" and "unat n \<le> length d"
  shows "\<exists>bs. SendPacket stack c d n = Some bs \<and> length bs = (unat n + 5) mod 256"
proof -
  let ?f = "frame c (take (unat n) d)"
  obtain buf where buf: "put_all ?f (stack, 0) = Some (buf, of_nat (length ?f))" "length buf = 262"
    using put_all_defined [OF assms(1), of ?f 0] by auto
  have "(unat n + 5) mod 256 \<le> 262" by (rule order_trans [of _ 255]) simp_all
  moreover have "unat (n + 5) = (unat n + 5) mod 256" by (simp add: unat_word_ariths)
  ultimately show ?thesis using buf assms(2) by (simp add: SendPacket_put_all)
qed

section \<open>Properties\<close>

text \<open>
  C8: For every byte sequence the line can deliver after power-on, the receiver never stores
  outside the packet's data array, keeps its invariant, and a packet flagged as ready always
  carries the checksum of its own contents.
\<close>

theorem receiver_safe:
  "\<exists>t. receive_bytes bs uart_power_on = Some t \<and> uart_inv t \<and>
    (pktReady t \<noteq> 0 \<longrightarrow> Calc_CRC (pendingPkt t) = pkt_crc (pendingPkt t))"
  using events_inv [OF uart_inv_power_on, of bs] by (auto simp: uart_inv_def)

lemma receiver_safe_witness:
  "\<exists>t. receive_bytes [0xAA, 0x09, 0xFF, 1, 2] uart_power_on = Some t \<and> uart_inv t \<and>
    (pktReady t \<noteq> 0 \<longrightarrow> Calc_CRC (pendingPkt t) = pkt_crc (pendingPkt t))"
  by (rule receiver_safe)

text \<open>
  C10: What \<open>SendPacket\<close> transmits for a payload of at most 250 bytes, the receiving state
  machine decodes back to the same command and payload, from any idle state and after any
  noise that does not contain the start byte.
\<close>

theorem send_receive_roundtrip:
  assumes "length stack = 262" and "unat n \<le> 250" and "unat n \<le> length d"
    and "rx_idle s" and "PKT_STX \<notin> set noise"
  shows "\<exists>bs t. SendPacket stack c d n = Some bs \<and>
    receive_bytes (noise @ bs) s = Some t \<and> rx_idle t \<and> pktReady t = 1 \<and>
    pkt_cmd (pendingPkt t) = c \<and> payload (pendingPkt t) = take (unat n) d"
proof -
  let ?f = "frame c (take (unat n) d)"
  have send: "SendPacket stack c d n = Some ?f" using assms(1-3) by (rule SendPacket_frame)
  obtain t where "receive_bytes ?f s = Some t" "rx_idle t" "pktReady t = 1"
    "pkt_cmd (pendingPkt t) = c" "payload (pendingPkt t) = take (unat n) d"
    using receive_frame [OF assms(4), of "take (unat n) d" c] assms(2,3) by auto
  moreover have "receive_bytes noise s = Some s"
    using assms(4,5) by (simp add: noise_ignored rx_idle_def)
  ultimately show ?thesis using send by (auto simp: events_append)
qed

lemma send_receive_roundtrip_witness:
  "\<exists>bs t. SendPacket (replicate 262 0) CMD_ACK [0x10] 1 = Some bs \<and>
    receive_bytes ([1, 2] @ bs) uart_power_on = Some t \<and> rx_idle t \<and> pktReady t = 1 \<and>
    pkt_cmd (pendingPkt t) = CMD_ACK \<and> payload (pendingPkt t) = take (unat (1 :: u8)) [0x10]"
  by (rule send_receive_roundtrip)
    (simp_all add: rx_idle_def uart_power_on_def packet_zero_def PKT_MAX_DATA_LEN_def PKT_STX_def)

text \<open>
  C18: For every payload length, \<open>SendPacket\<close> stays inside its buffer, and the number of bytes
  it hands to the UART is the frame length modulo 256, because its index is a byte wide: a
  payload of 251 bytes transmits nothing, and one of 252 to 255 bytes at most four bytes.
\<close>

theorem SendPacket_transmits_mod_256:
  assumes "length stack = 262" and "unat n \<le> length d"
  shows "\<exists>bs. SendPacket stack c d n = Some bs \<and> length bs = (unat n + 5) mod 256"
  using assms by (rule SendPacket_length)

lemma SendPacket_transmits_mod_256_witness:
  "\<exists>bs. SendPacket (replicate 262 0) CMD_RESP_WAVS (replicate 251 0x61) 251 = Some bs \<and>
    length bs = (unat (251 :: u8) + 5) mod 256 \<and> length bs = 0"
  using SendPacket_transmits_mod_256 [of "replicate 262 0" 251 "replicate 251 0x61" CMD_RESP_WAVS]
  by simp

text \<open>
  C17: A frame in which one byte of the command or the payload, or the checksum, was changed
  on the line is not accepted: the receiver returns to idle and its pending packet is what it
  was.
\<close>

theorem single_byte_corruption_rejected:
  assumes "rx_idle s" and "length pl \<le> 255"
    and "bs = (frame c pl)[i := b]" and "b \<noteq> frame c pl ! i"
    and "i = 1 \<or> (3 \<le> i \<and> i < length pl + 4)"
  shows "\<exists>t. receive_bytes bs s = Some t \<and> rx_idle t \<and>
    pktReady t = pktReady s \<and> pendingPkt t = pendingPkt s"
proof -
  define n where "n = (of_nat (length pl) :: u8)"
  define x where "x = c XOR n XOR xor_all pl XOR PKT_ETX"
  have n: "unat n = length pl" using assms(2) by (simp add: n_def)
  have f: "frame c pl = [PKT_STX, c, n] @ pl @ [x, PKT_ETX]"
    by (simp add: frame_def n_def x_def Let_def)
  have "i = 1 \<or> (i = 3 + (i - 3) \<and> i - 3 < length pl) \<or> i = 3 + length pl"
    using assms(5) by arith
  then consider "i = 1" | k where "i = 3 + k" "k < length pl" | "i = 3 + length pl" by metis
  then obtain c' pl' x' where bs: "bs = [PKT_STX, c', n] @ pl' @ [x', PKT_ETX]"
    and len: "unat n = length pl'" and bad: "x' \<noteq> c' XOR n XOR xor_all pl' XOR PKT_ETX"
  proof cases
    case 1
    then show ?thesis using assms(3,4) f n
      by (intro that [of b pl x]) (simp_all add: x_def xor_cancel_right)
  next
    case 2
    have "b \<noteq> pl ! k" using 2 assms(4) f by (simp add: nth_append)
    then have "xor_all (pl[k := b]) \<noteq> xor_all pl"
      using 2 xor_all_update [of k pl b] by (metis xor.assoc xor_cancel_eq xor.right_neutral xor_self_eq)
    then show ?thesis using 2 assms(3) f n
      by (intro that [of c "pl[k := b]" x])
        (simp_all add: x_def xor_cancel_eq xor_cancel_right list_update_append)
  next
    case 3
    then show ?thesis using assms(3,4) f n
      by (intro that [of c pl b]) (simp_all add: x_def list_update_append nth_append)
  qed
  from receive_packet [OF assms(1) len, of c' x' PKT_ETX] bad show ?thesis
    unfolding bs by auto
qed

lemma single_byte_corruption_rejected_witness:
  "\<exists>t. receive_bytes ((frame CMD_TRAIN_DEST [1])[3 := 2]) uart_power_on = Some t \<and>
    rx_idle t \<and> pktReady t = pktReady uart_power_on \<and> pendingPkt t = pendingPkt uart_power_on"
  by (rule single_byte_corruption_rejected [of _ "[1]" _ CMD_TRAIN_DEST 3 2])
    (simp_all add: rx_idle_def uart_power_on_def packet_zero_def PKT_MAX_DATA_LEN_def frame_def)

end
