(* ===== verification/Sd_Storage.thy ===== *)
theory Sd_Storage
  imports Prelude "HOL-Library.Monad_Syntax"
begin

text \<open>
  \<open>Core/Src/services/storage/sd_storage.c\<close>: the list of the WAV files on the card. The directory is
  what the calls of \<open>f_readdir\<close> deliver, in order: an error, or a name (without its terminating
  zero) with its attributes; the end of the list is the empty name that ends a directory.
\<close>

datatype dir_result = Dir_Error u8 | Dir_Entry "u8 list" u8

definition AM_DIR :: u8 where "AM_DIR = 0x10"
definition AM_HID :: u8 where "AM_HID = 0x02"
definition AM_SYS :: u8 where "AM_SYS = 0x04"
definition FR_OK :: u8 where "FR_OK = 0"

section \<open>Names\<close>

definition c_tolower :: "u8 \<Rightarrow> u8" where
  "c_tolower b = (if 65 \<le> b \<and> b \<le> 90 then b + 32 else b)"

text \<open>\<open>strrchr\<close>: the rest of a string from the last occurrence of a character on.\<close>

fun strrchr :: "u8 list \<Rightarrow> u8 \<Rightarrow> u8 list option" where
  "strrchr [] c = None"
| "strrchr (b # bs) c = (case strrchr bs c of Some r \<Rightarrow> Some r | None \<Rightarrow> if b = c then Some (b # bs) else None)"

text \<open>At most seven characters of the extension are compared.\<close>

definition wav_name :: "u8 list \<Rightarrow> bool" where
  "wav_name fname =
     (case strrchr fname 46 of None \<Rightarrow> False
      | Some ext \<Rightarrow> map c_tolower (take 7 ext) = c_lit ''.wav'')"

section \<open>The list\<close>

text \<open>\<open>used\<close> is a byte; the result of the last \<open>f_readdir\<close> is returned with the data.\<close>

fun read_loop :: "dir_result list \<Rightarrow> u8 list \<Rightarrow> u8 \<Rightarrow> (u8 \<times> u8 list \<times> u8) option" where
  "read_loop [] data used = Some (FR_OK, data, used)"
| "read_loop (Dir_Error res # es) data used = Some (res, data, used)"
| "read_loop (Dir_Entry fname fattrib # es) data used =
     (if fname = [] then Some (FR_OK, data, used)
      else if fattrib AND AM_DIR \<noteq> 0 then read_loop es data used
      else if \<not> wav_name fname then read_loop es data used
      else let nlen = of_nat (length fname) :: u16 in
        if unat used + unat nlen + 1 > 255 then Some (FR_OK, data, used)
        else do {
          data \<leftarrow> memcpy data (unat used) fname 0 (unat nlen);
          let used = used + ucast nlen;
          data \<leftarrow> c_store data (uint used) 10;
          read_loop es data (used + 1) })"

text \<open>\<open>None\<close> for the directory is an \<open>f_opendir\<close> that fails: then \<open>*len\<close> keeps its value.\<close>

definition sd_read_files :: "(u8 + dir_result list) \<Rightarrow> u8 list \<Rightarrow> u8 \<Rightarrow> (u8 \<times> u8 list \<times> u8) option" where
  "sd_read_files dir data len =
     (case dir of Inl res \<Rightarrow> Some (res, data, len) | Inr es \<Rightarrow> read_loop es data 0)"

text \<open>The names \<open>sd_print_files\<close> prints, in order.\<close>

fun sd_print_files :: "dir_result list \<Rightarrow> u8 list list" where
  "sd_print_files [] = []"
| "sd_print_files (Dir_Error res # es) = []"
| "sd_print_files (Dir_Entry fname fattrib # es) =
     (if fname = [] then []
      else if fattrib AND (AM_HID OR AM_SYS) \<noteq> 0 then sd_print_files es
      else fname # sd_print_files es)"

section \<open>Specification\<close>

text \<open>The WAV files a directory lists, and those of them that fit, each with its line feed.\<close>

fun wav_files :: "dir_result list \<Rightarrow> u8 list list" where
  "wav_files [] = []"
| "wav_files (Dir_Error res # es) = []"
| "wav_files (Dir_Entry fname fattrib # es) =
     (if fname = [] then []
      else if fattrib AND AM_DIR = 0 \<and> wav_name fname then fname # wav_files es else wav_files es)"

definition lines :: "u8 list list \<Rightarrow> u8 list" where
  "lines names = concat (map (\<lambda>n. n @ [10]) names)"

fun fitting :: "nat \<Rightarrow> u8 list list \<Rightarrow> u8 list list" where
  "fitting room [] = []"
| "fitting room (n # ns) = (if length n + 1 \<le> room then n # fitting (room - length n - 1) ns else [])"

lemma lines_simps [simp]: "lines [] = []" "lines (n # ns) = n @ [10] @ lines ns"
  by (simp_all add: lines_def)

lemma fitting_room: "length (lines (fitting room ns)) \<le> room"
  by (induction room ns rule: fitting.induct) auto

lemma fitting_prefix: "\<exists>rest. ns = fitting room ns @ rest"
  by (induction room ns rule: fitting.induct) auto

definition short_names :: "dir_result list \<Rightarrow> bool" where
  "short_names es \<longleftrightarrow> (\<forall>n a. Dir_Entry n a \<in> set es \<longrightarrow> length n \<le> 255)"

abbreviation read_loop_spec :: "dir_result list \<Rightarrow> u8 list \<Rightarrow> u8 \<Rightarrow> bool" where
  "read_loop_spec es data used \<equiv>
    \<exists>res data'. read_loop es data used = Some (res, data', used + of_nat (length (lines (fitting (255 - unat used) (wav_files es))))) \<and>
      length data' = 255 \<and>
      take (unat used + length (lines (fitting (255 - unat used) (wav_files es)))) data'
        = take (unat used) data @ lines (fitting (255 - unat used) (wav_files es))"

lemma read_entry_law:
  assumes IH: "\<And>data used. length data = 255 \<Longrightarrow> read_loop_spec es data used"
    and len: "length data = 255" and n: "length fname \<le> 255"
  shows "read_loop_spec (Dir_Entry fname fattrib # es) data used"
proof -
  have nlen: "unat (of_nat (length fname) :: u16) = length fname" using n by (intro unat_of_nat_small) simp
  show ?thesis
  proof (cases "fname = [] \<or> fattrib AND AM_DIR \<noteq> 0 \<or> \<not> wav_name fname")
    case True
    then show ?thesis using IH [OF len, of used] len by auto
  next
    case wav: False
    show ?thesis
    proof (cases "unat used + length fname + 1 > 255")
      case True
      then show ?thesis using wav n len nlen by (auto simp: not_le)
    next
      case fit: False
      let ?u = "used + of_nat (length fname)"
      have u8: "ucast (of_nat (length fname) :: u16) = (of_nat (length fname) :: u8)"
        using n by (simp add: word_unat_eq_iff unat_ucast_mod nlen unat_of_nat_small)
      have mc: "memcpy data (unat used) fname 0 (length fname)
          = Some (take (unat used) data @ fname @ drop (unat used + length fname) data)"
        using fit len by (simp add: memcpy_def)
      let ?d = "take (unat used) data @ fname @ drop (unat used + length fname) data"
      have u: "unat ?u = unat used + length fname" and u1: "unat (?u + 1) = unat used + length fname + 1"
        using fit by (simp_all add: word_less_of_nat_add unat_add_bounded)
      have st: "c_store ?d (uint ?u) 10 = Some (take (unat used) data @ fname @ 10 # drop (unat used + length fname + 1) data)"
        using fit len u by (simp add: c_store_unat list_update_append Cons_nth_drop_Suc [symmetric])
      let ?d' = "take (unat used) data @ fname @ 10 # drop (unat used + length fname + 1) data"
      have d': "length ?d' = 255" using fit len by simp
      have run: "read_loop (Dir_Entry fname fattrib # es) data used = read_loop es ?d' (?u + 1)"
        using wav fit nlen mc st u8 by (simp add: Let_def)
      let ?L = "lines (fitting (255 - unat (?u + 1)) (wav_files es))"
      have L: "lines (fitting (255 - unat used) (wav_files (Dir_Entry fname fattrib # es))) = fname @ [10] @ ?L"
        using wav fit u1 by (simp add: diff_diff_left add.assoc)
      obtain res data' where "read_loop es ?d' (?u + 1) = Some (res, data', ?u + 1 + of_nat (length ?L))"
        "length data' = 255" "take (unat (?u + 1) + length ?L) data' = take (unat (?u + 1)) ?d' @ ?L"
        using IH [OF d', of "?u + 1"] by blast
      moreover have "take (unat (?u + 1)) ?d' = take (unat used) data @ fname @ [10]"
        using u1 fit len by simp
      ultimately show ?thesis unfolding run L using u1
        by (auto simp: ac_simps)
    qed
  qed
qed

lemma read_loop_law:
  "short_names es \<Longrightarrow> length data = 255 \<Longrightarrow> read_loop_spec es data used"
proof (induction es arbitrary: data used)
  case Nil
  then show ?case by simp
next
  case (Cons e es)
  show ?case
  proof (cases e)
    case (Dir_Error res)
    then show ?thesis using Cons.prems by simp
  next
    case (Dir_Entry fname fattrib)
    have short: "short_names es" and n: "length fname \<le> 255"
      using Cons.prems(1) Dir_Entry by (auto simp: short_names_def)
    show ?thesis unfolding Dir_Entry using Cons.IH [OF short] Cons.prems(2) n by (rule read_entry_law)
  qed
qed

lemma fitting_maximal:
  "\<exists>rest. ns = fitting room ns @ rest \<and> (rest \<noteq> [] \<longrightarrow> length (lines (fitting room ns @ [hd rest])) > room)"
proof (induction room ns rule: fitting.induct)
  case (2 room n ns)
  show ?case
  proof (cases "length n + 1 \<le> room")
    case True
    with 2 obtain rest where "ns = fitting (room - length n - 1) ns @ rest"
      "rest \<noteq> [] \<longrightarrow> length (lines (fitting (room - length n - 1) ns @ [hd rest])) > room - length n - 1"
      by blast
    then show ?thesis using True by (intro exI [of _ rest]) auto
  qed auto
qed simp

lemma sd_read_files_law:
  assumes "short_names es" and "length data = 255"
  obtains res data' where
    "sd_read_files (Inr es) data len = Some (res, data', of_nat (length (lines (fitting 255 (wav_files es)))))"
    "length data' = 255"
    "take (length (lines (fitting 255 (wav_files es)))) data' = lines (fitting 255 (wav_files es))"
  using read_loop_law [OF assms, of 0] that by (auto simp: sd_read_files_def)

text \<open>
  C34: The list of WAV files never leaves its 255 bytes, and it is the longest one that fits: the first
  \<open>len\<close> bytes are the names of the WAV files in the order of the directory, each followed by a line
  feed, up to but not including the first that does not fit any more. Directories and files with other
  extensions are not in it.
\<close>

theorem wav_list_is_longest_fitting:
  assumes "short_names es" and "length data = 255"
  shows "\<exists>res data' len' names rest. sd_read_files (Inr es) data len = Some (res, data', len') \<and>
    length data' = 255 \<and> wav_files es = names @ rest \<and> take (unat len') data' = lines names \<and>
    (rest \<noteq> [] \<longrightarrow> length (lines (names @ [hd rest])) > 255)"
proof -
  let ?names = "fitting 255 (wav_files es)"
  obtain res data' where r: "sd_read_files (Inr es) data len = Some (res, data', of_nat (length (lines ?names)))"
    "length data' = 255" "take (length (lines ?names)) data' = lines ?names"
    using assms by (rule sd_read_files_law)
  obtain rest where m: "wav_files es = ?names @ rest" "rest \<noteq> [] \<longrightarrow> length (lines (?names @ [hd rest])) > 255"
    using fitting_maximal by blast
  have "length (lines ?names) < 256" using fitting_room [of 255 "wav_files es"] by simp
  then have "take (unat (of_nat (length (lines ?names)) :: u8)) data' = lines ?names"
    using r by simp
  with r m show ?thesis by blast
qed

theorem wav_list_is_longest_fitting_witness:
  "\<exists>res data' len' names rest.
    sd_read_files (Inr [Dir_Entry (c_lit ''BELL.WAV'') 32, Dir_Entry (c_lit ''a.txt'') 32]) (replicate 255 0) 7
      = Some (res, data', len') \<and>
    length data' = 255 \<and>
    wav_files [Dir_Entry (c_lit ''BELL.WAV'') 32, Dir_Entry (c_lit ''a.txt'') 32] = names @ rest \<and>
    take (unat len') data' = lines names \<and> (rest \<noteq> [] \<longrightarrow> length (lines (names @ [hd rest])) > 255)"
  by (rule wav_list_is_longest_fitting) (simp_all add: short_names_def c_lit_def)

text \<open>When the directory cannot be opened nothing is written: the caller's \<open>len\<close> and data stay as they were.\<close>

lemma closed_directory_leaves_output: "sd_read_files (Inl res) data len = Some (res, data, len)"
  by (simp add: sd_read_files_def)

lemma wav_list_example:
  "map_option (\<lambda>(res, data, len). (res, take (unat len) data)) (sd_read_files (Inr [Dir_Entry (c_lit ''SOUND.DIR'') 0x10,
     Dir_Entry (c_lit ''BELL.WAV'') 32, Dir_Entry (c_lit ''a.b.txt'') 32, Dir_Entry (c_lit ''x.wAv'') 0]) (replicate 255 0) 7)
   = Some (FR_OK, c_lit ''BELL.WAV'' @ [10] @ c_lit ''x.wAv'' @ [10])"
  by code_simp

end
