(* ===== verification/Sensors.thy ===== *)
theory Sensors
  imports Complex_Main Prelude "HOL-Library.Monad_Syntax"
begin

text \<open>
  The gas sensors (\<open>Core/Src/features/sensors/mq7.c\<close>, \<open>mq135.c\<close>) and the shared measurement record
  (\<open>Core/Src/common/data_manager.c\<close>). A finite \<open>float\<close> or \<open>double\<close> is a rational, and arithmetic on
  it is exact, except in \<open>ema_filter_rounded\<close>, the filter with the rounding of its operations. Where a result can be infinite or not a number, the value
  is an option and \<open>None\<close> stands for it. The power function of the C library is the argument \<open>powf\<close>.
  The conversions to integers are \<open>None\<close> where C leaves them undefined.
\<close>

section \<open>Conversions\<close>

definition c_trunc :: "rat \<Rightarrow> int" where
  "c_trunc r = (if 0 \<le> r then \<lfloor>r\<rfloor> else \<lceil>r\<rceil>)"

definition c_int :: "rat \<Rightarrow> int option" where
  "c_int r = (let i = c_trunc r in if - 2147483648 \<le> i \<and> i < 2147483648 then Some i else None)"

definition c_uint16 :: "rat \<Rightarrow> u16 option" where
  "c_uint16 r = (let i = c_trunc r in if 0 \<le> i \<and> i < 65536 then Some (word_of_int i) else None)"

lemma c_trunc_nonneg: "0 \<le> r \<Longrightarrow> 0 \<le> c_trunc r \<and> rat_of_int (c_trunc r) \<le> r"
  by (simp add: c_trunc_def)

lemma c_trunc_less:
  assumes "\<bar>r\<bar> < rat_of_int n"
  shows "\<bar>c_trunc r\<bar> < n"
proof (cases "0 \<le> r")
  case True
  then have "0 \<le> \<lfloor>r\<rfloor>" "\<lfloor>r\<rfloor> < n" using assms by (simp_all add: floor_less_iff)
  then show ?thesis using True by (simp add: c_trunc_def)
next
  case False
  then have "\<lceil>r\<rceil> \<le> 0" "- n < \<lceil>r\<rceil>" using assms by (simp_all add: ceiling_le_iff less_ceiling_iff)
  then show ?thesis using False by (simp add: c_trunc_def)
qed

section \<open>The measurement record\<close>

text \<open>The carbon monoxide value is the only one that a sensor can leave infinite.\<close>

record DB_Data_t =
  co_val :: "rat option"
  co2_val :: rat
  temp_val :: rat
  hum_val :: rat
  target_num :: int
  conn_status :: u8

definition Data_Manager_Init :: DB_Data_t where
  "Data_Manager_Init = \<lparr>co_val = Some 0, co2_val = 0, temp_val = 0, hum_val = 0, target_num = 0, conn_status = 0\<rparr>"

definition Data_Manager_SetSensorValues :: "rat option \<Rightarrow> rat \<Rightarrow> DB_Data_t \<Rightarrow> DB_Data_t" where
  "Data_Manager_SetSensorValues co co2 d = d\<lparr>co_val := co, co2_val := co2\<rparr>"

definition Data_Manager_SetTempHumValues :: "rat \<Rightarrow> rat \<Rightarrow> DB_Data_t \<Rightarrow> DB_Data_t" where
  "Data_Manager_SetTempHumValues temp hum d = d\<lparr>temp_val := temp, hum_val := hum\<rparr>"

text \<open>
  \<open>scan\<close> is \<open>sscanf\<close> with the format \<open>%f,%d\<close>: the two values, when it converts both. A null
  pointer is \<open>None\<close>.
\<close>

definition Data_Manager_Update :: "(u8 list \<Rightarrow> (rat \<times> int) option) \<Rightarrow> u8 list option \<Rightarrow> DB_Data_t \<Rightarrow> DB_Data_t" where
  "Data_Manager_Update scan raw_data d =
     (case raw_data of None \<Rightarrow> d
      | Some s \<Rightarrow> (case scan s of Some (temp_co2, temp_num) \<Rightarrow> d\<lparr>co2_val := temp_co2, target_num := temp_num\<rparr>
                   | None \<Rightarrow> d))"

section \<open>Reading a sensor\<close>

record gas_sensor =
  adc_value :: u32
  ema :: "rat option"
  first_run :: u8

definition gas_power_on :: gas_sensor where
  "gas_power_on = \<lparr>adc_value = 0, ema = Some 0, first_run = 1\<rparr>"

text \<open>The 32 conversions; one that does not finish in time is \<open>None\<close> and adds nothing.\<close>

fun adc_sum :: "u32 option list \<Rightarrow> u32" where
  "adc_sum [] = 0"
| "adc_sum (Some v # vs) = v + adc_sum vs"
| "adc_sum (None # vs) = adc_sum vs"

definition ema_filter :: "rat \<Rightarrow> rat option \<Rightarrow> gas_sensor \<Rightarrow> rat option \<times> gas_sensor" where
  "ema_filter alpha current s =
     (if first_run s \<noteq> 0
      then (current, s\<lparr>ema := current, first_run := 0\<rparr>)
      else let e = (do { c \<leftarrow> current; e \<leftarrow> ema s; Some (c * alpha + e * (1 - alpha)) })
           in (e, s\<lparr>ema := e\<rparr>))"

text \<open>
  The same filter in floating point. \<open>rnd 0\<close> to \<open>rnd 3\<close> are the roundings of its four operations; the one
  of a product that the compiler fuses with the sum is the identity. \<open>level\<close> is the conversion to a
  concentration as it is computed, whatever it is. Both sensors read in this way.
\<close>

definition ema_filter_rounded :: "(nat \<Rightarrow> rat \<Rightarrow> rat) \<Rightarrow> rat \<Rightarrow> rat option \<Rightarrow> gas_sensor \<Rightarrow> rat option \<times> gas_sensor" where
  "ema_filter_rounded rnd alpha current s =
     (if first_run s \<noteq> 0
      then (current, s\<lparr>ema := current, first_run := 0\<rparr>)
      else let e = (do { c \<leftarrow> current; e \<leftarrow> ema s; Some (rnd 3 (rnd 1 (c * alpha) + rnd 2 (e * rnd 0 (1 - alpha)))) })
           in (e, s\<lparr>ema := e\<rparr>))"

definition gas_read_rounded :: "(nat \<Rightarrow> rat \<Rightarrow> rat) \<Rightarrow> (u32 \<Rightarrow> rat option) \<Rightarrow> rat \<Rightarrow> u32 option list \<Rightarrow> gas_sensor \<Rightarrow>
    rat option \<times> gas_sensor" where
  "gas_read_rounded rnd level alpha conversions s =
     (let v = adc_sum conversions div 32
      in ema_filter_rounded rnd alpha (level v) (s\<lparr>adc_value := v\<rparr>))"

definition SENSOR_ALPHA :: rat where "SENSOR_ALPHA = 1 / 10"

definition protocol_data :: "rat option \<Rightarrow> u8 list option" where
  "protocol_data v = do { r \<leftarrow> v; ppm \<leftarrow> c_uint16 r; Some [hi8 ppm, lo8 ppm] }"

section \<open>MQ-7: carbon monoxide\<close>

definition RL :: rat where "RL = 10"
definition R0 :: rat where "R0 = 15"

definition MQ7_Init :: "gas_sensor \<Rightarrow> gas_sensor" where
  "MQ7_Init s = s\<lparr>first_run := 1, ema := Some 0\<rparr>"

definition ADC_to_CO :: "(rat \<Rightarrow> rat \<Rightarrow> rat option) \<Rightarrow> u32 \<Rightarrow> rat option" where
  "ADC_to_CO powf adc_val =
     (let voltage = (of_int (uint adc_val) / 4095) * (33 / 10) in
      if voltage = 0 then Some 0
      else let rs = ((33 / 10 - voltage) / voltage) * RL;
               ratio = rs / R0
           in map_option (\<lambda>p. (98322 / 1000) * p) (powf ratio (- 1458 / 1000)))"

definition MQ7_ReadCO :: "(rat \<Rightarrow> rat \<Rightarrow> rat option) \<Rightarrow> u32 option list \<Rightarrow> rat \<Rightarrow> gas_sensor \<Rightarrow> rat option \<times> gas_sensor" where
  "MQ7_ReadCO powf conversions alpha s =
     (let v = adc_sum conversions div 32
      in ema_filter alpha (ADC_to_CO powf v) (s\<lparr>adc_value := v\<rparr>))"

definition MQ7_GetProtocolData :: "(rat \<Rightarrow> rat \<Rightarrow> rat option) \<Rightarrow> u32 option list \<Rightarrow> gas_sensor \<Rightarrow> u8 list option \<times> gas_sensor" where
  "MQ7_GetProtocolData powf conversions s =
     (case MQ7_ReadCO powf conversions SENSOR_ALPHA s of (v, s) \<Rightarrow> (protocol_data v, s))"

section \<open>MQ-135: carbon dioxide\<close>

definition ADC_VREF :: rat where "ADC_VREF = 33 / 10"
definition ADC_DIVIDER_GAIN :: rat where "ADC_DIVIDER_GAIN = 2"
definition VC :: rat where "VC = 5"
definition RL_KOHM :: rat where "RL_KOHM = 10"
definition R0_KOHM :: rat where "R0_KOHM = 20"
definition CURVE_A :: rat where "CURVE_A = 1166020682 / 10000000"
definition CURVE_B :: rat where "CURVE_B = - 2769034857 / 1000000000"
definition CAL_GAIN :: rat where "CAL_GAIN = 5"
definition CAL_OFFSET :: rat where "CAL_OFFSET = 0"
definition MODEL_MIN_VALID_PPM :: rat where "MODEL_MIN_VALID_PPM = 100"
definition FALLBACK_LINEAR_PPM_PER_V :: rat where "FALLBACK_LINEAR_PPM_PER_V = 1200"
definition CO2_MAX_CLAMP_PPM :: rat where "CO2_MAX_CLAMP_PPM = 5000"

definition MQ135_Init :: "gas_sensor \<Rightarrow> gas_sensor" where
  "MQ135_Init s = s\<lparr>first_run := 1, ema := Some 0\<rparr>"

definition co2_clamp :: "rat \<Rightarrow> rat" where
  "co2_clamp co2 =
     (let co2 = (if co2 < 0 then 0 else co2)
      in if co2 > CO2_MAX_CLAMP_PPM then CO2_MAX_CLAMP_PPM else co2)"

definition ADC_to_CO2 :: "(rat \<Rightarrow> rat \<Rightarrow> rat option) \<Rightarrow> u32 \<Rightarrow> rat" where
  "ADC_to_CO2 powf adc_val =
     (let adc_voltage = (of_int (uint adc_val) / 4095) * ADC_VREF;
          sensor_voltage = adc_voltage * ADC_DIVIDER_GAIN
      in if sensor_voltage \<le> 1 / 100 then 0
      else let sensor_voltage = (if sensor_voltage \<ge> VC - 1 / 100 then VC - 1 / 100 else sensor_voltage);
               rs = ((VC - sensor_voltage) / sensor_voltage) * RL_KOHM;
               rs = (if rs \<le> 1 / 100 then 1 / 100 else rs);
               ratio = rs / R0_KOHM;
               ratio = (if ratio \<le> 1 / 1000 then 1 / 1000 else ratio);
               co2_model = map_option (\<lambda>p. CURVE_A * p) (powf ratio CURVE_B);
               fallback = sensor_voltage * FALLBACK_LINEAR_PPM_PER_V;
               co2 = (case co2_model of None \<Rightarrow> fallback
                      | Some m \<Rightarrow> if m < MODEL_MIN_VALID_PPM then fallback else m);
               co2 = co2 * CAL_GAIN + CAL_OFFSET
           in co2_clamp co2)"

definition MQ135_ReadCO2 :: "(rat \<Rightarrow> rat \<Rightarrow> rat option) \<Rightarrow> u32 option list \<Rightarrow> rat \<Rightarrow> gas_sensor \<Rightarrow> rat option \<times> gas_sensor" where
  "MQ135_ReadCO2 powf conversions alpha s =
     (let v = adc_sum conversions div 32
      in ema_filter alpha (Some (ADC_to_CO2 powf v)) (s\<lparr>adc_value := v\<rparr>))"

definition MQ135_GetProtocolData :: "(rat \<Rightarrow> rat \<Rightarrow> rat option) \<Rightarrow> u32 option list \<Rightarrow> gas_sensor \<Rightarrow> u8 list option \<times> gas_sensor" where
  "MQ135_GetProtocolData powf conversions s =
     (case MQ135_ReadCO2 powf conversions SENSOR_ALPHA s of (v, s) \<Rightarrow> (protocol_data v, s))"

section \<open>The filter the sensors share\<close>

text \<open>The values of one reading after the other.\<close>

fun read_all :: "('c \<Rightarrow> gas_sensor \<Rightarrow> rat option \<times> gas_sensor) \<Rightarrow> 'c list \<Rightarrow> gas_sensor \<Rightarrow> rat option list" where
  "read_all reading [] s = []"
| "read_all reading (conv # convs) s = (case reading conv s of (v, s) \<Rightarrow> v # read_all reading convs s)"

lemma between_weighted:
  fixes a :: rat
  assumes "0 \<le> a" "a \<le> 1" "lo \<le> c" "c \<le> hi" "lo \<le> e" "e \<le> hi"
  shows "lo \<le> c * a + e * (1 - a)" and "c * a + e * (1 - a) \<le> hi"
proof -
  have "lo * a \<le> c * a" "lo * (1 - a) \<le> e * (1 - a)" "c * a \<le> hi * a" "e * (1 - a) \<le> hi * (1 - a)"
    using assms by (simp_all add: mult_right_mono)
  then show "lo \<le> c * a + e * (1 - a)" "c * a + e * (1 - a) \<le> hi" by (simp_all add: algebra_simps)
qed

text \<open>
  The interface of a filtered sensor: a reading is the filter applied to a level that the conversions
  determine. What follows from it is how the filter stays within bounds, how it settles, and that it never
  recovers from an infinite level.
\<close>

locale filtered_sensor =
  fixes reading :: "rat \<Rightarrow> u32 option list \<Rightarrow> gas_sensor \<Rightarrow> rat option \<times> gas_sensor"
    and level :: "u32 \<Rightarrow> rat option"
  assumes filters: "reading alpha conv s = ema_filter alpha (level (adc_sum conv div 32)) (s\<lparr>adc_value := adc_sum conv div 32\<rparr>)"
begin

lemma reading_between:
  assumes "ema s = Some e" "lo \<le> e" "e \<le> hi" and "level (adc_sum conv div 32) = Some c" "lo \<le> c" "c \<le> hi"
    and "0 \<le> alpha" "alpha \<le> 1"
  obtains v g where "reading alpha conv s = (Some v, g)" "ema g = Some v" "lo \<le> v" "v \<le> hi"
proof -
  let ?v = "if first_run s \<noteq> 0 then c else c * alpha + e * (1 - alpha)"
  have "lo \<le> ?v" "?v \<le> hi" using between_weighted [of alpha lo c hi e] assms by simp_all
  moreover have "fst (reading alpha conv s) = Some ?v" "ema (snd (reading alpha conv s)) = Some ?v"
    using assms by (simp_all add: filters ema_filter_def Let_def)
  ultimately show ?thesis by (intro that [of ?v "snd (reading alpha conv s)"]) (simp_all add: prod_eq_iff)
qed

lemma read_all_between:
  "ema s = Some e \<Longrightarrow> lo \<le> e \<Longrightarrow> e \<le> hi \<Longrightarrow> 0 \<le> alpha \<Longrightarrow> alpha \<le> 1 \<Longrightarrow>
   \<forall>conv \<in> set convs. \<exists>c. level (adc_sum conv div 32) = Some c \<and> lo \<le> c \<and> c \<le> hi \<Longrightarrow>
   list_all (\<lambda>v. \<exists>r. v = Some r \<and> lo \<le> r \<and> r \<le> hi) (read_all (reading alpha) convs s)"
proof (induction convs arbitrary: s e)
  case (Cons conv convs)
  from Cons.prems(6) obtain c where "level (adc_sum conv div 32) = Some c" "lo \<le> c" "c \<le> hi" by auto
  with Cons.prems obtain v g where "reading alpha conv s = (Some v, g)" "ema g = Some v" "lo \<le> v" "v \<le> hi"
    by (elim reading_between [of s e lo hi conv c alpha]) auto
  with Cons show ?case by simp
qed simp

lemma first_reading:
  "first_run s \<noteq> 0 \<Longrightarrow> reading alpha conv s = (level (adc_sum conv div 32),
     s\<lparr>adc_value := adc_sum conv div 32, ema := level (adc_sum conv div 32), first_run := 0\<rparr>)"
  by (simp add: filters ema_filter_def)

text \<open>At a constant level the distance to it shrinks by the same factor with every reading.\<close>

lemma settles:
  "first_run s = 0 \<Longrightarrow> ema s = Some e \<Longrightarrow> level v = Some c \<Longrightarrow> \<forall>conv \<in> set convs. adc_sum conv div 32 = v \<Longrightarrow>
   read_all (reading alpha) convs s = map (\<lambda>n. Some (c + (e - c) * (1 - alpha) ^ Suc n)) [0..<length convs]"
proof (induction convs arbitrary: s e)
  case (Cons conv convs)
  define e' where "e' = c + (e - c) * (1 - alpha)"
  have e': "c * alpha + e * (1 - alpha) = e'" by (simp add: e'_def algebra_simps)
  let ?s = "s\<lparr>adc_value := v, ema := Some e'\<rparr>"
  have "reading alpha conv s = (Some e', ?s)" using Cons.prems by (simp add: filters ema_filter_def Let_def e')
  moreover have "read_all (reading alpha) convs ?s = map (\<lambda>n. Some (c + (e' - c) * (1 - alpha) ^ Suc n)) [0..<length convs]"
    using Cons.prems by (intro Cons.IH) simp_all
  moreover have "(e' - c) * (1 - alpha) ^ Suc n = (e - c) * (1 - alpha) ^ Suc (Suc n)" for n by (simp add: e'_def)
  ultimately show ?case
    by (simp add: upt_conv_Cons map_Suc_upt [symmetric] e'_def o_def del: upt_Suc power_Suc)
qed simp

lemma stays_lost:
  "first_run s = 0 \<Longrightarrow> ema s = None \<Longrightarrow> read_all (reading alpha) convs s = replicate (length convs) None"
  by (induction convs arbitrary: s) (simp_all add: filters ema_filter_def Let_def)

lemma lost_for_ever:
  assumes "level (adc_sum conv div 32) = None"
  shows "read_all (reading alpha) (conv # convs) s = replicate (Suc (length convs)) None"
  using assms by (cases "first_run s = 0") (simp_all add: filters ema_filter_def Let_def stays_lost)

end

interpretation co: filtered_sensor "\<lambda>alpha conv. MQ7_ReadCO powf conv alpha" "ADC_to_CO powf" for powf
  by unfold_locales (simp add: MQ7_ReadCO_def Let_def)

interpretation co2: filtered_sensor "\<lambda>alpha conv. MQ135_ReadCO2 powf conv alpha" "\<lambda>v. Some (ADC_to_CO2 powf v)" for powf
  by unfold_locales (simp add: MQ135_ReadCO2_def Let_def)

section \<open>Bounds\<close>

lemma CO2_bounds: "0 \<le> ADC_to_CO2 powf v \<and> ADC_to_CO2 powf v \<le> 5000"
proof -
  have "0 \<le> co2_clamp c \<and> co2_clamp c \<le> 5000" for c
    by (simp add: co2_clamp_def CO2_MAX_CLAMP_PPM_def Let_def)
  then show ?thesis unfolding ADC_to_CO2_def Let_def by simp
qed

definition co2_inv :: "gas_sensor \<Rightarrow> bool" where
  "co2_inv s \<longleftrightarrow> (\<exists>e. ema s = Some e \<and> 0 \<le> e \<and> e \<le> 5000)"

lemma co2_read_inv:
  assumes "co2_inv s" and "0 \<le> alpha" "alpha \<le> 1"
  shows "\<exists>v. fst (MQ135_ReadCO2 powf conv alpha s) = Some v \<and> 0 \<le> v \<and> v \<le> 5000 \<and>
    co2_inv (snd (MQ135_ReadCO2 powf conv alpha s))"
  using assms CO2_bounds [of powf "adc_sum conv div 32"]
  by (auto simp: co2_inv_def elim!: co2.reading_between [of s _ 0 5000 powf conv _ alpha])

text \<open>Twelve-bit conversions: their sum does not wrap, and the mean is of twelve bits.\<close>

lemma adc_sum_exact:
  assumes "length vs \<le> 32" and "\<forall>v \<in> set vs. case v of None \<Rightarrow> True | Some w \<Rightarrow> unat w \<le> 4095"
  shows "unat (adc_sum vs) = (\<Sum>v\<leftarrow>vs. case v of None \<Rightarrow> 0 | Some w \<Rightarrow> unat w)"
proof -
  have "unat (adc_sum vs) = (\<Sum>v\<leftarrow>vs. case v of None \<Rightarrow> 0 | Some w \<Rightarrow> unat w) \<and>
      (\<Sum>v\<leftarrow>vs. case v of None \<Rightarrow> 0 | Some w \<Rightarrow> unat w) \<le> 4095 * length vs"
    using assms
  proof (induction vs)
    case (Cons v vs)
    then have ih: "unat (adc_sum vs) = (\<Sum>v\<leftarrow>vs. case v of None \<Rightarrow> 0 | Some w \<Rightarrow> unat w)"
      "(\<Sum>v\<leftarrow>vs. case v of None \<Rightarrow> 0 | Some w \<Rightarrow> unat w) \<le> 4095 * length vs" by auto
    show ?case
    proof (cases v)
      case (Some w)
      then have "unat w + unat (adc_sum vs) < 2 ^ 32" using Cons.prems ih by simp
      then have "unat (w + adc_sum vs) = unat w + unat (adc_sum vs)"
        using unat_add_lem [of w "adc_sum vs"] by simp
      then show ?thesis using Some Cons.prems ih by simp
    qed (use ih in simp)
  qed simp
  then show ?thesis by blast
qed

text \<open>A conversion that fails counts as the value 0: the sum is divided by 32 all the same.\<close>

lemma failed_conversion_lowers_mean:
  assumes "length vs = 32" and "\<forall>v \<in> set vs. v \<in> {None, Some w}" and "unat w \<le> 4095"
  shows "unat (adc_sum vs div 32) = length (filter (\<lambda>v. v \<noteq> None) vs) * unat w div 32"
proof -
  have "(\<Sum>v\<leftarrow>vs. case v of None \<Rightarrow> 0 | Some w \<Rightarrow> unat w) = length (filter (\<lambda>v. v \<noteq> None) vs) * unat w"
    using assms(2) by (induction vs) auto
  moreover have "unat (adc_sum vs) = (\<Sum>v\<leftarrow>vs. case v of None \<Rightarrow> 0 | Some w \<Rightarrow> unat w)"
    using assms by (intro adc_sum_exact) auto
  ultimately show ?thesis by (simp add: unat_div)
qed

section \<open>The filter in floating point\<close>

text \<open>Without rounding it is the filter above, and the readings of both sensors are of this form.\<close>

lemma exact_filter: "ema_filter_rounded (\<lambda>_ x. x) = ema_filter"
  by (intro ext) (simp add: ema_filter_rounded_def ema_filter_def)

lemma exact_readings:
  "MQ7_ReadCO powf conv alpha = gas_read_rounded (\<lambda>_ x. x) (ADC_to_CO powf) alpha conv"
  "MQ135_ReadCO2 powf conv alpha = gas_read_rounded (\<lambda>_ x. x) (\<lambda>v. Some (ADC_to_CO2 powf v)) alpha conv"
  by (intro ext, simp add: MQ7_ReadCO_def MQ135_ReadCO2_def gas_read_rounded_def exact_filter)+

text \<open>With exact arithmetic the distance to a constant level shrinks by the same factor with every reading.\<close>

lemma gas_readings_exact:
  assumes "adc_sum conv0 div 32 = v0" and "\<forall>conv \<in> set convs. adc_sum conv div 32 = v"
    and "ADC_to_CO powf v0 = Some c0" and "ADC_to_CO powf v = Some c"
  shows "read_all (\<lambda>conv. MQ7_ReadCO powf conv alpha) (conv0 # convs) (MQ7_Init s)
      = Some c0 # map (\<lambda>n. Some (c + (c0 - c) * (1 - alpha) ^ Suc n)) [0..<length convs] \<and>
    read_all (\<lambda>conv. MQ135_ReadCO2 powf conv alpha) (conv0 # convs) (MQ135_Init s)
      = Some (ADC_to_CO2 powf v0) # map (\<lambda>n. Some (ADC_to_CO2 powf v
          + (ADC_to_CO2 powf v0 - ADC_to_CO2 powf v) * (1 - alpha) ^ Suc n)) [0..<length convs]"
proof -
  have "first_run (MQ7_Init s) \<noteq> 0" "first_run (MQ135_Init s) \<noteq> 0" by (simp_all add: MQ7_Init_def MQ135_Init_def)
  from co.first_reading [OF this(1)] co2.first_reading [OF this(2)] show ?thesis
    using assms(1,3) by (simp add: co.settles [OF _ _ assms(4,2)] co2.settles [OF _ _ refl assms(2)])
qed

text \<open>
  A rounding is off by at most \<open>d\<close> on the numbers up to \<open>M\<close>: for single precision without overflow,
  \<open>d = M / 2 ^ 24\<close> does for the normal numbers. The rounding errors of one step, and of the weights,
  add up to what \<open>filter_error\<close> says.
\<close>

definition rounds_within :: "(nat \<Rightarrow> rat \<Rightarrow> rat) \<Rightarrow> rat \<Rightarrow> rat \<Rightarrow> bool" where
  "rounds_within rnd M d \<longleftrightarrow> (\<forall>i x. \<bar>x\<bar> \<le> M \<longrightarrow> \<bar>rnd i x - x\<bar> \<le> d)"

definition filter_error :: "rat \<Rightarrow> rat \<Rightarrow> rat \<Rightarrow> rat \<Rightarrow> rat" where
  "filter_error alpha beta d c = (\<bar>alpha + beta - 1\<bar> * \<bar>c\<bar> + 3 * d) / (1 - beta)"

lemma abs_weighted: "0 \<le> a \<Longrightarrow> a \<le> 1 \<Longrightarrow> \<bar>c * a\<bar> \<le> \<bar>c :: rat\<bar>"
  by (simp add: abs_mult mult_left_le)

lemma rounded_step:
  assumes "0 \<le> alpha" "alpha \<le> 1" "0 \<le> beta" "beta < 1" and rnd: "rounds_within rnd M d"
    and D: "0 \<le> D" "\<bar>e - c\<bar> \<le> D + filter_error alpha beta d c"
    and M: "2 * \<bar>c\<bar> + D + filter_error alpha beta d c + 2 * d \<le> M" and d: "0 \<le> d"
  shows "\<bar>rnd 3 (rnd 1 (c * alpha) + rnd 2 (e * beta)) - c\<bar> \<le> D * beta + filter_error alpha beta d c"
proof -
  define F where "F = filter_error alpha beta d c"
  have F: "F * (1 - beta) = \<bar>alpha + beta - 1\<bar> * \<bar>c\<bar> + 3 * d" "0 \<le> F"
    using assms(4) d by (simp_all add: F_def filter_error_def)
  have near: "\<bar>x\<bar> \<le> M \<Longrightarrow> \<bar>rnd i x - x\<bar> \<le> d" for i x using rnd by (simp add: rounds_within_def)
  define p q where "p = rnd 1 (c * alpha)" and "q = rnd 2 (e * beta)"
  have c: "\<bar>c * alpha\<bar> \<le> \<bar>c\<bar>" and e: "\<bar>e * beta\<bar> \<le> \<bar>e\<bar>"
    using assms(1-4) by (simp_all add: abs_weighted)
  have room: "\<bar>e\<bar> \<le> \<bar>c\<bar> + D + F" "2 * \<bar>c\<bar> + D + F + 2 * d \<le> M" using D(2) M unfolding F_def by linarith+
  have p: "\<bar>p - c * alpha\<bar> \<le> d" unfolding p_def by (rule near) (use c room D(1) F(2) d in linarith)
  have q: "\<bar>q - e * beta\<bar> \<le> d" unfolding q_def by (rule near) (use e room D(1) F(2) d in linarith)
  have z: "\<bar>rnd 3 (p + q) - (p + q)\<bar> \<le> d" by (rule near) (use p q c e room in linarith)
  have "\<bar>(e - c) * beta\<bar> \<le> (D + F) * beta"
    using D(2) assms(3) unfolding F_def abs_mult by (simp add: mult_right_mono)
  moreover have "\<bar>(alpha + beta - 1) * c\<bar> = \<bar>alpha + beta - 1\<bar> * \<bar>c\<bar>" by (rule abs_mult)
  moreover have "c * alpha + e * beta - c = (alpha + beta - 1) * c + (e - c) * beta" by (simp add: algebra_simps)
  moreover have "(D + F) * beta + F * (1 - beta) = D * beta + F" by (simp add: algebra_simps)
  ultimately have "\<bar>rnd 3 (p + q) - c\<bar> \<le> D * beta + F" using p q z F(1) by linarith
  then show ?thesis by (simp add: p_def q_def F_def)
qed

lemma rounded_settles:
  assumes "0 \<le> alpha" "alpha \<le> 1" "0 \<le> rnd 0 (1 - alpha)" "rnd 0 (1 - alpha) < 1" "rounds_within rnd M d" "0 \<le> d"
    and v: "\<forall>conv \<in> set convs. adc_sum conv div 32 = v" "level v = Some c"
  shows "first_run s = 0 \<Longrightarrow> ema s = Some e \<Longrightarrow> 0 \<le> D \<Longrightarrow> \<bar>e - c\<bar> \<le> D + filter_error alpha (rnd 0 (1 - alpha)) d c \<Longrightarrow>
    2 * \<bar>c\<bar> + D + filter_error alpha (rnd 0 (1 - alpha)) d c + 2 * d \<le> M \<Longrightarrow>
    \<exists>rs. read_all (gas_read_rounded rnd level alpha) convs s = map Some rs \<and> length rs = length convs \<and>
      (\<forall>n < length rs. \<bar>rs ! n - c\<bar> \<le> D * rnd 0 (1 - alpha) ^ Suc n + filter_error alpha (rnd 0 (1 - alpha)) d c)"
  using v(1)
proof (induction convs arbitrary: s e D)
  case (Cons conv convs)
  let ?b = "rnd 0 (1 - alpha)"
  define e' where "e' = rnd 3 (rnd 1 (c * alpha) + rnd 2 (e * ?b))"
  let ?s = "s\<lparr>adc_value := v, ema := Some e'\<rparr>"
  have step: "\<bar>e' - c\<bar> \<le> D * ?b + filter_error alpha ?b d c"
    unfolding e'_def by (rule rounded_step [OF assms(1-5)]) (use Cons.prems assms(6) in simp_all)
  have Db: "0 \<le> D * ?b" "D * ?b \<le> D" using assms(3,4) Cons.prems(3) by (simp_all add: mult_left_le)
  have "gas_read_rounded rnd level alpha conv s = (Some e', ?s)"
    using Cons.prems(1,2,6) v(2) by (simp add: gas_read_rounded_def ema_filter_rounded_def e'_def Let_def)
  moreover have "\<exists>rs. read_all (gas_read_rounded rnd level alpha) convs ?s = map Some rs \<and> length rs = length convs \<and>
      (\<forall>n < length rs. \<bar>rs ! n - c\<bar> \<le> (D * ?b) * ?b ^ Suc n + filter_error alpha ?b d c)"
    by (rule Cons.IH) (use step Db Cons.prems in simp_all)
  then obtain rs where "read_all (gas_read_rounded rnd level alpha) convs ?s = map Some rs" "length rs = length convs"
    "\<forall>n < length rs. \<bar>rs ! n - c\<bar> \<le> (D * ?b) * ?b ^ Suc n + filter_error alpha ?b d c" by blast
  ultimately show ?case using step
    by (intro exI [of _ "e' # rs"]) (auto simp: nth_Cons mult.assoc split: nat.split)
qed simp

section \<open>Properties\<close>

text \<open>
  C26: Whatever the converter delivers, finished or not, and whatever the power function returns,
  every filtered carbon dioxide value read after \<open>MQ135_Init\<close> is a number from 0 to 5000.
\<close>

lemma co2_filter_bounded:
  assumes "0 \<le> alpha" and "alpha \<le> 1"
  shows "list_all (\<lambda>v. \<exists>r. v = Some r \<and> 0 \<le> r \<and> r \<le> 5000)
    (read_all (\<lambda>conv. MQ135_ReadCO2 powf conv alpha) convs (MQ135_Init s))"
  by (rule co2.read_all_between [of _ 0]) (use assms CO2_bounds in \<open>simp_all add: MQ135_Init_def\<close>)

lemma co2_filter_bounded_witness:
  "list_all (\<lambda>v. \<exists>r. v = Some r \<and> 0 \<le> r \<and> r \<le> 5000)
    (read_all (\<lambda>conv. MQ135_ReadCO2 (\<lambda>_ _. None) conv SENSOR_ALPHA) [replicate 32 (Some 4095), replicate 32 None]
      (MQ135_Init gas_power_on))"
  by (rule co2_filter_bounded) (simp_all add: SENSOR_ALPHA_def)

text \<open>
  C27: Both sensors settle on what they measure, in floating point too. The first reading after the
  initialisation is the measured level itself. When it is finite and the level then stays at another finite one, the distance of
  the readings to it is reduced by the weight \<open>beta\<close> of the old average, less than 1, with every reading, up to a rest
  that the rounding leaves: with roundings off by at most \<open>d\<close> in the range that occurs, the rest is
  \<open>filter_error\<close>, the inexactness of \<open>beta\<close> times the level and three roundings, over \<open>1 - beta\<close>.
\<close>

theorem gas_readings_settle:
  assumes "0 \<le> alpha" "alpha \<le> 1" and "beta = rnd 0 (1 - alpha)" "0 \<le> beta" "beta < 1"
    and "rounds_within rnd M d" and "0 \<le> d"
    and "2 * \<bar>c\<bar> + \<bar>c0 - c\<bar> + filter_error alpha beta d c + 2 * d \<le> M"
    and "level (adc_sum conv0 div 32) = Some c0"
    and "\<forall>conv \<in> set convs. adc_sum conv div 32 = v" and "level v = Some c" and "start \<in> {MQ7_Init s, MQ135_Init s}"
  shows "\<exists>rs. read_all (gas_read_rounded rnd level alpha) (conv0 # convs) start = Some c0 # map Some rs \<and>
    length rs = length convs \<and>
    (\<forall>n < length rs. \<bar>rs ! n - c\<bar> \<le> \<bar>c0 - c\<bar> * beta ^ Suc n + filter_error alpha beta d c)"
proof -
  let ?s = "start\<lparr>adc_value := adc_sum conv0 div 32, ema := Some c0, first_run := 0\<rparr>"
  have "first_run start \<noteq> 0" using assms(12) by (auto simp: MQ7_Init_def MQ135_Init_def)
  then have "gas_read_rounded rnd level alpha conv0 start = (Some c0, ?s)"
    using assms(9) by (simp add: gas_read_rounded_def ema_filter_rounded_def)
  moreover have "0 \<le> filter_error alpha beta d c" using assms(5,7) by (simp add: filter_error_def)
  ultimately show ?thesis
    using rounded_settles [of alpha rnd M d convs v level c ?s c0 "\<bar>c0 - c\<bar>"] assms(1-8,10,11) by simp
qed

text \<open>Roundings down to multiples of 1/1024.\<close>

lemma gas_readings_settle_witness:
  "\<exists>rs. read_all (gas_read_rounded (\<lambda>_ x. of_int \<lfloor>x * 1024\<rfloor> / 1024) (\<lambda>v. Some (of_int (uint v))) (1 / 10))
      (replicate 32 (Some 0) # [replicate 32 (Some 9), replicate 32 (Some 9)]) (MQ7_Init gas_power_on) = Some 0 # map Some rs \<and>
    length rs = length [replicate 32 (Some (9 :: u32)), replicate 32 (Some 9)] \<and>
    (\<forall>n < length rs. \<bar>rs ! n - 9\<bar> \<le> \<bar>0 - 9\<bar> * (921 / 1024) ^ Suc n + filter_error (1 / 10) (921 / 1024) (1 / 1024) 9)"
proof (rule gas_readings_settle [where M = 100 and v = 9 and s = gas_power_on])
  have "\<bar>of_int \<lfloor>x * 1024\<rfloor> / 1024 - x\<bar> \<le> (1 / 1024 :: rat)" for x by linarith
  then show "rounds_within (\<lambda>_ x. of_int \<lfloor>x * 1024\<rfloor> / 1024) 100 (1 / 1024)" by (simp add: rounds_within_def)
  show "\<forall>conv \<in> set [replicate 32 (Some (9 :: u32)), replicate 32 (Some 9)]. adc_sum conv div 32 = 9" by code_simp
  have "adc_sum (replicate 32 (Some 0)) div 32 = 0" by code_simp
  then show "Some (rat_of_int (uint (adc_sum (replicate 32 (Some 0)) div 32))) = Some 0" by simp
qed (simp_all add: filter_error_def floor_unique)

text \<open>
  C28: The carbon monoxide reading never recovers from one infinite level. When a run of conversions gives no
  finite concentration, as it does at the full scale of the converter, where the resistance ratio is 0, then this
  and every later reading is infinite or not a number, whatever the sensor measures.
\<close>

theorem co_never_recovers:
  assumes "powf 0 (- 1458 / 1000) = None" and "adc_sum conv div 32 = 4095"
  shows "read_all (\<lambda>conv. MQ7_ReadCO powf conv alpha) (conv # convs) s = replicate (Suc (length convs)) None"
  by (rule co.lost_for_ever) (use assms in \<open>simp add: ADC_to_CO_def Let_def\<close>)

lemma co_never_recovers_witness:
  "read_all (\<lambda>conv. MQ7_ReadCO (\<lambda>b e. if b = 0 then None else Some 1) conv (1 / 10))
      [replicate 32 (Some 4095), replicate 32 (Some 0), replicate 32 (Some 100)] gas_power_on = [None, None, None]"
proof -
  have "adc_sum (replicate 32 (Some 4095)) div 32 = 4095" by code_simp
  from co_never_recovers [OF _ this, of "\<lambda>b e. if b = 0 then None else Some 1" "1 / 10"
      "[replicate 32 (Some 0), replicate 32 (Some 100)]" gas_power_on]
  show ?thesis by simp
qed

end
