(* ===== verification/Matrix_Run.thy ===== *)
theory Matrix_Run
  imports Prelude Machine
begin

text \<open>
  \<open>Core/Src/features/display/matrix_run.c\<close>: which screen the LED matrix shows and when it is
  redrawn. The record holds the file's static variables (the two \<open>int8_t\<close> ones as integers, with
  the conversion written out). Every operation returns the calls it makes to the other
  components, in order, beside the new state; each result of \<open>HAL_GetTick\<close> is an argument.
  Diagnostic \<open>printf\<close>s are left out.
\<close>

section \<open>State and calls\<close>

definition SCREEN_DASHBOARD :: u8 where "SCREEN_DASHBOARD = 0"
definition SCREEN_CO2 :: u8 where "SCREEN_CO2 = 1"
definition SCREEN_TEMP_HUM :: u8 where "SCREEN_TEMP_HUM = 2"
definition SCREEN_TRAIN :: u8 where "SCREEN_TRAIN = 3"

definition DASHBOARD_REFRESH_MS :: u32 where "DASHBOARD_REFRESH_MS = 5000"
definition TRAIN_ANIM_REFRESH_MS :: u32 where "TRAIN_ANIM_REFRESH_MS = 120"
definition DASHBOARD_GUIDE_TOGGLE_MS :: u32 where "DASHBOARD_GUIDE_TOGGLE_MS = 2000"
definition TRAIN_EVENT_SHOW_MS :: u32 where "TRAIN_EVENT_SHOW_MS = 10000"
definition DASHBOARD_SHOW_MS :: u32 where "DASHBOARD_SHOW_MS = 10000"
definition GAS_SHOW_MS :: u32 where "GAS_SHOW_MS = 5000"
definition TEMP_HUM_SHOW_MS :: u32 where "TEMP_HUM_SHOW_MS = 5000"

lemmas screen_defs = SCREEN_DASHBOARD_def SCREEN_CO2_def SCREEN_TEMP_HUM_def SCREEN_TRAIN_def

lemmas ms_defs = DASHBOARD_REFRESH_MS_def TRAIN_ANIM_REFRESH_MS_def DASHBOARD_GUIDE_TOGGLE_MS_def
  TRAIN_EVENT_SHOW_MS_def DASHBOARD_SHOW_MS_def GAS_SHOW_MS_def TEMP_HUM_SHOW_MS_def

record matrix =
  congestion_status :: "u8 list"
  dashboard_dirty :: u8
  current_screen :: u8
  auto_cycle_enabled :: u8
  train_dest_code :: u8
  train_event_active :: u8
  dashboard_guide_mode :: u8
  train_text_offset_x :: int
  train_text_offset_dir :: int
  last_refresh_tick :: u32
  last_switch_tick :: u32
  last_dashboard_mode_tick :: u32
  train_event_start_tick :: u32

definition matrix_power_on :: matrix where
  "matrix_power_on = \<lparr>congestion_status = [2, 0, 1, 1, 0, 2, 1, 0], dashboard_dirty = 1,
     current_screen = 0, auto_cycle_enabled = 1, train_dest_code = 0, train_event_active = 0,
     dashboard_guide_mode = 0, train_text_offset_x = 0, train_text_offset_dir = 1,
     last_refresh_tick = 0, last_switch_tick = 0, last_dashboard_mode_tick = 0,
     train_event_start_tick = 0\<rparr>"

text \<open>The calls to the drawing functions and to the player.\<close>

datatype call =
    Call_Clear
  | Call_StatusRow "u8 list" u8
  | Call_Border
  | Call_CO2
  | Call_TempHum
  | Call_Train u8 int
  | Call_Guide "u8 list"

definition int8 :: "int \<Rightarrow> int" where
  "int8 x = (x + 128) mod 256 - 128"

lemma int8_id: "- 128 \<le> x \<Longrightarrow> x < 128 \<Longrightarrow> int8 x = x"
  by (simp add: int8_def)

section \<open>Operations\<close>

definition MatrixRun_ShowDashboard :: "matrix \<Rightarrow> call list" where
  "MatrixRun_ShowDashboard s =
     [Call_StatusRow (congestion_status s) (dashboard_guide_mode s), Call_Border]"

definition MatrixRun_Init :: "u32 \<Rightarrow> u32 \<Rightarrow> u32 \<Rightarrow> matrix \<Rightarrow> call list \<times> matrix" where
  "MatrixRun_Init t1 t2 t3 s =
     (MatrixRun_ShowDashboard s,
      s\<lparr>dashboard_dirty := 0, current_screen := SCREEN_DASHBOARD, auto_cycle_enabled := 1,
        dashboard_guide_mode := 0, last_refresh_tick := t1, last_switch_tick := t2,
        last_dashboard_mode_tick := t3\<rparr>)"

text \<open>
  \<open>MatrixRun_Run\<close> in its parts; \<open>b\<close> in the results is the local \<open>screen_changed\<close>.
  First the train event: it takes the screen, and gives it back after ten seconds.
\<close>

definition train_takes_screen :: "u32 \<Rightarrow> matrix \<Rightarrow> call list \<times> bool \<times> matrix" where
  "train_takes_screen now s =
     (if train_event_active s \<noteq> 0 \<and> current_screen s \<noteq> SCREEN_TRAIN
      then ([Call_Clear], True,
            s\<lparr>current_screen := SCREEN_TRAIN, last_switch_tick := now, last_refresh_tick := 0\<rparr>)
      else ([], False, s))"

definition train_gives_back :: "u32 \<Rightarrow> bool \<Rightarrow> matrix \<Rightarrow> call list \<times> bool \<times> matrix" where
  "train_gives_back now b s =
     (if train_event_active s \<noteq> 0 \<and> now - train_event_start_tick s \<ge> TRAIN_EVENT_SHOW_MS
      then (let s = s\<lparr>train_event_active := 0\<rparr>
            in if auto_cycle_enabled s \<noteq> 0
               then ([Call_Clear], True,
                     s\<lparr>current_screen := SCREEN_DASHBOARD, dashboard_dirty := 1,
                       dashboard_guide_mode := 0, last_dashboard_mode_tick := now,
                       last_switch_tick := now\<rparr>)
               else ([], b, s))
      else ([], b, s))"

definition stay_ms :: "matrix \<Rightarrow> u32" where
  "stay_ms s =
     (if current_screen s = SCREEN_DASHBOARD then DASHBOARD_SHOW_MS
      else if current_screen s = SCREEN_CO2 then GAS_SHOW_MS
      else TEMP_HUM_SHOW_MS)"

definition auto_cycle :: "u32 \<Rightarrow> bool \<Rightarrow> matrix \<Rightarrow> call list \<times> bool \<times> matrix" where
  "auto_cycle now b s =
     (if auto_cycle_enabled s \<noteq> 0 \<and> current_screen s \<le> SCREEN_TEMP_HUM \<and>
         now - last_switch_tick s \<ge> stay_ms s
      then (let s = s\<lparr>current_screen := ucast ((ucast (current_screen s) + 1 :: u32) mod 3),
                      last_switch_tick := now\<rparr>
            in if current_screen s = SCREEN_DASHBOARD
               then ([Call_Clear, Call_Guide (congestion_status s)], True,
                     s\<lparr>dashboard_dirty := 1, dashboard_guide_mode := 0,
                       last_dashboard_mode_tick := now\<rparr>)
               else ([Call_Clear], True, s))
      else ([], b, s))"

definition toggle_guide :: "u32 \<Rightarrow> matrix \<Rightarrow> matrix" where
  "toggle_guide now s =
     (if current_screen s = SCREEN_DASHBOARD \<and>
         now - last_dashboard_mode_tick s \<ge> DASHBOARD_GUIDE_TOGGLE_MS
      then s\<lparr>dashboard_guide_mode := dashboard_guide_mode s XOR 1,
             last_dashboard_mode_tick := now, dashboard_dirty := 1\<rparr>
      else s)"

definition need_refresh :: "u32 \<Rightarrow> bool \<Rightarrow> matrix \<Rightarrow> bool" where
  "need_refresh now b s \<longleftrightarrow> b \<or>
     (current_screen s = SCREEN_DASHBOARD \<and> dashboard_dirty s \<noteq> 0) \<or>
     (current_screen s = SCREEN_TRAIN \<and> now - last_refresh_tick s \<ge> TRAIN_ANIM_REFRESH_MS) \<or>
     (current_screen s \<noteq> SCREEN_TRAIN \<and> now - last_refresh_tick s \<ge> DASHBOARD_REFRESH_MS)"

definition step_train_text :: "matrix \<Rightarrow> matrix" where
  "step_train_text s =
     (let s = s\<lparr>train_text_offset_x := int8 (train_text_offset_x s + train_text_offset_dir s)\<rparr>
      in if train_text_offset_x s \<ge> 6
         then s\<lparr>train_text_offset_x := 6, train_text_offset_dir := - 1\<rparr>
         else if train_text_offset_x s \<le> - 6
         then s\<lparr>train_text_offset_x := - 6, train_text_offset_dir := 1\<rparr>
         else s)"

definition redraw :: "u32 \<Rightarrow> matrix \<Rightarrow> call list \<times> matrix" where
  "redraw now s =
     (let (cs, s) =
        (if current_screen s = SCREEN_DASHBOARD
         then (MatrixRun_ShowDashboard s, s\<lparr>dashboard_dirty := 0\<rparr>)
         else if current_screen s = SCREEN_CO2 then ([Call_CO2], s)
         else if current_screen s = SCREEN_TEMP_HUM then ([Call_TempHum], s)
         else ([Call_Train (train_dest_code s) (train_text_offset_x s)], step_train_text s))
      in (cs, s\<lparr>last_refresh_tick := now\<rparr>))"

definition MatrixRun_Run :: "u32 \<Rightarrow> matrix \<Rightarrow> call list \<times> matrix" where
  "MatrixRun_Run now s =
     (let (c1, b, s) = train_takes_screen now s;
          (c2, b, s) = train_gives_back now b s;
          (c3, b, s) = auto_cycle now b s;
          s = toggle_guide now s;
          (c4, s) = (if need_refresh now b s then redraw now s else ([], s))
      in (c1 @ c2 @ c3 @ c4, s))"

text \<open>The copy loop compares each cell before it writes it.\<close>

fun copy_congestion :: "u8 list \<Rightarrow> u8 list \<Rightarrow> bool \<Rightarrow> u8 list \<times> bool" where
  "copy_congestion (c # cs) (d # ds) ch =
     (case copy_congestion cs ds (ch \<or> c \<noteq> d) of (rest, ch') \<Rightarrow> (d # rest, ch'))"
| "copy_congestion cs ds ch = (cs, ch)"

definition MatrixRun_SetCongestionBulk :: "u8 list \<Rightarrow> matrix \<Rightarrow> matrix" where
  "MatrixRun_SetCongestionBulk data s =
     (case copy_congestion (congestion_status s) data False of (cs, changed) \<Rightarrow>
        let s = s\<lparr>congestion_status := cs\<rparr> in if changed then s\<lparr>dashboard_dirty := 1\<rparr> else s)"

definition MatrixRun_SetScreen :: "u32 \<Rightarrow> u8 \<Rightarrow> matrix \<Rightarrow> call list \<times> matrix" where
  "MatrixRun_SetScreen tick screen s =
     (if screen > SCREEN_TRAIN then ([], s)
      else ([Call_Clear], s\<lparr>current_screen := screen, last_switch_tick := tick, last_refresh_tick := 0\<rparr>))"

definition MatrixRun_SetAutoCycle :: "u32 \<Rightarrow> u32 \<Rightarrow> u8 \<Rightarrow> matrix \<Rightarrow> call list \<times> matrix" where
  "MatrixRun_SetAutoCycle t1 t2 enable s =
     (let s = s\<lparr>auto_cycle_enabled := (if enable \<noteq> 0 then 1 else 0)\<rparr>;
          s = (if auto_cycle_enabled s \<noteq> 0
               then s\<lparr>current_screen := SCREEN_DASHBOARD, dashboard_dirty := 1,
                      dashboard_guide_mode := 0, last_dashboard_mode_tick := t1\<rparr>
               else s)
      in ([Call_Clear], s\<lparr>last_switch_tick := t2, last_refresh_tick := 0\<rparr>))"

definition MatrixRun_SetTrainDest :: "u32 \<Rightarrow> u8 \<Rightarrow> matrix \<Rightarrow> matrix" where
  "MatrixRun_SetTrainDest tick dest_code s =
     (let dest_code = (if dest_code > 2 then 0 else dest_code);
          s = s\<lparr>train_dest_code := dest_code\<rparr>;
          s = (if dest_code \<noteq> 0
               then s\<lparr>train_event_active := 1, train_event_start_tick := tick,
                      train_text_offset_x := 0, train_text_offset_dir := 1\<rparr>
               else s\<lparr>train_event_active := 0\<rparr>)
      in if current_screen s = SCREEN_TRAIN then s\<lparr>last_refresh_tick := 0\<rparr> else s)"

definition MatrixRun_GetTrainDest :: "matrix \<Rightarrow> u8" where
  "MatrixRun_GetTrainDest s = train_dest_code s"

section \<open>Invariant\<close>

definition flag8 :: "u8 \<Rightarrow> bool" where
  "flag8 b \<longleftrightarrow> b \<in> {0, 1}"

lemma flag8_simps [simp]: "flag8 0" "flag8 1" "flag8 b \<Longrightarrow> flag8 (b XOR 1)"
  by (auto simp: flag8_def)

definition text_ok :: "int \<Rightarrow> int \<Rightarrow> bool" where
  "text_ok off dir \<longleftrightarrow> - 6 \<le> off \<and> off \<le> 6 \<and> dir \<in> {- 1, 1}"

lemma text_ok_start [simp]: "text_ok 0 1" "text_ok 6 (- 1)" "text_ok (- 6) 1"
  by (simp_all add: text_ok_def)

definition matrix_inv :: "matrix \<Rightarrow> bool" where
  "matrix_inv s \<longleftrightarrow> length (congestion_status s) = 8 \<and> current_screen s \<le> SCREEN_TRAIN \<and>
     flag8 (dashboard_guide_mode s) \<and> flag8 (auto_cycle_enabled s) \<and> train_dest_code s \<le> 2 \<and>
     (train_event_active s \<noteq> 0 \<longrightarrow> train_dest_code s \<noteq> 0) \<and>
     text_ok (train_text_offset_x s) (train_text_offset_dir s)"

text \<open>What the drawing functions and the player may assume of the arguments they get.\<close>

fun call_ok :: "call \<Rightarrow> bool" where
  "call_ok (Call_StatusRow cs mode) \<longleftrightarrow> length cs = 8 \<and> flag8 mode"
| "call_ok (Call_Train code off) \<longleftrightarrow> code \<le> 2 \<and> - 6 \<le> off \<and> off \<le> 6"
| "call_ok (Call_Guide cs) \<longleftrightarrow> length cs = 8"
| "call_ok _ \<longleftrightarrow> True"

text \<open>The four screens.\<close>

lemma screen_cases:
  assumes "c \<le> SCREEN_TRAIN"
  obtains "c = SCREEN_DASHBOARD" | "c = SCREEN_CO2" | "c = SCREEN_TEMP_HUM" | "c = SCREEN_TRAIN"
proof -
  have "unat c \<le> 3" using assms by (simp add: word_le_nat_alt screen_defs)
  then consider "unat c = unat SCREEN_DASHBOARD" | "unat c = unat SCREEN_CO2"
    | "unat c = unat SCREEN_TEMP_HUM" | "unat c = unat SCREEN_TRAIN"
    by (simp add: screen_defs) linarith
  then show ?thesis using that unfolding word_unat_eq_iff [symmetric] by cases
qed

lemma next_screen:
  "ucast ((ucast SCREEN_DASHBOARD + 1 :: u32) mod 3) = SCREEN_CO2"
  "ucast ((ucast SCREEN_CO2 + 1 :: u32) mod 3) = SCREEN_TEMP_HUM"
  "ucast ((ucast SCREEN_TEMP_HUM + 1 :: u32) mod 3) = SCREEN_DASHBOARD"
  by (simp_all add: screen_defs)

lemma screen_order [simp]:
  "SCREEN_DASHBOARD \<le> SCREEN_TEMP_HUM" "SCREEN_CO2 \<le> SCREEN_TEMP_HUM" "\<not> SCREEN_TRAIN \<le> SCREEN_TEMP_HUM"
  "SCREEN_DASHBOARD \<le> SCREEN_TRAIN" "SCREEN_CO2 \<le> SCREEN_TRAIN" "SCREEN_TEMP_HUM \<le> SCREEN_TRAIN"
  "SCREEN_DASHBOARD \<noteq> SCREEN_CO2" "SCREEN_DASHBOARD \<noteq> SCREEN_TEMP_HUM" "SCREEN_DASHBOARD \<noteq> SCREEN_TRAIN"
  "SCREEN_CO2 \<noteq> SCREEN_DASHBOARD" "SCREEN_TEMP_HUM \<noteq> SCREEN_DASHBOARD" "SCREEN_TRAIN \<noteq> SCREEN_DASHBOARD"
  "SCREEN_CO2 \<noteq> SCREEN_TEMP_HUM" "SCREEN_CO2 \<noteq> SCREEN_TRAIN" "SCREEN_TEMP_HUM \<noteq> SCREEN_TRAIN"
  "SCREEN_TEMP_HUM \<noteq> SCREEN_CO2" "SCREEN_TRAIN \<noteq> SCREEN_CO2" "SCREEN_TRAIN \<noteq> SCREEN_TEMP_HUM"
  by (simp_all add: screen_defs)

text \<open>One lemma per part of \<open>MatrixRun_Run\<close>: it keeps the invariant, and its calls are in order.\<close>

lemma train_takes_screen_inv:
  "matrix_inv s \<Longrightarrow> train_takes_screen now s = (cs, b, t) \<Longrightarrow> matrix_inv t \<and> list_all call_ok cs"
  by (auto simp: train_takes_screen_def matrix_inv_def split: if_splits)

lemma train_gives_back_inv:
  "matrix_inv s \<Longrightarrow> train_gives_back now b s = (cs, b', t) \<Longrightarrow> matrix_inv t \<and> list_all call_ok cs"
  by (auto simp: train_gives_back_def matrix_inv_def Let_def split: if_splits)

lemma auto_cycle_inv:
  assumes "matrix_inv s" and "auto_cycle now b s = (cs, b', t)"
  shows "matrix_inv t \<and> list_all call_ok cs"
proof -
  from assms(1) have "current_screen s \<le> SCREEN_TRAIN" by (simp add: matrix_inv_def)
  then show ?thesis
    by (cases rule: screen_cases)
      (use assms in \<open>auto simp: auto_cycle_def matrix_inv_def next_screen Let_def split: if_splits\<close>)
qed

lemma toggle_guide_inv: "matrix_inv s \<Longrightarrow> matrix_inv (toggle_guide now s)"
  by (auto simp: toggle_guide_def matrix_inv_def)

lemma step_train_text_inv: "matrix_inv s \<Longrightarrow> matrix_inv (step_train_text s)"
proof -
  assume inv: "matrix_inv s"
  then have t: "text_ok (train_text_offset_x s) (train_text_offset_dir s)" by (simp add: matrix_inv_def)
  then have i: "int8 (train_text_offset_x s + train_text_offset_dir s)
      = train_text_offset_x s + train_text_offset_dir s" by (intro int8_id) (auto simp: text_ok_def)
  show ?thesis
    using inv t unfolding step_train_text_def Let_def by (auto simp: matrix_inv_def i) (auto simp: text_ok_def)
qed

lemma redraw_inv:
  "matrix_inv s \<Longrightarrow> redraw now s = (cs, t) \<Longrightarrow> matrix_inv t \<and> list_all call_ok cs"
proof -
  assume inv: "matrix_inv s" and r: "redraw now s = (cs, t)"
  have tick: "matrix_inv (u\<lparr>last_refresh_tick := now\<rparr>) = matrix_inv u"
    "matrix_inv (u\<lparr>dashboard_dirty := d\<rparr>) = matrix_inv u" for u d by (simp_all add: matrix_inv_def)
  have c: "call_ok (Call_Train (train_dest_code s) (train_text_offset_x s))"
    "list_all call_ok (MatrixRun_ShowDashboard s)"
    using inv by (simp_all add: matrix_inv_def text_ok_def MatrixRun_ShowDashboard_def)
  show ?thesis
    using r inv c step_train_text_inv [OF inv] by (auto simp: redraw_def tick split: if_splits)
qed

lemma Run_inv:
  assumes "matrix_inv s" and "MatrixRun_Run now s = (cs, t)"
  shows "matrix_inv t \<and> list_all call_ok cs"
proof -
  obtain c1 b1 s1 where 1: "train_takes_screen now s = (c1, b1, s1)" by (cases "train_takes_screen now s")
  obtain c2 b2 s2 where 2: "train_gives_back now b1 s1 = (c2, b2, s2)" by (cases "train_gives_back now b1 s1")
  obtain c3 b3 s3 where 3: "auto_cycle now b2 s2 = (c3, b3, s3)" by (cases "auto_cycle now b2 s2")
  obtain c4 s4 where 4: "redraw now (toggle_guide now s3) = (c4, s4)" by (cases "redraw now (toggle_guide now s3)")
  note i1 = train_takes_screen_inv [OF assms(1) 1]
  note i2 = train_gives_back_inv [OF conjunct1 [OF i1] 2]
  note i3 = auto_cycle_inv [OF conjunct1 [OF i2] 3]
  note i3' = toggle_guide_inv [OF conjunct1 [OF i3]]
  note i4 = redraw_inv [OF i3' 4]
  show ?thesis
    using assms(2) i1 i2 i3 i3' i4 by (auto simp: MatrixRun_Run_def 1 2 3 4 Let_def split: if_splits)
qed

lemma copy_congestion_eq:
  "length cs = length ds \<Longrightarrow> copy_congestion cs ds ch = (ds, ch \<or> cs \<noteq> ds)"
  by (induction cs ds ch rule: copy_congestion.induct) auto

lemma copy_congestion_take: "copy_congestion cs (take (length cs) ds) ch = copy_congestion cs ds ch"
  by (induction cs ds ch rule: copy_congestion.induct) simp_all

lemma copy_congestion_length: "length (fst (copy_congestion cs ds ch)) = length cs"
  by (induction cs ds ch rule: copy_congestion.induct) (auto split: prod.splits)

inductive matrix_step :: "matrix \<Rightarrow> call list \<Rightarrow> matrix \<Rightarrow> bool" where
  run: "MatrixRun_Run now s = (cs, t) \<Longrightarrow> matrix_step s cs t"
| congestion: "matrix_step s [] (MatrixRun_SetCongestionBulk data s)"
| screen: "MatrixRun_SetScreen tick c s = (cs, t) \<Longrightarrow> matrix_step s cs t"
| auto: "MatrixRun_SetAutoCycle t1 t2 enable s = (cs, t) \<Longrightarrow> matrix_step s cs t"
| dest: "matrix_step s [] (MatrixRun_SetTrainDest tick code s)"

definition matrix_start :: "matrix \<Rightarrow> bool" where
  "matrix_start s \<longleftrightarrow> (\<exists>t1 t2 t3. s = snd (MatrixRun_Init t1 t2 t3 matrix_power_on))"

definition matrix_move :: "matrix \<Rightarrow> matrix \<Rightarrow> bool" where
  "matrix_move s t \<longleftrightarrow> (\<exists>cs. matrix_step s cs t)"

abbreviation matrix_reachable :: "matrix \<Rightarrow> bool" where
  "matrix_reachable \<equiv> reached matrix_start matrix_move"

inductive_cases matrix_stepE: "matrix_step s cs t"

lemma matrix_step_inv: "matrix_step s cs t \<Longrightarrow> matrix_inv s \<Longrightarrow> matrix_inv t \<and> list_all call_ok cs"
proof (induction rule: matrix_step.induct)
  case (congestion s data)
  then show ?case using copy_congestion_length [of "congestion_status s" data False]
    by (auto simp: MatrixRun_SetCongestionBulk_def matrix_inv_def Let_def split: prod.splits)
next
  case (dest s tick code)
  then show ?case by (auto simp: MatrixRun_SetTrainDest_def matrix_inv_def Let_def)
next
  case (run now s cs t)
  then show ?case by (intro Run_inv)
next
  case (screen tick c s cs t)
  then show ?case by (auto simp: MatrixRun_SetScreen_def matrix_inv_def not_less split: if_splits)
next
  case (auto t1 t2 enable s cs t)
  then show ?case by (cases "enable = 0") (auto simp: MatrixRun_SetAutoCycle_def matrix_inv_def Let_def)
qed

interpretation matrix_machine: machine matrix_start matrix_move matrix_inv
  by unfold_locales
    (auto simp: matrix_start_def matrix_move_def MatrixRun_Init_def matrix_power_on_def matrix_inv_def
      dest: matrix_step_inv)

lemma matrix_reachable_init: "matrix_reachable (snd (MatrixRun_Init t1 t2 t3 matrix_power_on))"
  by (rule reached.start) (auto simp: matrix_start_def)

section \<open>Passes in sequence\<close>

text \<open>The passes of the main loop at the given times, without a command in between.\<close>

fun passes :: "u32 list \<Rightarrow> matrix \<Rightarrow> matrix" where
  "passes [] s = s"
| "passes (now # ts) s = passes ts (snd (MatrixRun_Run now s))"

lemmas run_parts = MatrixRun_Run_def train_takes_screen_def train_gives_back_def auto_cycle_def
  toggle_guide_def

text \<open>A redraw changes neither the screen nor the train event nor the timers of the cycle.\<close>

lemma redraw_fields:
  "redraw now s = (cs, t) \<Longrightarrow> current_screen t = current_screen s \<and>
     train_event_active t = train_event_active s \<and>
     train_event_start_tick t = train_event_start_tick s \<and>
     auto_cycle_enabled t = auto_cycle_enabled s \<and> last_switch_tick t = last_switch_tick s \<and>
     congestion_status t = congestion_status s \<and> train_dest_code t = train_dest_code s \<and>
     dashboard_guide_mode t = dashboard_guide_mode s"
  by (auto simp: redraw_def step_train_text_def Let_def split: if_splits)

lemma Run_fields:
  assumes "train_takes_screen now s = (c1, b1, s1)" and "train_gives_back now b1 s1 = (c2, b2, s2)"
    and "auto_cycle now b2 s2 = (c3, b3, s3)"
  shows "current_screen (snd (MatrixRun_Run now s)) = current_screen s3"
    and "train_event_active (snd (MatrixRun_Run now s)) = train_event_active s3"
    and "train_event_start_tick (snd (MatrixRun_Run now s)) = train_event_start_tick s3"
    and "auto_cycle_enabled (snd (MatrixRun_Run now s)) = auto_cycle_enabled s3"
    and "last_switch_tick (snd (MatrixRun_Run now s)) = last_switch_tick s3"
proof -
  obtain c4 s4 where 4: "redraw now (toggle_guide now s3) = (c4, s4)" by (cases "redraw now (toggle_guide now s3)")
  have g: "current_screen (toggle_guide now s3) = current_screen s3"
    "train_event_active (toggle_guide now s3) = train_event_active s3"
    "train_event_start_tick (toggle_guide now s3) = train_event_start_tick s3"
    "auto_cycle_enabled (toggle_guide now s3) = auto_cycle_enabled s3"
    "last_switch_tick (toggle_guide now s3) = last_switch_tick s3" by (simp_all add: toggle_guide_def)
  show "current_screen (snd (MatrixRun_Run now s)) = current_screen s3"
    "train_event_active (snd (MatrixRun_Run now s)) = train_event_active s3"
    "train_event_start_tick (snd (MatrixRun_Run now s)) = train_event_start_tick s3"
    "auto_cycle_enabled (snd (MatrixRun_Run now s)) = auto_cycle_enabled s3"
    "last_switch_tick (snd (MatrixRun_Run now s)) = last_switch_tick s3"
    using redraw_fields [OF 4] g by (simp_all add: MatrixRun_Run_def assms 4 Let_def)
qed

text \<open>While the event runs, each pass shows the train; the first pass after ten seconds ends it.\<close>

lemma pass_during_event:
  assumes "train_event_active s \<noteq> 0" and "now - train_event_start_tick s < TRAIN_EVENT_SHOW_MS"
  shows "current_screen (snd (MatrixRun_Run now s)) = SCREEN_TRAIN"
    and "train_event_active (snd (MatrixRun_Run now s)) = train_event_active s"
    and "train_event_start_tick (snd (MatrixRun_Run now s)) = train_event_start_tick s"
    and "auto_cycle_enabled (snd (MatrixRun_Run now s)) = auto_cycle_enabled s"
proof -
  obtain c1 b1 s1 where 1: "train_takes_screen now s = (c1, b1, s1)" by (cases "train_takes_screen now s")
  then have s1: "current_screen s1 = SCREEN_TRAIN" "train_event_active s1 = train_event_active s"
    "train_event_start_tick s1 = train_event_start_tick s" "auto_cycle_enabled s1 = auto_cycle_enabled s"
    using assms by (auto simp: train_takes_screen_def split: if_splits)
  then have 2: "train_gives_back now b1 s1 = ([], b1, s1)" and 3: "auto_cycle now b1 s1 = ([], b1, s1)"
    using assms by (simp_all add: train_gives_back_def auto_cycle_def not_le [symmetric])
  note f = Run_fields [OF 1 2 3]
  show "current_screen (snd (MatrixRun_Run now s)) = SCREEN_TRAIN"
    "train_event_active (snd (MatrixRun_Run now s)) = train_event_active s"
    "train_event_start_tick (snd (MatrixRun_Run now s)) = train_event_start_tick s"
    "auto_cycle_enabled (snd (MatrixRun_Run now s)) = auto_cycle_enabled s"
    using s1 by (simp_all add: f)
qed

lemma passes_during_event:
  "train_event_active s \<noteq> 0 \<Longrightarrow> \<forall>now \<in> set ts. now - train_event_start_tick s < TRAIN_EVENT_SHOW_MS \<Longrightarrow>
   train_event_active (passes ts s) = train_event_active s \<and>
   train_event_start_tick (passes ts s) = train_event_start_tick s \<and>
   auto_cycle_enabled (passes ts s) = auto_cycle_enabled s \<and>
   (ts \<noteq> [] \<longrightarrow> current_screen (passes ts s) = SCREEN_TRAIN)"
proof (induction ts arbitrary: s)
  case (Cons now ts)
  then have "now - train_event_start_tick s < TRAIN_EVENT_SHOW_MS" by simp
  note p = pass_during_event [OF Cons.prems(1) this]
  with Cons.IH [of "snd (MatrixRun_Run now s)"] Cons.prems show ?case
    by (cases ts) auto
qed simp

lemma pass_ends_event:
  assumes "train_event_active s \<noteq> 0" and "\<not> now - train_event_start_tick s < TRAIN_EVENT_SHOW_MS"
  shows "train_event_active (snd (MatrixRun_Run now s)) = 0"
    and "current_screen (snd (MatrixRun_Run now s))
      = (if auto_cycle_enabled s \<noteq> 0 then SCREEN_DASHBOARD else SCREEN_TRAIN)"
proof -
  obtain c1 b1 s1 where 1: "train_takes_screen now s = (c1, b1, s1)" by (cases "train_takes_screen now s")
  then have s1: "current_screen s1 = SCREEN_TRAIN" "train_event_active s1 = train_event_active s"
    "train_event_start_tick s1 = train_event_start_tick s" "auto_cycle_enabled s1 = auto_cycle_enabled s"
    using assms by (auto simp: train_takes_screen_def split: if_splits)
  obtain c2 b2 s2 where 2: "train_gives_back now b1 s1 = (c2, b2, s2)" by (cases "train_gives_back now b1 s1")
  then have s2: "train_event_active s2 = 0" "auto_cycle_enabled s2 = auto_cycle_enabled s"
    "current_screen s2 = (if auto_cycle_enabled s \<noteq> 0 then SCREEN_DASHBOARD else SCREEN_TRAIN)"
    "auto_cycle_enabled s \<noteq> 0 \<Longrightarrow> last_switch_tick s2 = now"
    using assms s1 by (auto simp: train_gives_back_def Let_def not_less split: if_splits)
  have "\<not> now - last_switch_tick s2 \<ge> stay_ms s2" if "auto_cycle_enabled s \<noteq> 0"
    using that s2 by (simp add: stay_ms_def ms_defs)
  then have 3: "auto_cycle now b2 s2 = ([], b2, s2)"
    using s2 by (auto simp: auto_cycle_def)
  note f = Run_fields [OF 1 2 3]
  show "train_event_active (snd (MatrixRun_Run now s)) = 0"
    "current_screen (snd (MatrixRun_Run now s))
      = (if auto_cycle_enabled s \<noteq> 0 then SCREEN_DASHBOARD else SCREEN_TRAIN)"
    using s2 by (simp_all add: f)
qed

text \<open>Without an event, a pass leaves the train screen as it is.\<close>

lemma pass_stuck:
  assumes "train_event_active s = 0" and "current_screen s = SCREEN_TRAIN"
  shows "train_event_active (snd (MatrixRun_Run now s)) = 0"
    and "current_screen (snd (MatrixRun_Run now s)) = SCREEN_TRAIN"
proof -
  have 1: "train_takes_screen now s = ([], False, s)" and 2: "train_gives_back now False s = ([], False, s)"
    and 3: "auto_cycle now False s = ([], False, s)"
    using assms by (simp_all add: train_takes_screen_def train_gives_back_def auto_cycle_def)
  note f = Run_fields [OF 1 2 3]
  show "train_event_active (snd (MatrixRun_Run now s)) = 0"
    "current_screen (snd (MatrixRun_Run now s)) = SCREEN_TRAIN" using assms by (simp_all add: f)
qed

lemma passes_stuck:
  "train_event_active s = 0 \<Longrightarrow> current_screen s = SCREEN_TRAIN \<Longrightarrow>
   current_screen (passes ts s) = SCREEN_TRAIN"
  by (induction ts arbitrary: s) (simp_all add: pass_stuck)

section \<open>What a pass draws\<close>

text \<open>The drawing of the screen that a state shows.\<close>

definition draws_screen :: "matrix \<Rightarrow> call list \<Rightarrow> bool" where
  "draws_screen s cs \<longleftrightarrow>
     (current_screen s = SCREEN_DASHBOARD \<and>
        cs = [Call_StatusRow (congestion_status s) (dashboard_guide_mode s), Call_Border]) \<or>
     (current_screen s = SCREEN_CO2 \<and> cs = [Call_CO2]) \<or>
     (current_screen s = SCREEN_TEMP_HUM \<and> cs = [Call_TempHum]) \<or>
     (current_screen s = SCREEN_TRAIN \<and> (\<exists>off. - 6 \<le> off \<and> off \<le> 6 \<and> cs = [Call_Train (train_dest_code s) off]))"

lemma redraw_draws:
  assumes "matrix_inv s" and "redraw now s = (cs, t)"
  shows "draws_screen t cs"
proof -
  have "current_screen s \<le> SCREEN_TRAIN" and "text_ok (train_text_offset_x s) (train_text_offset_dir s)"
    using assms(1) by (simp_all add: matrix_inv_def)
  then show ?thesis
    by (cases rule: screen_cases)
      (use assms(2) redraw_fields [OF assms(2)] in
        \<open>auto simp: redraw_def draws_screen_def MatrixRun_ShowDashboard_def text_ok_def\<close>)
qed

lemma Run_calls:
  assumes inv: "matrix_inv s" and run: "MatrixRun_Run now s = (cs, t)"
  shows "\<exists>pre post. cs = pre @ post \<and> (\<forall>c \<in> set pre. c = Call_Clear \<or> c = Call_Guide (congestion_status s)) \<and>
    (post = [] \<or> draws_screen t post) \<and>
    (current_screen t \<noteq> current_screen s \<longrightarrow> hd pre = Call_Clear \<and> pre \<noteq> [] \<and> post \<noteq> [])"
proof -
  obtain c1 b1 s1 where 1: "train_takes_screen now s = (c1, b1, s1)" by (cases "train_takes_screen now s")
  obtain c2 b2 s2 where 2: "train_gives_back now b1 s1 = (c2, b2, s2)" by (cases "train_gives_back now b1 s1")
  obtain c3 b3 s3 where 3: "auto_cycle now b2 s2 = (c3, b3, s3)" by (cases "auto_cycle now b2 s2")
  let ?s3 = "toggle_guide now s3"
  have inv3: "matrix_inv ?s3"
    using train_takes_screen_inv [OF inv 1] train_gives_back_inv [OF _ 2] auto_cycle_inv [OF _ 3]
      toggle_guide_inv by blast
  have cur3: "current_screen ?s3 = current_screen s3" by (simp add: toggle_guide_def)
  let ?pre = "c1 @ c2 @ c3"
  have c: "congestion_status s1 = congestion_status s" "congestion_status s2 = congestion_status s"
    using 1 2 by (auto simp: train_takes_screen_def train_gives_back_def Let_def split: if_splits)
  have p1: "c1 = (if b1 then [Call_Clear] else [])" "\<not> b1 \<Longrightarrow> current_screen s1 = current_screen s"
    using 1 by (auto simp: train_takes_screen_def split: if_splits)
  have p2: "c2 = [] \<and> b2 = b1 \<or> c2 = [Call_Clear] \<and> b2" "c2 = [] \<Longrightarrow> current_screen s2 = current_screen s1"
    using 2 by (auto simp: train_gives_back_def Let_def split: if_splits)
  have p3: "c3 = [] \<and> b3 = b2 \<or> b3 \<and> (\<exists>r. c3 = Call_Clear # r \<and> set r \<subseteq> {Call_Guide (congestion_status s2)})"
    "c3 = [] \<Longrightarrow> current_screen s3 = current_screen s2"
    using 3 by (auto simp: auto_cycle_def Let_def split: if_splits)
  have set_pre: "\<forall>x \<in> set ?pre. x = Call_Clear \<or> x = Call_Guide (congestion_status s)"
    using p1(1) p2(1) p3(1) c by (auto split: if_splits)
  have changed: "?pre \<noteq> [] \<and> hd ?pre = Call_Clear \<and> b3" if "current_screen s3 \<noteq> current_screen s"
    using that p1 p2 p3 by (auto split: if_splits)
  show ?thesis
  proof (cases "need_refresh now b3 ?s3")
    case True
    obtain c4 s4 where 4: "redraw now ?s3 = (c4, s4)" by (cases "redraw now ?s3")
    have e: "cs = ?pre @ c4" "t = s4" using run True by (simp_all add: MatrixRun_Run_def 1 2 3 4 Let_def)
    have d: "draws_screen t c4" unfolding e using redraw_draws [OF inv3 4] .
    have "c4 \<noteq> []" using d by (auto simp: draws_screen_def)
    moreover have "current_screen t = current_screen s3" using redraw_fields [OF 4] e cur3 by simp
    ultimately show ?thesis using e d set_pre changed by metis
  next
    case False
    have e: "cs = ?pre @ []" "t = ?s3" using run False by (simp_all add: MatrixRun_Run_def 1 2 3 Let_def)
    have "\<not> b3" using False by (simp add: need_refresh_def)
    then have "current_screen t = current_screen s" using changed e cur3 by auto
    then show ?thesis using e set_pre by metis
  qed
qed

text \<open>The order of the automatic cycle.\<close>

lemma cycle_pass:
  assumes ev: "train_event_active s = 0" and auto: "auto_cycle_enabled s \<noteq> 0"
    and cur: "current_screen s \<le> SCREEN_TEMP_HUM" and run: "MatrixRun_Run now s = (cs, t)"
  shows "current_screen t = (if now - last_switch_tick s \<ge> stay_ms s
      then (if current_screen s = SCREEN_DASHBOARD then SCREEN_CO2
            else if current_screen s = SCREEN_CO2 then SCREEN_TEMP_HUM else SCREEN_DASHBOARD)
      else current_screen s)"
    and "(\<exists>d. Call_Guide d \<in> set cs) \<longleftrightarrow>
      now - last_switch_tick s \<ge> stay_ms s \<and> current_screen s = SCREEN_TEMP_HUM"
proof -
  have 1: "train_takes_screen now s = ([], False, s)" and 2: "train_gives_back now False s = ([], False, s)"
    using ev by (simp_all add: train_takes_screen_def train_gives_back_def)
  obtain c3 b3 s3 where 3: "auto_cycle now False s = (c3, b3, s3)" by (cases "auto_cycle now False s")
  obtain c4 s4 where 4: "redraw now (toggle_guide now s3) = (c4, s4)" by (cases "redraw now (toggle_guide now s3)")
  have c4: "Call_Guide d \<notin> set c4" for d
    using 4 by (auto simp: redraw_def MatrixRun_ShowDashboard_def split: if_splits)
  have cs: "cs = c3 @ (if need_refresh now b3 (toggle_guide now s3) then c4 else [])"
    using run by (simp add: MatrixRun_Run_def 1 2 3 4 Let_def split: if_splits)
  have t: "current_screen t = current_screen s3" using Run_fields(1) [OF 1 2 3] run by simp
  have "current_screen s \<le> SCREEN_TRAIN" using cur order_trans screen_order(6) by blast
  then have a: "current_screen s3 = (if now - last_switch_tick s \<ge> stay_ms s
      then (if current_screen s = SCREEN_DASHBOARD then SCREEN_CO2
            else if current_screen s = SCREEN_CO2 then SCREEN_TEMP_HUM else SCREEN_DASHBOARD)
      else current_screen s) \<and> ((\<exists>d. Call_Guide d \<in> set c3) \<longleftrightarrow>
      now - last_switch_tick s \<ge> stay_ms s \<and> current_screen s = SCREEN_TEMP_HUM)"
    by (cases rule: screen_cases)
      (use 3 auto cur in \<open>auto simp: auto_cycle_def next_screen Let_def split: if_splits\<close>)
  show "current_screen t = (if now - last_switch_tick s \<ge> stay_ms s
      then (if current_screen s = SCREEN_DASHBOARD then SCREEN_CO2
            else if current_screen s = SCREEN_CO2 then SCREEN_TEMP_HUM else SCREEN_DASHBOARD)
      else current_screen s)" using a t by simp
  show "(\<exists>d. Call_Guide d \<in> set cs) \<longleftrightarrow>
      now - last_switch_tick s \<ge> stay_ms s \<and> current_screen s = SCREEN_TEMP_HUM"
    using a c4 by (auto simp: cs)
qed

section \<open>Properties\<close>

text \<open>
  C19: In every state the display control can reach, by any commands and passes at any times, the
  screen is one of the four, the moving text stays within six pixels of its centre, and each
  operation passes to the drawing functions and to the player only arguments in their ranges.
\<close>

theorem matrix_reachable_safe:
  assumes "matrix_reachable s" and "matrix_step s cs t"
  shows "matrix_inv s \<and> matrix_inv t \<and> list_all call_ok cs"
  using matrix_step_inv [OF assms(2)] matrix_machine.reached_inv [OF assms(1)] by blast

lemma matrix_reachable_safe_witness:
  "matrix_inv (snd (MatrixRun_Run 10000 (snd (MatrixRun_Init 0 0 0 matrix_power_on)))) \<and>
   list_all call_ok (fst (MatrixRun_Run 10000 (snd (MatrixRun_Init 0 0 0 matrix_power_on))))"
  using matrix_reachable_safe [OF matrix_reachable_init [of 0 0 0] matrix_step.run [of 10000, OF prod.collapse [symmetric]]]
  by simp

text \<open>
  What a pass of the display control draws: first clears and announcements, then nothing or
  exactly the screen that is current after the pass; and whenever the pass changes the screen,
  it clears the matrix first and draws the new screen in the same pass.
\<close>

theorem screen_change_is_drawn:
  assumes "matrix_inv s" and "MatrixRun_Run now s = (cs, t)"
  shows "\<exists>pre post. cs = pre @ post \<and> (\<forall>c \<in> set pre. c = Call_Clear \<or> c = Call_Guide (congestion_status s)) \<and>
    (post = [] \<or> draws_screen t post) \<and>
    (current_screen t \<noteq> current_screen s \<longrightarrow> hd pre = Call_Clear \<and> pre \<noteq> [] \<and> post \<noteq> [])"
  using assms by (rule Run_calls)

lemma screen_change_is_drawn_witness:
  "\<exists>pre post. fst (MatrixRun_Run 10000 matrix_power_on) = pre @ post \<and> hd pre = Call_Clear \<and> post \<noteq> []"
proof -
  have i: "matrix_inv matrix_power_on"
    by (simp add: matrix_inv_def matrix_power_on_def)
  have "current_screen (snd (MatrixRun_Run 10000 matrix_power_on)) \<noteq> current_screen matrix_power_on"
    by code_simp
  with screen_change_is_drawn [OF i prod.collapse [symmetric], of 10000] show ?thesis by blast
qed

text \<open>
  C20: The automatic cycle: without a train event, a pass moves from the dashboard to the gas screen,
  to the temperature screen and back exactly when the screen's time (ten seconds, five, five) has
  passed, also when the tick counter wraps; and it asks for the announcement exactly when it
  comes back to the dashboard.
\<close>

theorem auto_cycle_order:
  assumes "train_event_active s = 0" and "auto_cycle_enabled s \<noteq> 0"
    and "current_screen s \<le> SCREEN_TEMP_HUM" and "MatrixRun_Run now s = (cs, t)"
  shows "current_screen t = (if now - last_switch_tick s \<ge> (if current_screen s = SCREEN_DASHBOARD then 10000 else 5000)
      then (if current_screen s = SCREEN_DASHBOARD then SCREEN_CO2
            else if current_screen s = SCREEN_CO2 then SCREEN_TEMP_HUM else SCREEN_DASHBOARD)
      else current_screen s) \<and>
    ((\<exists>d. Call_Guide d \<in> set cs) \<longleftrightarrow> now - last_switch_tick s \<ge> 5000 \<and> current_screen s = SCREEN_TEMP_HUM)"
proof -
  have "stay_ms s = (if current_screen s = SCREEN_DASHBOARD then 10000 else 5000)"
    by (simp add: stay_ms_def ms_defs)
  with cycle_pass [OF assms] show ?thesis by auto
qed

lemma auto_cycle_order_witness:
  "current_screen (snd (MatrixRun_Run 4000 (matrix_power_on\<lparr>current_screen := SCREEN_TEMP_HUM,
      last_switch_tick := 4294966000\<rparr>))) = SCREEN_DASHBOARD"
proof -
  let ?s = "matrix_power_on\<lparr>current_screen := SCREEN_TEMP_HUM, last_switch_tick := 4294966000\<rparr>"
  have "train_event_active ?s = 0" "auto_cycle_enabled ?s \<noteq> 0" "current_screen ?s \<le> SCREEN_TEMP_HUM"
    by (simp_all add: matrix_power_on_def)
  from auto_cycle_order [OF this prod.collapse [symmetric], of 4000] show ?thesis
    by (simp add: matrix_power_on_def)
qed

text \<open>
  C21: A train announcement takes the screen: after \<open>MatrixRun_SetTrainDest\<close> with a known
  destination, every pass within ten seconds leaves the train on the screen, and the first later
  pass ends the event, going back to the dashboard when the automatic cycle is on.
\<close>

theorem train_event_shown_and_ended:
  assumes "code = 1 \<or> code = 2" and "ts \<noteq> []"
    and "\<forall>now \<in> set ts. now - tick < 10000" and "10000 \<le> late - tick"
  shows "let s' = passes ts (MatrixRun_SetTrainDest tick code s); u = snd (MatrixRun_Run late s')
    in current_screen s' = SCREEN_TRAIN \<and> train_event_active s' = 1 \<and> train_event_active u = 0 \<and>
       current_screen u = (if auto_cycle_enabled s \<noteq> 0 then SCREEN_DASHBOARD else SCREEN_TRAIN)"
proof -
  let ?d = "MatrixRun_SetTrainDest tick code s"
  have d: "train_event_active ?d = 1" "train_event_start_tick ?d = tick"
    "auto_cycle_enabled ?d = auto_cycle_enabled s"
    using assms(1) by (auto simp: MatrixRun_SetTrainDest_def Let_def)
  then have p: "train_event_active (passes ts ?d) = 1" "train_event_start_tick (passes ts ?d) = tick"
    "auto_cycle_enabled (passes ts ?d) = auto_cycle_enabled s" "current_screen (passes ts ?d) = SCREEN_TRAIN"
    using passes_during_event [of ?d ts] assms(2,3) by (simp_all add: ms_defs)
  have "\<not> late - train_event_start_tick (passes ts ?d) < TRAIN_EVENT_SHOW_MS"
    using assms(4) p(2) by (simp add: ms_defs not_less)
  with pass_ends_event [of "passes ts ?d" late] p show ?thesis by (simp add: Let_def)
qed

lemma train_event_shown_and_ended_witness:
  "let s' = passes [100, 9000] (MatrixRun_SetTrainDest 50 2 matrix_power_on); u = snd (MatrixRun_Run 10050 s')
    in current_screen s' = SCREEN_TRAIN \<and> train_event_active s' = 1 \<and> train_event_active u = 0 \<and>
       current_screen u = (if auto_cycle_enabled matrix_power_on \<noteq> 0 then SCREEN_DASHBOARD else SCREEN_TRAIN)"
  by (rule train_event_shown_and_ended) simp_all

text \<open>
  C22: A train announcement that is cancelled by destination 0 while it is on the screen is never
  taken off again: no number of passes, with the automatic cycle on or off, leaves the train
  screen; only another command does.
\<close>

theorem cancelled_train_stays:
  assumes "current_screen s = SCREEN_TRAIN"
  shows "current_screen (passes ts (MatrixRun_SetTrainDest tick 0 s)) = SCREEN_TRAIN"
  by (rule passes_stuck) (use assms in \<open>simp_all add: MatrixRun_SetTrainDest_def Let_def\<close>)

lemma cancelled_train_stays_witness:
  "let s = snd (MatrixRun_Run 100 (MatrixRun_SetTrainDest 50 1 matrix_power_on))
    in auto_cycle_enabled s = 1 \<and>
       current_screen (passes [20000, 40000, 60000] (MatrixRun_SetTrainDest 200 0 s)) = SCREEN_TRAIN"
proof -
  let ?s = "snd (MatrixRun_Run 100 (MatrixRun_SetTrainDest 50 1 matrix_power_on))"
  have "current_screen ?s = SCREEN_TRAIN" "auto_cycle_enabled ?s = 1" by code_simp+
  with cancelled_train_stays [of ?s "[20000, 40000, 60000]" 200] show ?thesis by (simp add: Let_def)
qed

end
