(* ===== verification/Uart_Handler.thy ===== *)
theory Uart_Handler
  imports Audio_Player Uart_Protocol Sd_Storage Sensors Matrix_Run
begin

text \<open>
  \<open>UART_Handler_Process\<close> of \<open>features/protocol/uart_handler.c\<close>: the command dispatcher of the main loop,
  on the state of the whole device. The result is what it transmits, the drawing calls of the display
  scheduler, and the device afterwards; \<open>None\<close> is undefined behaviour. Diagnostic \<open>printf\<close>s are left
  out, and no interrupt falls into the dispatcher.
\<close>

section \<open>The device and its surroundings\<close>

record 'f device =
  dev_uart :: uart_rx
  dev_matrix :: matrix
  dev_audio :: "'f audio"
  dev_data :: DB_Data_t
  dev_mq7 :: gas_sensor
  dev_mq135 :: gas_sensor

text \<open>
  What one call meets outside the modelled state: what the stack holds where the code leaves a local
  array uninitialised (the frame, the file list and its length), the conversions of the
  analog-to-digital converter, the power function, two readings of the clock, the card, and whether
  the I2S transfer starts.
\<close>

record 'f surroundings =
  stack :: "u8 list"
  list_data :: "u8 list"
  list_len :: u8
  conversions :: "u32 option list"
  powf :: "rat \<Rightarrow> rat \<Rightarrow> rat option"
  tick1 :: u32
  tick2 :: u32
  card :: "'f fatfs"
  directory :: "u8 + dir_result list"
  hal_ok :: bool

type_synonym 'f outcome = "(u8 list list \<times> call list \<times> 'f device) option"

definition answer :: "u8 list option \<Rightarrow> call list \<Rightarrow> 'f device \<Rightarrow> 'f outcome" where
  "answer tx calls d = map_option (\<lambda>bs. ([bs], calls, d)) tx"

section \<open>Numbers in text\<close>

text \<open>\<open>atoi\<close>; the value is \<open>None\<close> when it does not fit an \<open>int\<close>, which C leaves undefined.\<close>

definition is_space :: "u8 \<Rightarrow> bool" where
  "is_space b \<longleftrightarrow> b = 32 \<or> (9 \<le> b \<and> b \<le> 13)"

definition is_digit :: "u8 \<Rightarrow> bool" where
  "is_digit b \<longleftrightarrow> 48 \<le> b \<and> b \<le> 57"

definition atoi :: "u8 list \<Rightarrow> int option" where
  "atoi str =
     (let str = dropWhile is_space str;
          (sign, str) = (case str of [] \<Rightarrow> (1, [])
             | b # bs \<Rightarrow> if b = 45 then (- 1, bs) else if b = 43 then (1, bs) else (1, b # bs));
          v = sign * digits_value (takeWhile is_digit str)
      in if - 2147483648 \<le> v \<and> v < 2147483648 then Some v else None)"

section \<open>The commands\<close>

definition handle_get_co :: "'f surroundings \<Rightarrow> 'f device \<Rightarrow> 'f outcome" where
  "handle_get_co e d =
     (case MQ7_ReadCO (powf e) (conversions e) (1 / 10) (dev_mq7 d) of (co, g) \<Rightarrow> do {
        co_val \<leftarrow> co;
        send_val \<leftarrow> c_uint16 (co_val * 100);
        answer (UART_SendSensorResp (stack e) CMD_RESP_SENSOR [CMD_GET_CO, hi8 send_val, lo8 send_val] 3)
          [] (d\<lparr>dev_mq7 := g\<rparr>) })"

definition handle_get_co2 :: "'f surroundings \<Rightarrow> 'f device \<Rightarrow> 'f outcome" where
  "handle_get_co2 e d =
     (case MQ135_ReadCO2 (powf e) (conversions e) (1 / 10) (dev_mq135 d) of (co2, g) \<Rightarrow> do {
        co2_val \<leftarrow> co2;
        send_val \<leftarrow> c_uint16 (co2_val * 100);
        answer (UART_SendSensorResp (stack e) CMD_RESP_SENSOR [CMD_GET_CO2, hi8 send_val, lo8 send_val] 3)
          [] (d\<lparr>dev_mq135 := g\<rparr>) })"

definition handle_temp_hum :: "'f surroundings \<Rightarrow> Packet_t \<Rightarrow> 'f device \<Rightarrow> 'f outcome" where
  "handle_temp_hum e pkt d =
     (if pkt_len pkt \<noteq> 4 then answer (UART_SendNACK (stack e) (pkt_cmd pkt) ERR_INVALID_DATA) [] d
      else do {
        d0 \<leftarrow> c_load (pkt_data pkt) 0;
        d1 \<leftarrow> c_load (pkt_data pkt) 1;
        d2 \<leftarrow> c_load (pkt_data pkt) 2;
        d3 \<leftarrow> c_load (pkt_data pkt) 3;
        let temp_deci = sint (join16 d0 d1);
        let hum_deci = sint (join16 d2 d3);
        answer (UART_SendACK (stack e) (pkt_cmd pkt)) []
          (d\<lparr>dev_data := Data_Manager_SetTempHumValues (of_int temp_deci / 100) (of_int hum_deci / 100) (dev_data d)\<rparr>) })"

definition handle_set_led :: "'f surroundings \<Rightarrow> Packet_t \<Rightarrow> 'f device \<Rightarrow> 'f outcome" where
  "handle_set_led e pkt d =
     (if pkt_len pkt \<noteq> 8 then answer (UART_SendNACK (stack e) (pkt_cmd pkt) ERR_INVALID_DATA) [] d
      else if length (pkt_data pkt) < 8 then None
      else if list_ex (\<lambda>b. b > 2) (take 8 (pkt_data pkt))
      then answer (UART_SendNACK (stack e) (pkt_cmd pkt) ERR_INVALID_DATA) [] d
      else answer (UART_SendACK (stack e) (pkt_cmd pkt)) []
             (d\<lparr>dev_matrix := MatrixRun_SetCongestionBulk (pkt_data pkt) (dev_matrix d)\<rparr>))"

definition handle_train_dest :: "'f surroundings \<Rightarrow> Packet_t \<Rightarrow> 'f device \<Rightarrow> 'f outcome" where
  "handle_train_dest e pkt d =
     (if pkt_len pkt \<noteq> 1 then answer (UART_SendNACK (stack e) (pkt_cmd pkt) ERR_INVALID_DATA) [] d
      else do {
        code \<leftarrow> c_load (pkt_data pkt) 0;
        answer (UART_SendACK (stack e) (pkt_cmd pkt)) []
          (d\<lparr>dev_matrix := MatrixRun_SetTrainDest (tick1 e) code (dev_matrix d)\<rparr>) })"

text \<open>
  The text goes to an array of \<open>PKT_MAX_DATA_LEN\<close> bytes and ends in a zero. \<open>atoi(action) - 1\<close> is
  \<open>None\<close> when the subtraction overflows.
\<close>

definition handle_display_ctrl :: "'f surroundings \<Rightarrow> Packet_t \<Rightarrow> 'f device \<Rightarrow> 'f outcome" where
  "handle_display_ctrl e pkt d =
     (if pkt_len pkt = 0 \<or> unat (pkt_len pkt) \<ge> PKT_MAX_DATA_LEN
      then answer (UART_SendNACK (stack e) (pkt_cmd pkt) ERR_INVALID_DATA) [] d
      else if length (pkt_data pkt) < unat (pkt_len pkt) then None
      else
       (let action = c_string (payload pkt @ [0])
        in if action = c_lit ''0''
           then (case MatrixRun_SetAutoCycle (tick1 e) (tick2 e) 1 (dev_matrix d) of (calls, m) \<Rightarrow>
                   answer (UART_SendACK (stack e) (pkt_cmd pkt)) calls (d\<lparr>dev_matrix := m\<rparr>))
           else do {
             n \<leftarrow> atoi action;
             if n = - 2147483648 then None
             else let screen = n - 1
              in if screen < 0 \<or> screen > 3
                 then answer (UART_SendNACK (stack e) (pkt_cmd pkt) ERR_INVALID_DATA) [] d
                 else (case MatrixRun_SetScreen (tick1 e) (word_of_int screen) (dev_matrix d) of (calls, m) \<Rightarrow>
                         answer (UART_SendACK (stack e) (pkt_cmd pkt)) calls (d\<lparr>dev_matrix := m\<rparr>)) }))"

definition handle_play_wav :: "'f surroundings \<Rightarrow> Packet_t \<Rightarrow> 'f device \<Rightarrow> 'f outcome" where
  "handle_play_wav e pkt d =
     (if pkt_len pkt = 0 \<or> unat (pkt_len pkt) > 255 then answer (UART_SendNACK (stack e) CMD_NACK 1) [] d
      else if length (pkt_data pkt) < unat (pkt_len pkt) then None
      else do {
        let filename = c_string (payload pkt @ [0]);
        (started, a) \<leftarrow> Audio_StartWav (card e) (hal_ok e) filename (dev_audio d);
        answer (UART_SendNACK (stack e) CMD_ACK 0) [] (d\<lparr>dev_audio := a\<rparr>) })"

definition handle_get_wavs :: "'f surroundings \<Rightarrow> 'f device \<Rightarrow> 'f outcome" where
  "handle_get_wavs e d = do {
     (res, data, len) \<leftarrow> sd_read_files (directory e) (list_data e) (list_len e);
     answer (SendPacket (stack e) CMD_RESP_WAVS data len) [] d }"

definition handle_packet :: "'f surroundings \<Rightarrow> Packet_t \<Rightarrow> 'f device \<Rightarrow> 'f outcome" where
  "handle_packet e pkt d =
     (if pkt_cmd pkt = CMD_GET_CO then handle_get_co e d
      else if pkt_cmd pkt = CMD_GET_CO2 then handle_get_co2 e d
      else if pkt_cmd pkt = CMD_GET_TEMP_HUM then handle_temp_hum e pkt d
      else if pkt_cmd pkt = CMD_SET_LED then handle_set_led e pkt d
      else if pkt_cmd pkt = CMD_TRAIN_DEST then handle_train_dest e pkt d
      else if pkt_cmd pkt = CMD_DISPLAY_CTRL then handle_display_ctrl e pkt d
      else if pkt_cmd pkt = CMD_PLAY_WAV then handle_play_wav e pkt d
      else if pkt_cmd pkt = CMD_GET_WAVS then handle_get_wavs e d
      else answer (UART_SendNACK (stack e) (pkt_cmd pkt) ERR_INVALID_CMD) [] d)"

definition UART_Handler_Process :: "'f surroundings \<Rightarrow> 'f device \<Rightarrow> 'f outcome" where
  "UART_Handler_Process e d =
     (if pktReady (dev_uart d) = 0 then Some ([], [], d)
      else handle_packet e (pendingPkt (dev_uart d)) (d\<lparr>dev_uart := (dev_uart d)\<lparr>pktReady := 0\<rparr>\<rparr>))"

section \<open>What is sent\<close>

lemma send_ack: "length stk = 262 \<Longrightarrow> UART_SendACK stk c = Some (frame CMD_ACK [c])"
  using SendPacket_frame [of stk 1 "[c]" CMD_ACK] by (simp add: UART_SendACK_def)

lemma send_nack: "length stk = 262 \<Longrightarrow> UART_SendNACK stk c err = Some (frame CMD_NACK [c, err])"
  using SendPacket_frame [of stk 2 "[c, err]" CMD_NACK] by (simp add: UART_SendNACK_def)

lemma send_sensor:
  "length stk = 262 \<Longrightarrow> UART_SendSensorResp stk c [x, y, z] 3 = Some (frame CMD_RESP_SENSOR [c, x, y, z])"
  using SendPacket_frame [of stk 4 "[c, x, y, z]" CMD_RESP_SENSOR] by (simp add: UART_SendSensorResp_def)

lemma send_defined:
  assumes "length stk = 262" and "unat n \<le> length d"
  obtains bs where "SendPacket stk c d n = Some bs"
proof -
  obtain buf where "put_all (frame c (take (unat n) d)) (stk, 0) = Some (buf, of_nat (length (frame c (take (unat n) d))))"
    using put_all_defined [OF assms(1), of "frame c (take (unat n) d)" 0] by auto
  then show ?thesis using that assms(2) by (simp add: SendPacket_put_all)
qed

lemma answer_Some [simp]: "answer (Some bs) calls d = Some ([bs], calls, d)"
  by (simp add: answer_def)

section \<open>Specification\<close>

text \<open>
  The two bytes of the negative acknowledgement with which a command is refused because of its payload, if it is. The
  readings of the sensors and the list of files do not look at their payload, and a train destination may be any byte.
\<close>

definition no_screen :: "u8 list \<Rightarrow> bool" where
  "no_screen action \<longleftrightarrow> action \<noteq> c_lit ''0'' \<and>
     (case atoi action of None \<Rightarrow> False | Some n \<Rightarrow> n \<noteq> - 2147483648 \<and> (n < 1 \<or> n > 4))"

definition refusal :: "u8 \<Rightarrow> u8 list \<Rightarrow> (u8 \<times> u8) option" where
  "refusal cmd pl =
     (let bad = (\<lambda>b. if b then Some (cmd, ERR_INVALID_DATA) else None) in
      if cmd \<in> {CMD_GET_CO, CMD_GET_CO2, CMD_GET_WAVS} then None
      else if cmd = CMD_PLAY_WAV then (if pl = [] then Some (CMD_NACK, 1) else None)
      else if cmd = CMD_GET_TEMP_HUM then bad (length pl \<noteq> 4)
      else if cmd = CMD_SET_LED then bad (length pl \<noteq> 8 \<or> \<not> list_all (\<lambda>b. b \<le> 2) pl)
      else if cmd = CMD_TRAIN_DEST then bad (length pl \<noteq> 1)
      else if cmd = CMD_DISPLAY_CTRL then bad (pl = [] \<or> no_screen (c_string (pl @ [0])))
      else Some (cmd, ERR_INVALID_CMD))"

definition packet_ok :: "Packet_t \<Rightarrow> bool" where
  "packet_ok pkt \<longleftrightarrow> length (pkt_data pkt) = 256"

lemma length_payload: "packet_ok pkt \<Longrightarrow> length (payload pkt) = unat (pkt_len pkt)"
  using unat_u8 [of "pkt_len pkt"] by (simp add: packet_ok_def payload_def)

lemma payload_len: "packet_ok pkt \<Longrightarrow> unat n = k \<Longrightarrow> pkt_len pkt = n \<longleftrightarrow> length (payload pkt) = k"
  by (auto simp: length_payload word_unat_eq_iff)

lemma small_len: "\<not> unat (pkt_len pkt) \<ge> PKT_MAX_DATA_LEN" "\<not> unat (pkt_len pkt) > 255"
  using unat_u8 [of "pkt_len pkt"] by (simp_all add: PKT_MAX_DATA_LEN_def not_le not_less)

lemma packet_room: "packet_ok pkt \<Longrightarrow> \<not> length (pkt_data pkt) < unat (pkt_len pkt)"
  by (simp add: packet_ok_def not_less less_imp_le)

lemma load_data: "packet_ok pkt \<Longrightarrow> k < 256 \<Longrightarrow> c_load (pkt_data pkt) (int k) = Some (pkt_data pkt ! k)"
  by (simp add: packet_ok_def c_load_nat)

lemma set_led_refused:
  assumes "packet_ok pkt" and "length (stack e) = 262"
    and "length (payload pkt) \<noteq> 8 \<or> \<not> list_all (\<lambda>b. b \<le> 2) (payload pkt)"
  shows "handle_set_led e pkt d = Some ([frame CMD_NACK [pkt_cmd pkt, ERR_INVALID_DATA]], [], d)"
proof (cases "length (payload pkt) = 8")
  case False
  then have "pkt_len pkt \<noteq> 8" using payload_len [OF assms(1), of 8 8] by simp
  then show ?thesis using assms(2) by (simp add: handle_set_led_def send_nack)
next
  case True
  then have l: "pkt_len pkt = 8" using payload_len [OF assms(1), of 8 8] by simp
  have "list_ex (\<lambda>b. b > 2) (take 8 (pkt_data pkt))"
    using assms(3) True l by (simp add: payload_def list_ex_iff list_all_iff not_le)
  then show ?thesis using assms(1,2) l by (simp add: handle_set_led_def send_nack packet_ok_def)
qed

lemma display_refused:
  assumes "packet_ok pkt" and "length (stack e) = 262"
    and "payload pkt = [] \<or> no_screen (c_string (payload pkt @ [0]))"
  shows "handle_display_ctrl e pkt d = Some ([frame CMD_NACK [pkt_cmd pkt, ERR_INVALID_DATA]], [], d)"
proof (cases "payload pkt = []")
  case True
  then have "pkt_len pkt = 0" using payload_len [OF assms(1), of 0 0] by simp
  then show ?thesis using assms(2) by (simp add: handle_display_ctrl_def send_nack)
next
  case False
  then have "pkt_len pkt \<noteq> 0" using payload_len [OF assms(1), of 0 0] by simp
  moreover obtain n where "atoi (c_string (payload pkt @ [0])) = Some n" "n \<noteq> - 2147483648"
    "n < 1 \<or> n > 4" "c_string (payload pkt @ [0]) \<noteq> c_lit ''0''"
    using assms(3) False by (auto simp: no_screen_def split: option.splits)
  ultimately show ?thesis using assms(1,2)
    by (auto simp: handle_display_ctrl_def send_nack small_len packet_room Let_def)
qed

lemma refused:
  assumes p: "packet_ok pkt" and stk: "length (stack e) = 262"
    and r: "refusal (pkt_cmd pkt) (payload pkt) = Some (c, err)"
  shows "handle_packet e pkt d = Some ([frame CMD_NACK [c, err]], [], d)"
proof -
  note r = r [unfolded refusal_def Let_def]
  consider "pkt_cmd pkt = CMD_GET_TEMP_HUM" | "pkt_cmd pkt = CMD_SET_LED" | "pkt_cmd pkt = CMD_TRAIN_DEST"
    | "pkt_cmd pkt = CMD_DISPLAY_CTRL" | "pkt_cmd pkt = CMD_PLAY_WAV"
    | "pkt_cmd pkt \<notin> {CMD_GET_CO, CMD_GET_CO2, CMD_PLAY_WAV, CMD_GET_WAVS, CMD_GET_TEMP_HUM, CMD_SET_LED,
        CMD_TRAIN_DEST, CMD_DISPLAY_CTRL}"
    using r by (cases "pkt_cmd pkt \<in> {CMD_GET_CO, CMD_GET_CO2, CMD_GET_WAVS}") auto
  then show ?thesis
  proof cases
    case 1
    then have "pkt_len pkt \<noteq> 4" "c = pkt_cmd pkt" "err = ERR_INVALID_DATA"
      using r payload_len [OF p, of 4 4] by (auto simp: cmd_defs split: if_splits)
    then show ?thesis using 1 stk by (simp add: handle_packet_def handle_temp_hum_def send_nack cmd_defs)
  next
    case 2
    then have "length (payload pkt) \<noteq> 8 \<or> \<not> list_all (\<lambda>b. b \<le> 2) (payload pkt)" "c = pkt_cmd pkt" "err = ERR_INVALID_DATA"
      using r by (auto simp: cmd_defs split: if_splits)
    then show ?thesis using 2 set_led_refused [OF p stk] by (simp add: handle_packet_def cmd_defs)
  next
    case 3
    then have "pkt_len pkt \<noteq> 1" "c = pkt_cmd pkt" "err = ERR_INVALID_DATA"
      using r payload_len [OF p, of 1 1] by (auto simp: cmd_defs split: if_splits)
    then show ?thesis using 3 stk by (simp add: handle_packet_def handle_train_dest_def send_nack cmd_defs)
  next
    case 4
    then have "payload pkt = [] \<or> no_screen (c_string (payload pkt @ [0]))" "c = pkt_cmd pkt" "err = ERR_INVALID_DATA"
      using r by (auto simp: cmd_defs split: if_splits)
    then show ?thesis using 4 display_refused [OF p stk] by (simp add: handle_packet_def cmd_defs)
  next
    case 5
    then have "pkt_len pkt = 0" "c = CMD_NACK" "err = 1"
      using r payload_len [OF p, of 0 0] by (auto simp: cmd_defs split: if_splits)
    then show ?thesis using 5 stk by (simp add: handle_packet_def handle_play_wav_def send_nack cmd_defs)
  next
    case 6
    then have "c = pkt_cmd pkt" "err = ERR_INVALID_CMD" using r by (auto split: if_splits)
    then show ?thesis using 6 stk by (simp add: handle_packet_def send_nack)
  qed
qed

section \<open>Every packet is answered\<close>

definition device_ok :: "'f device \<Rightarrow> bool" where
  "device_ok d \<longleftrightarrow> uart_inv (dev_uart d) \<and> matrix_inv (dev_matrix d) \<and> player_inv (dev_audio d)"

definition surroundings_ok :: "'f surroundings \<Rightarrow> bool" where
  "surroundings_ok e \<longleftrightarrow> length (stack e) = 262 \<and> length (list_data e) = 255 \<and> fatfs_ok (card e) \<and>
     (\<forall>es. directory e = Inr es \<longrightarrow> short_names es)"

text \<open>
  The packets whose handling C defines: a hundred times the gas concentration has to fit 16 bits, and a
  screen number an \<open>int\<close> from which one can be subtracted.
\<close>

definition gas_fits :: "rat option \<Rightarrow> bool" where
  "gas_fits r \<longleftrightarrow> (case r of None \<Rightarrow> False | Some v \<Rightarrow> 0 \<le> v \<and> v * 100 < 65536)"

definition number_fits :: "u8 list \<Rightarrow> bool" where
  "number_fits action \<longleftrightarrow> atoi action \<notin> {None, Some (- 2147483648)}"

definition answerable :: "'f surroundings \<Rightarrow> 'f device \<Rightarrow> bool" where
  "answerable e d \<longleftrightarrow> (let pkt = pendingPkt (dev_uart d) in
     (pkt_cmd pkt = CMD_GET_CO \<longrightarrow> gas_fits (fst (MQ7_ReadCO (powf e) (conversions e) (1 / 10) (dev_mq7 d)))) \<and>
     (pkt_cmd pkt = CMD_GET_CO2 \<longrightarrow> gas_fits (fst (MQ135_ReadCO2 (powf e) (conversions e) (1 / 10) (dev_mq135 d)))) \<and>
     (pkt_cmd pkt = CMD_DISPLAY_CTRL \<longrightarrow> number_fits (c_string (payload pkt @ [0]))))"

definition good :: "'f outcome \<Rightarrow> bool" where
  "good out \<longleftrightarrow> (\<exists>bs calls d. out = Some ([bs], calls, d) \<and> device_ok d \<and> pktReady (dev_uart d) = 0 \<and>
     list_all call_ok calls)"

lemma goodI: "device_ok d \<Longrightarrow> pktReady (dev_uart d) = 0 \<Longrightarrow> list_all call_ok calls \<Longrightarrow> good (Some ([bs], calls, d))"
  by (auto simp: good_def)

lemma c_uint16_fits:
  assumes "0 \<le> v" and "v < 65536"
  shows "c_uint16 v = Some (word_of_int \<lfloor>v\<rfloor>)"
proof -
  have "\<lfloor>v\<rfloor> < 65536" "0 \<le> \<lfloor>v\<rfloor>" using assms by (simp_all add: floor_less_iff)
  then show ?thesis using assms(1) by (simp add: c_uint16_def c_trunc_def)
qed

lemma c_uint16_large:
  assumes "65536 \<le> v"
  shows "c_uint16 v = None"
proof -
  have "65536 \<le> \<lfloor>v\<rfloor>" using assms by (simp add: le_floor_iff)
  then show ?thesis using assms by (simp add: c_uint16_def c_trunc_def)
qed

lemma gas_fits_send:
  assumes "gas_fits r"
  obtains v where "r = Some v" "c_uint16 (v * 100) = Some (word_of_int \<lfloor>v * 100\<rfloor>)"
  using assms that by (auto simp: gas_fits_def c_uint16_fits split: option.splits)

lemma screen_good:
  assumes "device_ok d" "pktReady (dev_uart d) = 0" and "matrix_step (dev_matrix d) calls m"
  shows "good (Some ([bs], calls, d\<lparr>dev_matrix := m\<rparr>))"
  using assms matrix_step_inv [OF assms(3)] by (intro goodI) (auto simp: device_ok_def)

lemma display_good:
  assumes "packet_ok pkt" "length (stack e) = 262" and d: "device_ok d" "pktReady (dev_uart d) = 0"
    and n: "number_fits (c_string (payload pkt @ [0]))"
  shows "good (handle_display_ctrl e pkt d)"
proof (cases "payload pkt = [] \<or> no_screen (c_string (payload pkt @ [0]))")
  case True
  then show ?thesis using display_refused [OF assms(1,2)] d by (simp add: goodI)
next
  case False
  then have "pkt_len pkt \<noteq> 0" using payload_len [OF assms(1), of 0 0] by simp
  note simps = handle_display_ctrl_def send_ack small_len packet_room Let_def assms(1,2) this
  show ?thesis
  proof (cases "c_string (payload pkt @ [0]) = c_lit ''0''")
    case True
    then show ?thesis using screen_good [OF d matrix_step.auto]
      by (auto simp: simps split: prod.split)
  next
    case other: False
    then obtain k where "atoi (c_string (payload pkt @ [0])) = Some k" "k \<noteq> - 2147483648" "\<not> k < 1" "\<not> k > 4"
      using False n by (auto simp: no_screen_def number_fits_def split: option.splits)
    then show ?thesis using other screen_good [OF d matrix_step.screen]
      by (auto simp: simps split: prod.split)
  qed
qed

lemma play_good:
  assumes "packet_ok pkt" "length (stack e) = 262" and fs: "fatfs_ok (card e)"
    and d: "device_ok d" "pktReady (dev_uart d) = 0"
  shows "good (handle_play_wav e pkt d)"
proof (cases "pkt_len pkt = 0")
  case True
  then show ?thesis using assms by (simp add: handle_play_wav_def send_nack goodI)
next
  case False
  have "player_inv (dev_audio d)" using d by (simp add: device_ok_def)
  then obtain r a where "Audio_StartWav (card e) (hal_ok e) (c_string (payload pkt @ [0])) (dev_audio d) = Some (r, a)"
    "player_inv a" using fs by (elim StartWav_inv)
  then show ?thesis using False assms
    by (simp add: handle_play_wav_def small_len packet_room send_nack goodI device_ok_def)
qed

lemma wavs_good:
  assumes e: "surroundings_ok e" and d: "device_ok d" "pktReady (dev_uart d) = 0"
  shows "good (handle_get_wavs e d)"
proof -
  obtain res data len where r: "sd_read_files (directory e) (list_data e) (list_len e) = Some (res, data, len)"
    and l: "length data = 255"
  proof (cases "directory e")
    case (Inl res)
    then show ?thesis using that e by (simp add: sd_read_files_def surroundings_ok_def)
  next
    case (Inr es)
    then have "short_names es" "length (list_data e) = 255" using e by (simp_all add: surroundings_ok_def)
    then show ?thesis using Inr that by (elim sd_read_files_law) auto
  qed
  have stk: "length (stack e) = 262" using e by (simp add: surroundings_ok_def)
  have "unat len \<le> length data" unfolding l by simp
  with stk obtain bs where "SendPacket (stack e) CMD_RESP_WAVS data len = Some bs" by (rule send_defined)
  then show ?thesis using r d by (simp add: handle_get_wavs_def goodI)
qed

lemma set_led_good:
  assumes "packet_ok pkt" "length (stack e) = 262" and d: "device_ok d" "pktReady (dev_uart d) = 0"
  shows "good (handle_set_led e pkt d)"
  using assms screen_good [OF d matrix_step.congestion]
  by (simp add: handle_set_led_def send_nack send_ack goodI packet_ok_def)

lemma simple_good:
  assumes p: "packet_ok pkt" "length (stack e) = 262" and d: "device_ok d" "pktReady (dev_uart d) = 0"
  shows "good (handle_train_dest e pkt d)" "good (handle_temp_hum e pkt d)"
proof -
  show "good (handle_train_dest e pkt d)"
    using p d load_data [OF p(1), of 0] screen_good [OF d matrix_step.dest]
    by (simp add: handle_train_dest_def send_nack send_ack goodI)
  show "good (handle_temp_hum e pkt d)"
    using p d load_data [OF p(1), of 0] load_data [OF p(1), of 1] load_data [OF p(1), of 2] load_data [OF p(1), of 3]
    by (simp add: handle_temp_hum_def send_nack send_ack goodI device_ok_def)
qed

lemma gas_good:
  assumes "length (stack e) = 262" and d: "device_ok d" "pktReady (dev_uart d) = 0"
  shows "gas_fits (fst (MQ7_ReadCO (powf e) (conversions e) (1 / 10) (dev_mq7 d))) \<Longrightarrow> good (handle_get_co e d)"
    and "gas_fits (fst (MQ135_ReadCO2 (powf e) (conversions e) (1 / 10) (dev_mq135 d))) \<Longrightarrow> good (handle_get_co2 e d)"
  using assms by (auto elim!: gas_fits_send split: prod.split
      simp: handle_get_co_def handle_get_co2_def send_sensor goodI device_ok_def)

lemma handle_packet_good:
  assumes "packet_ok pkt" and e: "surroundings_ok e" and d: "device_ok d" "pktReady (dev_uart d) = 0"
    and co: "pkt_cmd pkt = CMD_GET_CO \<Longrightarrow> gas_fits (fst (MQ7_ReadCO (powf e) (conversions e) (1 / 10) (dev_mq7 d)))"
    and co2: "pkt_cmd pkt = CMD_GET_CO2 \<Longrightarrow> gas_fits (fst (MQ135_ReadCO2 (powf e) (conversions e) (1 / 10) (dev_mq135 d)))"
    and n: "pkt_cmd pkt = CMD_DISPLAY_CTRL \<Longrightarrow> number_fits (c_string (payload pkt @ [0]))"
  shows "good (handle_packet e pkt d)"
proof -
  have "length (stack e) = 262" "fatfs_ok (card e)" using e by (simp_all add: surroundings_ok_def)
  then show ?thesis using assms
    by (simp add: handle_packet_def gas_good simple_good set_led_good display_good play_good wavs_good send_nack goodI)
qed

lemma device_ok_taken: "device_ok d \<Longrightarrow> device_ok (d\<lparr>dev_uart := (dev_uart d)\<lparr>pktReady := 0\<rparr>\<rparr>)"
  by (simp add: device_ok_def uart_inv_def)

lemma device_ok_packet: "device_ok d \<Longrightarrow> packet_ok (pendingPkt (dev_uart d))"
  by (simp add: device_ok_def uart_inv_def packet_ok_def)

text \<open>One packet gives one transmission, and only the receiving side touches the receiver's state.\<close>

lemma answer_shape: "answer tx calls d = Some (bs, cs, d') \<longleftrightarrow> (\<exists>f. tx = Some f \<and> bs = [f] \<and> cs = calls \<and> d' = d)"
  by (auto simp: answer_def)

lemmas handle_defs = handle_packet_def handle_get_co_def handle_get_co2_def handle_temp_hum_def handle_set_led_def
  handle_train_dest_def handle_display_ctrl_def handle_play_wav_def handle_get_wavs_def

lemma handle_packet_shape:
  "handle_packet e pkt d = Some (bs, cs, d') \<Longrightarrow> length bs = 1 \<and> dev_uart d' = dev_uart d"
  by (auto simp: handle_defs answer_shape Let_def split: if_splits prod.splits bind_splits option.splits)

text \<open>What is transmitted: a short frame, or the list of files.\<close>

definition answer_sent :: "u8 \<Rightarrow> u8 list \<Rightarrow> bool" where
  "answer_sent cmd bs \<longleftrightarrow>
     (if cmd = CMD_GET_WAVS then (\<exists>names. length names \<le> 250 \<and> bs = frame CMD_RESP_WAVS names) \<or> length bs < 5
      else \<exists>c \<in> {CMD_ACK, CMD_NACK, CMD_RESP_SENSOR}. \<exists>pl. length pl \<le> 4 \<and> bs = frame c pl)"

lemma answer_sent_frame:
  "cmd \<noteq> CMD_GET_WAVS \<Longrightarrow> c \<in> {CMD_ACK, CMD_NACK, CMD_RESP_SENSOR} \<Longrightarrow> length pl \<le> 4 \<Longrightarrow> answer_sent cmd (frame c pl)"
  by (auto simp: answer_sent_def)

lemma names_sent:
  assumes "length stk = 262" and "SendPacket stk CMD_RESP_WAVS data n = Some bs"
  shows "answer_sent CMD_GET_WAVS bs"
proof -
  have len: "unat n \<le> length data" using assms(2) by (simp add: SendPacket_def put_all_append split: if_splits)
  show ?thesis
  proof (cases "unat n \<le> 250")
    case True
    then show ?thesis using SendPacket_frame [OF assms(1) True len, of CMD_RESP_WAVS] assms(2) len
      by (auto simp: answer_sent_def intro!: exI [of _ "take (unat n) data"])
  next
    case False
    have "length bs = (unat n + 5) mod 256" using SendPacket_length [OF assms(1) len, of CMD_RESP_WAVS] assms(2) by simp
    moreover have "unat n + 5 = (unat n - 251) + 256" "unat n - 251 < 5" using False unat_u8 [of n] by linarith+
    ultimately have "length bs < 5" by (simp only: mod_add_self2 mod_less)
    then show ?thesis by (simp add: answer_sent_def)
  qed
qed

lemma handle_packet_sends:
  assumes "handle_packet e pkt d = Some (txs, cs, d')" and "length (stack e) = 262"
  shows "\<exists>bs. txs = [bs] \<and> answer_sent (pkt_cmd pkt) bs"
proof (cases "pkt_cmd pkt = CMD_GET_WAVS")
  case True
  then have "handle_get_wavs e d = Some (txs, cs, d')" using assms(1) by (simp add: handle_packet_def cmd_defs)
  then show ?thesis using names_sent [OF assms(2)] unfolding True
    by (auto simp: handle_get_wavs_def answer_shape split: bind_splits)
next
  case False
  then show ?thesis using assms
    by (auto simp: handle_defs answer_shape send_ack send_nack send_sensor answer_sent_frame Let_def
        split: if_splits prod.splits bind_splits option.splits)
qed

text \<open>A packet from the line, taken up by the dispatcher.\<close>

lemma frame_is_pending:
  assumes "rx_idle u" and "length pl \<le> 255"
  obtains v where "receive_bytes (frame c pl) u = Some v" "rx_idle v" "pktReady v = 1"
    "pkt_cmd (pendingPkt v) = c" "unat (pkt_len (pendingPkt v)) = length pl" "payload (pendingPkt v) = pl"
  using receive_frame [OF assms, of c] that by blast

lemma set_led_applied:
  assumes stk: "length (stack e) = 262" and u: "rx_idle (dev_uart d)" and m: "matrix_inv (dev_matrix d)"
    and ls: "length ls = 8" "list_all (\<lambda>b. b \<le> 2) ls"
  obtains v where "receive_bytes (frame CMD_SET_LED ls) (dev_uart d) = Some v"
    "UART_Handler_Process e (d\<lparr>dev_uart := v\<rparr>) = Some ([frame CMD_ACK [CMD_SET_LED]], [],
      d\<lparr>dev_uart := v\<lparr>pktReady := 0\<rparr>, dev_matrix := (dev_matrix d)\<lparr>congestion_status := ls,
        dashboard_dirty := (if ls \<noteq> congestion_status (dev_matrix d) then 1 else dashboard_dirty (dev_matrix d))\<rparr>\<rparr>)"
proof -
  obtain v where v: "receive_bytes (frame CMD_SET_LED ls) (dev_uart d) = Some v" "rx_idle v"
    "pktReady v = 1" "pkt_cmd (pendingPkt v) = CMD_SET_LED" "unat (pkt_len (pendingPkt v)) = 8"
    "payload (pendingPkt v) = ls"
    using frame_is_pending [OF u, of ls CMD_SET_LED] ls(1) by auto
  let ?data = "pkt_data (pendingPkt v)"
  have n: "pkt_len (pendingPkt v) = 8" using v(5) by (simp add: word_unat_eq_iff)
  have t: "take 8 ?data = ls" using v(6) n by (simp add: payload_def)
  then have l: "8 \<le> length ?data" using ls(1) by (metis length_take min.cobounded1)
  have "copy_congestion (congestion_status (dev_matrix d)) ?data False
      = copy_congestion (congestion_status (dev_matrix d)) (take 8 ?data) False"
    using m copy_congestion_take [of "congestion_status (dev_matrix d)" ?data False] by (simp add: matrix_inv_def)
  then have "MatrixRun_SetCongestionBulk ?data (dev_matrix d) = (dev_matrix d)\<lparr>congestion_status := ls,
      dashboard_dirty := (if ls \<noteq> congestion_status (dev_matrix d) then 1 else dashboard_dirty (dev_matrix d))\<rparr>"
    using m ls(1) t by (auto simp: MatrixRun_SetCongestionBulk_def matrix_inv_def copy_congestion_eq Let_def)
  moreover have "\<not> list_ex (\<lambda>b. b > 2) (take 8 ?data)" using ls(2) t by (auto simp: list_ex_iff list_all_iff not_less)
  ultimately show ?thesis using v n l stk
    by (intro that [of v]) (simp_all add: UART_Handler_Process_def handle_packet_def handle_set_led_def send_ack cmd_defs)
qed

section \<open>Properties\<close>


text \<open>
  C5: Every packet is answered by one call that transmits. For any device whose parts satisfy
  their invariants and any card that keeps the contract of FatFs (with names that fit the array of a long name), the
  dispatcher performs no access outside an array, keeps all invariants, issues only drawing calls with valid arguments, and leaves no packet ready. What it hands to the line is the whole
  frame of a positive or negative acknowledgement or of a measurement, with at most four bytes of payload. The
  answer to a request for the list of files is a frame with a payload of up to 250 bytes, or fewer than five bytes,
  possibly none. Gas concentrations outside 0 to 655.35 and screen numbers outside \<open>int\<close> are excluded.
\<close>

theorem every_packet_answered:
  assumes "device_ok d" and "surroundings_ok e" and "pktReady (dev_uart d) \<noteq> 0" and "answerable e d"
  shows "\<exists>bs calls d'. UART_Handler_Process e d = Some ([bs], calls, d') \<and> device_ok d' \<and>
    pktReady (dev_uart d') = 0 \<and> list_all call_ok calls \<and>
    (if pkt_cmd (pendingPkt (dev_uart d)) = CMD_GET_WAVS
     then (\<exists>names. length names \<le> 250 \<and> bs = frame CMD_RESP_WAVS names) \<or> length bs < 5
     else \<exists>c \<in> {CMD_ACK, CMD_NACK, CMD_RESP_SENSOR}. \<exists>pl. length pl \<le> 4 \<and> bs = frame c pl)"
proof -
  let ?d = "d\<lparr>dev_uart := (dev_uart d)\<lparr>pktReady := 0\<rparr>\<rparr>"
  have "good (handle_packet e (pendingPkt (dev_uart d)) ?d)"
    using device_ok_packet [OF assms(1)] assms(2) device_ok_taken [OF assms(1)] assms(4)
    by (intro handle_packet_good) (simp_all add: answerable_def Let_def)
  then obtain bs calls d' where out: "handle_packet e (pendingPkt (dev_uart d)) ?d = Some ([bs], calls, d')"
    "device_ok d'" "pktReady (dev_uart d') = 0" "list_all call_ok calls" by (auto simp: good_def)
  have "length (stack e) = 262" using assms(2) by (simp add: surroundings_ok_def)
  with handle_packet_sends [OF out(1)] have "answer_sent (pkt_cmd (pendingPkt (dev_uart d))) bs" by simp
  then show ?thesis using assms(3) out unfolding answer_sent_def by (simp add: UART_Handler_Process_def)
qed

text \<open>
  The answer to a request for the carbon dioxide concentration carries a hundred times the filtered
  value, rounded down, high byte first, as long as it fits 16 bits; the sensor's range goes up to 5000,
  and from 655.36 on the conversion is undefined.
\<close>

theorem co2_reply:
  assumes "length (stack e) = 262" and "pktReady (dev_uart d) \<noteq> 0"
    and "pkt_cmd (pendingPkt (dev_uart d)) = CMD_GET_CO2" and "co2_inv (dev_mq135 d)"
    and "MQ135_ReadCO2 (powf e) (conversions e) (1 / 10) (dev_mq135 d) = (Some v, g)"
  shows "UART_Handler_Process e d =
    (if v * 100 < 65536
     then (let w = word_of_int \<lfloor>v * 100\<rfloor>
           in Some ([frame CMD_RESP_SENSOR [CMD_RESP_SENSOR, CMD_GET_CO2, hi8 w, lo8 w]], [],
                d\<lparr>dev_uart := (dev_uart d)\<lparr>pktReady := 0\<rparr>, dev_mq135 := g\<rparr>))
     else None)"
proof -
  have "0 \<le> v" using co2_read_inv [OF assms(4), of "1 / 10" "powf e" "conversions e"] assms(5) by auto
  then show ?thesis using assms c_uint16_fits [of "v * 100"] c_uint16_large [of "v * 100"]
    by (simp add: UART_Handler_Process_def handle_packet_def handle_get_co2_def send_sensor cmd_defs Let_def)
qed

text \<open>
  Only one packet can wait. When two valid frames arrive before the main loop comes round, the second
  replaces the first: one answer is sent, to the second, and none is ever sent to the first.
\<close>

theorem later_packet_replaces_earlier:
  assumes "rx_idle (dev_uart d)" and "length p1 \<le> 255" and "length p2 \<le> 255"
  shows "\<exists>u. receive_bytes (frame c1 p1 @ frame c2 p2) (dev_uart d) = Some u \<and>
    pkt_cmd (pendingPkt u) = c2 \<and> payload (pendingPkt u) = p2 \<and>
    (\<forall>bs calls d'. UART_Handler_Process e (d\<lparr>dev_uart := u\<rparr>) = Some (bs, calls, d') \<longrightarrow>
       length bs = 1 \<and> UART_Handler_Process e d' = Some ([], [], d'))"
proof -
  obtain u where u: "receive_bytes (frame c1 p1) (dev_uart d) = Some u" "rx_idle u"
    using frame_is_pending [OF assms(1,2)] by blast
  obtain v where v: "receive_bytes (frame c2 p2) u = Some v" "pktReady v = 1"
    "pkt_cmd (pendingPkt v) = c2" "payload (pendingPkt v) = p2"
    using frame_is_pending [OF u(2) assms(3)] by blast
  have "length bs = 1 \<and> UART_Handler_Process e d' = Some ([], [], d')"
    if "UART_Handler_Process e (d\<lparr>dev_uart := v\<rparr>) = Some (bs, calls, d')" for bs calls d'
    using that v(2) by (auto simp: UART_Handler_Process_def dest!: handle_packet_shape)
  then show ?thesis using u v by (intro exI [of _ v]) (simp add: events_append)
qed

section \<open>Witnesses\<close>

text \<open>A device after power-on that holds one packet, and an empty card.\<close>

definition device_with :: "u8 \<Rightarrow> u8 list \<Rightarrow> u8 list device" where
  "device_with c pl = \<lparr>dev_uart = uart_power_on\<lparr>pktReady := 1, pendingPkt := \<lparr>pkt_cmd = c,
      pkt_len = of_nat (length pl), pkt_data = pl @ replicate (256 - length pl) 0,
      pkt_crc = c XOR of_nat (length pl) XOR xor_all pl XOR PKT_ETX\<rparr>\<rparr>,
     dev_matrix = matrix_power_on, dev_audio = audio_boot True, dev_data = Data_Manager_Init,
     dev_mq7 = gas_power_on, dev_mq135 = gas_power_on\<rparr>"

definition empty_card :: "u8 list surroundings" where
  "empty_card = \<lparr>stack = replicate 262 0, list_data = replicate 255 0, list_len = 0,
     conversions = replicate 32 (Some 100), powf = (\<lambda>_ _. None), tick1 = 5, tick2 = 5,
     card = mem_fatfs [], directory = Inr [], hal_ok = True\<rparr>"

lemma device_with_ok: "length pl \<le> 255 \<Longrightarrow> device_ok (device_with c pl)"
  using player_boot_inv [of True]
  by (simp add: device_ok_def device_with_def uart_inv_def uart_power_on_def packet_zero_def PKT_MAX_DATA_LEN_def
      Calc_CRC_eq payload_def matrix_inv_def matrix_power_on_def)

lemma device_with_fields:
  assumes "length pl \<le> 255"
  shows "pktReady (dev_uart (device_with c pl)) = 1" "pkt_cmd (pendingPkt (dev_uart (device_with c pl))) = c"
    "payload (pendingPkt (dev_uart (device_with c pl))) = pl" "rx_idle (dev_uart (device_with c pl))"
    "dev_matrix (device_with c pl) = matrix_power_on" "dev_mq135 (device_with c pl) = gas_power_on"
  using assms by (simp_all add: device_with_def payload_def rx_idle_def uart_power_on_def packet_zero_def
      PKT_MAX_DATA_LEN_def)

lemma empty_card_ok: "surroundings_ok empty_card"
  by (simp add: surroundings_ok_def empty_card_def mem_fatfs_ok short_names_def)


lemma every_packet_answered_witness:
  "\<exists>bs calls d'. UART_Handler_Process empty_card (device_with CMD_PLAY_WAV (c_lit ''a.wav'')) = Some ([bs], calls, d') \<and>
    device_ok d' \<and> pktReady (dev_uart d') = 0 \<and> list_all call_ok calls \<and>
    (\<exists>c \<in> {CMD_ACK, CMD_NACK, CMD_RESP_SENSOR}. \<exists>pl. length pl \<le> 4 \<and> bs = frame c pl)"
  using every_packet_answered [of "device_with CMD_PLAY_WAV (c_lit ''a.wav'')" empty_card]
  by (simp add: device_with_ok device_with_fields empty_card_ok answerable_def cmd_defs c_lit_def)

lemma co2_reply_witness:
  "UART_Handler_Process (empty_card\<lparr>conversions := replicate 32 None\<rparr>) (device_with CMD_GET_CO2 [])
    = Some ([frame CMD_RESP_SENSOR [CMD_RESP_SENSOR, CMD_GET_CO2, 0, 0]], [],
        (device_with CMD_GET_CO2 [])\<lparr>dev_uart := (dev_uart (device_with CMD_GET_CO2 []))\<lparr>pktReady := 0\<rparr>,
          dev_mq135 := gas_power_on\<lparr>first_run := 0\<rparr>\<rparr>)"
proof -
  have "MQ135_ReadCO2 f (replicate 32 None) (1 / 10) gas_power_on = (Some 0, gas_power_on\<lparr>first_run := 0\<rparr>)" for f
    by (simp add: MQ135_ReadCO2_def ema_filter_def gas_power_on_def ADC_to_CO2_def numeral_eq_Suc)
  then show ?thesis
    using co2_reply [of "empty_card\<lparr>conversions := replicate 32 None\<rparr>" "device_with CMD_GET_CO2 []" 0
        "gas_power_on\<lparr>first_run := 0\<rparr>"]
    by (simp add: device_with_fields empty_card_def co2_inv_def hi8_def lo8_def)
      (simp add: gas_power_on_def)
qed

lemma later_packet_replaces_earlier_witness:
  "\<exists>u. receive_bytes (frame CMD_TRAIN_DEST [1] @ frame CMD_DISPLAY_CTRL [0x32])
      (dev_uart (device_with CMD_GET_WAVS [])) = Some u \<and>
    pkt_cmd (pendingPkt u) = CMD_DISPLAY_CTRL \<and> payload (pendingPkt u) = [0x32] \<and>
    (\<forall>bs calls d'. UART_Handler_Process empty_card ((device_with CMD_GET_WAVS [])\<lparr>dev_uart := u\<rparr>) = Some (bs, calls, d') \<longrightarrow>
       length bs = 1 \<and> UART_Handler_Process empty_card d' = Some ([], [], d'))"
  by (rule later_packet_replaces_earlier) (simp_all add: device_with_fields)

text \<open>A concentration of 5000 is outside what the answer can carry.\<close>

lemma co2_reply_undefined:
  assumes "pktReady (dev_uart d) \<noteq> 0" and "pkt_cmd (pendingPkt (dev_uart d)) = CMD_GET_CO2"
    and "MQ135_ReadCO2 (powf e) (conversions e) (1 / 10) (dev_mq135 d) = (Some 5000, g)"
  shows "UART_Handler_Process e d = None"
  using assms c_uint16_large [of 500000]
  by (simp add: UART_Handler_Process_def handle_packet_def handle_get_co2_def cmd_defs)

text \<open>A file that does not exist is reported like one that plays.\<close>

lemma play_missing_file:
  assumes "packet_ok pkt" and "pkt_len pkt \<noteq> 0" and "length (stack e) = 262"
    and "Audio_StartWav (card e) (hal_ok e) (c_string (payload pkt @ [0])) (dev_audio d) = Some (r, a)"
  shows "handle_play_wav e pkt d = Some ([frame CMD_NACK [CMD_ACK, 0]], [], d\<lparr>dev_audio := a\<rparr>)"
  using assms by (simp add: handle_play_wav_def small_len packet_room send_nack)

end
