(* ===== verification/Gui_Paint.thy ===== *)
theory Gui_Paint
  imports Prelude "HOL-Library.Monad_Syntax"
begin

text \<open>
  \<open>Core/Src/drivers/display/gui_paint.c\<close>: drawing into the frame buffer, one byte a pixel,
  128 columns and 32 rows, both counted from the far corner. A drawing operation takes the buffer
  and returns it changed, or \<open>None\<close> where the code would store outside it (or read outside a
  font table). The arguments are the code's 16-bit words; arithmetic that C does on \<open>int\<close> is on
  integers. Diagnostic \<open>printf\<close>s are left out.
\<close>

section \<open>Constants and types\<close>

type_synonym fb = "u8 list"

definition LED_Width :: int where "LED_Width = 128"
definition LED_Height :: int where "LED_Height = 32"

definition WHITE :: u16 where "WHITE = 7"
definition BLACK :: u16 where "BLACK = 0"
definition RED :: u16 where "RED = 1"
definition GREEN :: u16 where "GREEN = 2"
definition BLUE :: u16 where "BLUE = 4"
definition YELLOW :: u16 where "YELLOW = 3"
definition FONT_BACKGROUND :: u16 where "FONT_BACKGROUND = WHITE"

datatype DOT_PIXEL = DOT_PIXEL_1X1 | DOT_PIXEL_2X2 | DOT_PIXEL_3X3 | DOT_PIXEL_4X4
  | DOT_PIXEL_5X5 | DOT_PIXEL_6X6 | DOT_PIXEL_7X7 | DOT_PIXEL_8X8

fun dot_size :: "DOT_PIXEL \<Rightarrow> int" where
  "dot_size DOT_PIXEL_1X1 = 1" | "dot_size DOT_PIXEL_2X2 = 2" | "dot_size DOT_PIXEL_3X3 = 3"
| "dot_size DOT_PIXEL_4X4 = 4" | "dot_size DOT_PIXEL_5X5 = 5" | "dot_size DOT_PIXEL_6X6 = 6"
| "dot_size DOT_PIXEL_7X7 = 7" | "dot_size DOT_PIXEL_8X8 = 8"

datatype DOT_STYLE = DOT_FILL_AROUND | DOT_FILL_RIGHTUP
datatype LINE_STYLE = LINE_STYLE_SOLID | LINE_STYLE_DOTTED
datatype DRAW_FILL = DRAW_FILL_EMPTY | DRAW_FILL_FULL

record sFONT =
  font_table :: "u8 list"
  font_Width :: nat
  font_Height :: nat

text \<open>Drawing operations one after the other.\<close>

fun draw_all :: "(fb \<Rightarrow> fb option) list \<Rightarrow> fb \<Rightarrow> fb option" where
  "draw_all [] img = Some img"
| "draw_all (f # fs) img = Option.bind (f img) (draw_all fs)"

section \<open>Pixels and points\<close>

definition HUB75_DrawPixel :: "u16 \<Rightarrow> u16 \<Rightarrow> u16 \<Rightarrow> fb \<Rightarrow> fb option" where
  "HUB75_DrawPixel Xpoint Ypoint Color img =
     c_store img ((LED_Width - uint Xpoint - 1) + ((LED_Height - uint Ypoint - 1) * LED_Width)) (ucast Color)"

text \<open>
  The points of a dot: the inner loop of the round dot ends at the first cell left of or above the
  matrix. An \<open>int\<close> argument is passed as a 16-bit word.
\<close>

definition Paint_DrawPoint :: "u16 \<Rightarrow> u16 \<Rightarrow> u16 \<Rightarrow> DOT_PIXEL \<Rightarrow> DOT_STYLE \<Rightarrow> fb \<Rightarrow> fb option" where
  "Paint_DrawPoint Xpoint Ypoint Color Dot_Pixel Dot_Style img =
     (let X = uint Xpoint; Y = uint Ypoint; d = dot_size Dot_Pixel in
      if X > LED_Width \<or> Y > LED_Height then Some img
      else if Dot_Style = DOT_FILL_AROUND
      then draw_all (concat (map (\<lambda>XDir.
             map (\<lambda>YDir. HUB75_DrawPixel (word_of_int (X + XDir - d)) (word_of_int (Y + YDir - d)) Color)
               (takeWhile (\<lambda>YDir. \<not> (X + XDir - d < 0 \<or> Y + YDir - d < 0)) [0..2 * d - 2]))
             [0..2 * d - 2])) img
      else draw_all (concat (map (\<lambda>XDir.
             map (\<lambda>YDir. HUB75_DrawPixel (word_of_int (X + XDir - 1)) (word_of_int (Y + YDir - 1)) Color)
               [0..d - 1]) [0..d - 1])) img)"

section \<open>Lines\<close>

text \<open>
  The endless loop of \<open>Paint_DrawLine\<close>. \<open>char\<close> is unsigned on this target. A run that does not
  end is \<open>None\<close>, too.
\<close>

definition line_dot :: "u16 \<Rightarrow> DOT_PIXEL \<Rightarrow> LINE_STYLE \<Rightarrow> u8 \<Rightarrow> u16 \<Rightarrow> u16 \<Rightarrow> fb \<Rightarrow> (u8 \<times> fb) option" where
  "line_dot Color Line_width Line_Style Dotted_Len Xpoint Ypoint img =
     (if Line_Style = LINE_STYLE_DOTTED \<and> Dotted_Len mod 3 = 0
      then map_option (\<lambda>img. (0, img))
             (Paint_DrawPoint Xpoint Ypoint (if Color \<noteq> 0 then BLACK else WHITE) Line_width DOT_FILL_AROUND img)
      else map_option (\<lambda>img. (Dotted_Len, img))
             (Paint_DrawPoint Xpoint Ypoint Color Line_width DOT_FILL_AROUND img))"

partial_function (option) line_loop ::
    "u16 \<Rightarrow> u16 \<Rightarrow> int \<Rightarrow> int \<Rightarrow> u16 \<Rightarrow> u16 \<Rightarrow> u16 \<Rightarrow> DOT_PIXEL \<Rightarrow> LINE_STYLE \<Rightarrow>
      u16 \<Rightarrow> u16 \<Rightarrow> int \<Rightarrow> u8 \<Rightarrow> fb \<Rightarrow> fb option" where
  "line_loop Xend Yend dx dy XAddway YAddway Color Line_width Line_Style Xpoint Ypoint Esp Dotted_Len img =
     do {
       (len, img) \<leftarrow> line_dot Color Line_width Line_Style (Dotted_Len + 1) Xpoint Ypoint img;
       if 2 * Esp \<ge> dy \<and> Xpoint = Xend then Some img
       else let e = (if 2 * Esp \<ge> dy then Esp + dy else Esp);
                x = (if 2 * Esp \<ge> dy then Xpoint + XAddway else Xpoint)
       in if 2 * e \<le> dx \<and> Ypoint = Yend then Some img
          else line_loop Xend Yend dx dy XAddway YAddway Color Line_width Line_Style x
                 (if 2 * e \<le> dx then Ypoint + YAddway else Ypoint)
                 (if 2 * e \<le> dx then e + dx else e) len img
     }"

definition Paint_DrawLine ::
    "u16 \<Rightarrow> u16 \<Rightarrow> u16 \<Rightarrow> u16 \<Rightarrow> u16 \<Rightarrow> DOT_PIXEL \<Rightarrow> LINE_STYLE \<Rightarrow> fb \<Rightarrow> fb option" where
  "Paint_DrawLine Xstart Ystart Xend Yend Color Line_width Line_Style img =
     (if uint Xstart > LED_Width \<or> uint Ystart > LED_Height \<or> uint Xend > LED_Width \<or> uint Yend > LED_Height
      then Some img
      else let dx = (if uint Xend - uint Xstart \<ge> 0 then uint Xend - uint Xstart else uint Xstart - uint Xend);
               dy = (if uint Yend - uint Ystart \<le> 0 then uint Yend - uint Ystart else uint Ystart - uint Yend);
               XAddway = (if Xstart < Xend then 1 else - 1);
               YAddway = (if Ystart < Yend then 1 else - 1)
           in line_loop Xend Yend dx dy XAddway YAddway Color Line_width Line_Style Xstart Ystart (dx + dy) 0 img)"

section \<open>Rectangles\<close>

text \<open>The fill loop draws the lines from \<open>Ystart\<close> up to, and without, \<open>Yend\<close>.\<close>

definition Paint_DrawRectangle ::
    "u16 \<Rightarrow> u16 \<Rightarrow> u16 \<Rightarrow> u16 \<Rightarrow> u16 \<Rightarrow> DOT_PIXEL \<Rightarrow> DRAW_FILL \<Rightarrow> fb \<Rightarrow> fb option" where
  "Paint_DrawRectangle Xstart Ystart Xend Yend Color Line_width Draw_Fill img =
     (if uint Xstart > LED_Width \<or> uint Ystart > LED_Height \<or> uint Xend > LED_Width \<or> uint Yend > LED_Height
      then Some img
      else if Draw_Fill = DRAW_FILL_FULL
      then draw_all (map (\<lambda>Ypoint. Paint_DrawLine Xstart (of_nat Ypoint) Xend (of_nat Ypoint) Color Line_width
             LINE_STYLE_SOLID) [unat Ystart..<unat Yend]) img
      else draw_all
        [Paint_DrawLine Xstart Ystart Xend Ystart Color Line_width LINE_STYLE_SOLID,
         Paint_DrawLine Xstart Ystart Xstart Yend Color Line_width LINE_STYLE_SOLID,
         Paint_DrawLine Xend Yend Xend Ystart Color Line_width LINE_STYLE_SOLID,
         Paint_DrawLine Xend Yend Xstart Yend Color Line_width LINE_STYLE_SOLID] img)"

text \<open>\<open>HUB75_ClearWindows\<close> addresses the buffer without the reversal of \<open>HUB75_DrawPixel\<close>.\<close>

definition HUB75_ClearWindows :: "u16 \<Rightarrow> u16 \<Rightarrow> u16 \<Rightarrow> u16 \<Rightarrow> u16 \<Rightarrow> fb \<Rightarrow> fb option" where
  "HUB75_ClearWindows Xstart Ystart Xend Yend Color img =
     (if Xstart = 0 \<or> Ystart = 0 then Some img
      else draw_all (concat (map (\<lambda>Y. map (\<lambda>X img. c_store img (X + Y * LED_Width) (ucast Color))
             [uint Xstart - 1..uint Xend - 2]) [uint Ystart - 1..uint Yend - 2])) img)"

section \<open>Characters and strings\<close>

definition char_pixel :: "u16 \<Rightarrow> u16 \<Rightarrow> nat \<Rightarrow> nat \<Rightarrow> u8 \<Rightarrow> u16 \<Rightarrow> u16 \<Rightarrow> fb \<Rightarrow> fb option" where
  "char_pixel Xpoint Ypoint Page Column bits Color_Foreground Color_Background img =
     (let lit = bits AND drop_bit (Column mod 8) 0x80 \<noteq> 0;
          X = Xpoint + of_nat Column; Y = Ypoint + of_nat Page
      in if FONT_BACKGROUND = Color_Background
         then (if lit then HUB75_DrawPixel X Y Color_Foreground img else Some img)
         else if lit then HUB75_DrawPixel X Y Color_Foreground img
         else HUB75_DrawPixel X Y Color_Background img)"

text \<open>The pointer into the table moves after every eighth column and at the end of a row.\<close>

fun char_columns :: "u8 list \<Rightarrow> u16 \<Rightarrow> u16 \<Rightarrow> u16 \<Rightarrow> u16 \<Rightarrow> nat \<Rightarrow> nat list \<Rightarrow> nat \<Rightarrow> fb \<Rightarrow> (nat \<times> fb) option" where
  "char_columns tbl X Y fg bg page [] ptr img = Some (ptr, img)"
| "char_columns tbl X Y fg bg page (c # cs) ptr img = do {
     b \<leftarrow> c_load tbl (int ptr);
     img \<leftarrow> char_pixel X Y page c b fg bg img;
     char_columns tbl X Y fg bg page cs (if c mod 8 = 7 then ptr + 1 else ptr) img }"

fun char_pages :: "sFONT \<Rightarrow> u16 \<Rightarrow> u16 \<Rightarrow> u16 \<Rightarrow> u16 \<Rightarrow> nat list \<Rightarrow> nat \<Rightarrow> fb \<Rightarrow> fb option" where
  "char_pages font X Y fg bg [] ptr img = Some img"
| "char_pages font X Y fg bg (p # ps) ptr img = do {
     (ptr, img) \<leftarrow> char_columns (font_table font) X Y fg bg p [0..<font_Width font] ptr img;
     char_pages font X Y fg bg ps (if font_Width font mod 8 \<noteq> 0 then ptr + 1 else ptr) img }"

definition bytes_per_row :: "sFONT \<Rightarrow> nat" where
  "bytes_per_row font = font_Width font div 8 + (if font_Width font mod 8 \<noteq> 0 then 1 else 0)"

text \<open>A character below the space makes the offset wrap to a huge value, far outside the table.\<close>

definition Paint_DrawChar :: "u16 \<Rightarrow> u16 \<Rightarrow> u8 \<Rightarrow> sFONT \<Rightarrow> u16 \<Rightarrow> u16 \<Rightarrow> fb \<Rightarrow> fb option" where
  "Paint_DrawChar Xpoint Ypoint Acsii_Char font Color_Foreground Color_Background img =
     (if uint Xpoint > LED_Width \<or> uint Ypoint > LED_Height then Some img
      else let Char_Offset = word_of_int ((uint Acsii_Char - 32) * int (font_Height font) * int (bytes_per_row font)) :: u32
           in char_pages font Xpoint Ypoint Color_Foreground Color_Background [0..<font_Height font] (unat Char_Offset) img)"

fun string_loop :: "u16 \<Rightarrow> u16 \<Rightarrow> sFONT \<Rightarrow> u16 \<Rightarrow> u16 \<Rightarrow> u8 list \<Rightarrow> u16 \<Rightarrow> u16 \<Rightarrow> fb \<Rightarrow> fb option" where
  "string_loop Xstart Ystart font fg bg [] Xpoint Ypoint img = Some img"
| "string_loop Xstart Ystart font fg bg (c # cs) Xpoint Ypoint img =
     (let (x, y) = (if uint Xpoint + int (font_Width font) > LED_Width
                    then (Xstart, Ypoint + of_nat (font_Height font)) else (Xpoint, Ypoint));
          (x, y) = (if uint y + int (font_Height font) > LED_Height then (Xstart, Ystart) else (x, y))
      in Option.bind (Paint_DrawChar x y c font bg fg img)
           (string_loop Xstart Ystart font fg bg cs (x + of_nat (font_Width font)) y))"

text \<open>The string is given without its terminating zero. The two colours are passed on exchanged.\<close>

definition Paint_DrawString_EN :: "u16 \<Rightarrow> u16 \<Rightarrow> u8 list \<Rightarrow> sFONT \<Rightarrow> u16 \<Rightarrow> u16 \<Rightarrow> fb \<Rightarrow> fb option" where
  "Paint_DrawString_EN Xstart Ystart pString font Color_Foreground Color_Background img =
     (if uint Xstart > LED_Width \<or> uint Ystart > LED_Height then Some img
      else string_loop Xstart Ystart font Color_Foreground Color_Background pString Xstart Ystart img)"

section \<open>Pixels of the buffer\<close>

text \<open>The cell of the pixel in column \<open>x\<close> and row \<open>y\<close>.\<close>

definition pix :: "nat \<Rightarrow> nat \<Rightarrow> nat" where
  "pix x y = (127 - x) + (31 - y) * 128"

lemma pix_bound: "pix x y < 4096"
  by (simp add: pix_def)

lemma pix_divmod: "pix x y mod 128 = 127 - x" "pix x y div 128 = 31 - y"
proof -
  have "127 - x < 128" by simp
  then show "pix x y mod 128 = 127 - x" "pix x y div 128 = 31 - y"
    unfolding pix_def by (simp_all only: mod_mult_self1 mod_less div_mult_self1 div_less)
qed

lemma pix_inj:
  assumes "x < 128" and "y < 32" and "x' < 128" and "y' < 32"
  shows "pix x y = pix x' y' \<longleftrightarrow> x = x' \<and> y = y'"
proof
  assume "pix x y = pix x' y'"
  then have "127 - x = 127 - x'" "31 - y = 31 - y'" by (metis pix_divmod)+
  then show "x = x' \<and> y = y'" using assms by linarith
qed simp

lemma DrawPixel_eq:
  assumes "length img = 4096" and "unat X < 128" and "unat Y < 32"
  shows "HUB75_DrawPixel X Y c img = Some (img[pix (unat X) (unat Y) := ucast c])"
proof -
  have u: "uint X = int (unat X)" "uint Y = int (unat Y)" by simp_all
  have i: "(LED_Width - uint X - 1) + ((LED_Height - uint Y - 1) * LED_Width) = int (pix (unat X) (unat Y))"
    unfolding u LED_Width_def LED_Height_def pix_def using assms(2,3) by (simp add: of_nat_diff)
  show ?thesis
    unfolding HUB75_DrawPixel_def i using assms(1) pix_bound [of "unat X" "unat Y"] by simp
qed

section \<open>Operations that stay inside the buffer\<close>

definition total_op :: "(fb \<Rightarrow> fb option) \<Rightarrow> bool" where
  "total_op f \<longleftrightarrow> (\<forall>img. length img = 4096 \<longrightarrow> (\<exists>img'. f img = Some img' \<and> length img' = 4096))"

lemma total_opE:
  assumes "total_op f" and "length img = 4096"
  obtains img' where "f img = Some img'" and "length img' = 4096"
  using assms by (auto simp: total_op_def)

lemma total_Some [simp, intro]: "total_op Some"
  by (simp add: total_op_def)

lemma total_bind: "total_op f \<Longrightarrow> total_op g \<Longrightarrow> total_op (\<lambda>img. Option.bind (f img) g)"
  by (fastforce simp: total_op_def)

lemma draw_all_fun: "draw_all [] = Some" "draw_all (f # fs) = (\<lambda>img. Option.bind (f img) (draw_all fs))"
  by (rule ext, simp)+

text \<open>
  The interface between a property of drawing operations and the screens that are composed of them: a
  property that holds of doing nothing and of two operations in sequence holds of every composition.
\<close>

locale drawing_contract =
  fixes ok :: "(fb \<Rightarrow> fb option) \<Rightarrow> bool"
  assumes ok_nothing: "ok Some"
    and ok_sequence: "ok f \<Longrightarrow> ok g \<Longrightarrow> ok (\<lambda>img. Option.bind (f img) g)"
begin

lemma ok_Nil: "ok (draw_all [])"
  by (simp add: draw_all_fun ok_nothing)

lemma ok_Cons: "ok f \<Longrightarrow> ok (draw_all fs) \<Longrightarrow> ok (draw_all (f # fs))"
  by (simp add: draw_all_fun ok_sequence)

lemma ok_draw_all: "list_all ok fs \<Longrightarrow> ok (draw_all fs)"
  by (induction fs) (simp_all add: ok_Nil ok_Cons del: draw_all.simps)

end

interpretation total: drawing_contract total_op
  by unfold_locales (simp_all add: total_bind)

lemma draw_all_single [simp]: "Option.bind x (draw_all []) = x"
  by (cases x) simp_all

lemma draw_all_append: "draw_all (fs @ gs) img = Option.bind (draw_all fs img) (draw_all gs)"
proof (induction fs arbitrary: img)
  case (Cons f fs)
  then show ?case by (cases "f img") simp_all
qed simp

lemma total_pixel: "unat X < 128 \<Longrightarrow> unat Y < 32 \<Longrightarrow> total_op (HUB75_DrawPixel X Y c)"
  by (simp add: total_op_def DrawPixel_eq)

lemma unat_word_of_int16: "0 \<le> i \<Longrightarrow> i < 65536 \<Longrightarrow> unat (word_of_int i :: u16) = nat i"
  by (simp add: unsigned_of_int take_bit_int_eq_self)

text \<open>A dot of any size is safe when its far edge is on the matrix.\<close>

lemma total_point:
  assumes "uint X + dot_size d \<le> 129" and "uint Y + dot_size d \<le> 33"
  shows "total_op (Paint_DrawPoint X Y c d DOT_FILL_AROUND)"
proof -
  let ?x = "uint X" and ?y = "uint Y" and ?d = "dot_size d"
  have "total_op (HUB75_DrawPixel (word_of_int (?x + i - ?d)) (word_of_int (?y + j - ?d)) c)"
    if "i \<in> {0..2 * ?d - 2}" "j \<in> {0..2 * ?d - 2}" "\<not> (?x + i - ?d < 0 \<or> ?y + j - ?d < 0)" for i j
  proof (rule total_pixel)
    have "0 \<le> ?x + i - ?d" "?x + i - ?d < 128" "0 \<le> ?y + j - ?d" "?y + j - ?d < 32"
      using that assms by auto
    then show "unat (word_of_int (?x + i - ?d) :: u16) < 128" "unat (word_of_int (?y + j - ?d) :: u16) < 32"
      using unat_word_of_int16 [of "?x + i - ?d"] unat_word_of_int16 [of "?y + j - ?d"] by linarith+
  qed
  then have "list_all total_op (concat (map (\<lambda>i.
             map (\<lambda>j. HUB75_DrawPixel (word_of_int (?x + i - ?d)) (word_of_int (?y + j - ?d)) c)
               (takeWhile (\<lambda>j. \<not> (?x + i - ?d < 0 \<or> ?y + j - ?d < 0)) [0..2 * ?d - 2]))
             [0..2 * ?d - 2]))"
    by (auto simp: list_all_iff dest!: set_takeWhileD)
  then have "total_op (draw_all (concat (map (\<lambda>i.
             map (\<lambda>j. HUB75_DrawPixel (word_of_int (?x + i - ?d)) (word_of_int (?y + j - ?d)) c)
               (takeWhile (\<lambda>j. \<not> (?x + i - ?d < 0 \<or> ?y + j - ?d < 0)) [0..2 * ?d - 2]))
             [0..2 * ?d - 2])))" by (rule total.ok_draw_all)
  then show ?thesis by (simp add: total_op_def Paint_DrawPoint_def Let_def)
qed

text \<open>A dot of size 1 sets the pixel before its coordinates, or nothing.\<close>

definition plot :: "int \<Rightarrow> int \<Rightarrow> u16 \<Rightarrow> fb \<Rightarrow> fb" where
  "plot x y c img =
     (if 1 \<le> x \<and> x \<le> 128 \<and> 1 \<le> y \<and> y \<le> 32 then img[pix (nat (x - 1)) (nat (y - 1)) := ucast c] else img)"

lemma length_plot [simp]: "length (plot x y c img) = length img"
  by (simp add: plot_def)

lemma DrawPoint_1x1:
  assumes "length img = 4096"
  shows "Paint_DrawPoint X Y c DOT_PIXEL_1X1 DOT_FILL_AROUND img = Some (plot (uint X) (uint Y) c img)"
proof (cases "1 \<le> uint X \<and> uint X \<le> 128 \<and> 1 \<le> uint Y \<and> uint Y \<le> 32")
  case True
  then have u: "unat (word_of_int (uint X - 1) :: u16) = nat (uint X - 1)"
    "unat (word_of_int (uint Y - 1) :: u16) = nat (uint Y - 1)" by (intro unat_word_of_int16; simp)+
  then have "HUB75_DrawPixel (word_of_int (uint X - 1)) (word_of_int (uint Y - 1)) c img
      = Some (plot (uint X) (uint Y) c img)"
    using True assms nat_less_iff [of "uint X - 1" 128] nat_less_iff [of "uint Y - 1" 32]
    by (subst DrawPixel_eq) (simp_all only: plot_def u, simp_all)
  moreover have "Paint_DrawPoint X Y c DOT_PIXEL_1X1 DOT_FILL_AROUND img
      = HUB75_DrawPixel (word_of_int (uint X - 1)) (word_of_int (uint Y - 1)) c img"
    using True by (simp add: Paint_DrawPoint_def LED_Width_def LED_Height_def Let_def)
  ultimately show ?thesis by simp
next
  case False
  have "0 \<le> uint X" "0 \<le> uint Y" by simp_all
  with False show ?thesis
    by (auto simp: Paint_DrawPoint_def LED_Width_def LED_Height_def plot_def Let_def)
qed

lemma total_point_1x1: "total_op (Paint_DrawPoint X Y c DOT_PIXEL_1X1 DOT_FILL_AROUND)"
  by (simp add: total_op_def DrawPoint_1x1)

section \<open>The path of a line\<close>

text \<open>
  The points a solid line visits, as steps from its start: \<open>a\<close> columns of \<open>dx\<close> and \<open>b\<close> rows
  of \<open>dy\<close> are done, and the error term is \<open>line_error\<close>.
\<close>

definition line_error :: "nat \<Rightarrow> nat \<Rightarrow> nat \<Rightarrow> nat \<Rightarrow> int" where
  "line_error dx dy a b = (int b + 1) * int dx - (int a + 1) * int dy"

function path :: "nat \<Rightarrow> nat \<Rightarrow> nat \<Rightarrow> nat \<Rightarrow> (nat \<times> nat) list" where
  "path dx dy a b =
     (if dx < a \<or> dy < b then []
      else (a, b) #
        (if 2 * line_error dx dy a b \<ge> - int dy
         then (if a = dx then []
               else if 2 * line_error dx dy (a + 1) b \<le> int dx
               then (if b = dy then [] else path dx dy (a + 1) (b + 1))
               else path dx dy (a + 1) b)
         else (if b = dy then [] else path dx dy a (b + 1))))"
  by pat_completeness auto
termination by (relation "measure (\<lambda>(dx, dy, a, b). (dx + 1 - a) + (dy + 1 - b))") auto

declare path.simps [simp del]

lemma line_error_steps:
  "line_error dx dy (a + 1) b = line_error dx dy a b - int dy"
  "line_error dx dy a (b + 1) = line_error dx dy a b + int dx"
  by (simp_all add: line_error_def algebra_simps)

text \<open>A coordinate after \<open>k\<close> steps from \<open>s\<close> in direction \<open>d\<close>, as the code's word.\<close>

definition coord :: "int \<Rightarrow> int \<Rightarrow> nat \<Rightarrow> u16" where
  "coord s d k = word_of_int (s + d * int k)"

lemma coord_step: "coord s d k + word_of_int d = coord s d (k + 1)"
  by (simp add: coord_def algebra_simps)

lemma coord_eq:
  fixes d :: int and k n :: nat
  assumes "d \<in> {- 1, 1}" and "k \<le> n" and "n < 65536"
  shows "coord s d k = coord s d n \<longleftrightarrow> k = n"
proof
  assume "coord s d k = coord s d n"
  then have "(s + d * int k) mod 2 ^ LENGTH(16) = (s + d * int n) mod 2 ^ LENGTH(16)"
    unfolding coord_def word_of_int_eq_iff take_bit_eq_mod .
  then have "(s + d * int k) mod 65536 = (s + d * int n) mod 65536" by simp
  then have "65536 dvd (s + d * int k) - (s + d * int n)" by (simp add: mod_eq_dvd_iff)
  then have "65536 dvd int n - int k" using assms(1) by (auto simp: dvd_diff_commute)
  moreover have "0 \<le> int n - int k" "int n - int k < 65536" using assms(2,3) by simp_all
  ultimately have "int n - int k = 0" using zdvd_imp_le by fastforce
  then show "k = n" by simp
qed simp

text \<open>The loop draws exactly the path.\<close>

lemma line_dot_solid:
  "line_dot c w LINE_STYLE_SOLID l X Y img
    = map_option (\<lambda>img. (l, img)) (Paint_DrawPoint X Y c w DOT_FILL_AROUND img)"
  by (simp add: line_dot_def)

lemma line_loop_path:
  assumes d: "sx \<in> {- 1, 1}" "sy \<in> {- 1, 1}"
  shows "dx < 65536 \<Longrightarrow> dy < 65536 \<Longrightarrow> a \<le> dx \<Longrightarrow> b \<le> dy \<Longrightarrow>
    line_loop (coord xs sx dx) (coord ys sy dy) (int dx) (- int dy) (word_of_int sx) (word_of_int sy)
      c w LINE_STYLE_SOLID (coord xs sx a) (coord ys sy b) (line_error dx dy a b) len img
    = draw_all (map (\<lambda>(p, q). Paint_DrawPoint (coord xs sx p) (coord ys sy q) c w DOT_FILL_AROUND)
        (path dx dy a b)) img"
proof (induction dx dy a b arbitrary: len img rule: path.induct)
  case (1 dx dy a b)
  let ?P = "\<lambda>p q. Paint_DrawPoint (coord xs sx p) (coord ys sy q) c w DOT_FILL_AROUND"
  note prem = 1(4-7)
  have eqs: "coord xs sx a = coord xs sx dx \<longleftrightarrow> a = dx" "coord ys sy b = coord ys sy dy \<longleftrightarrow> b = dy"
    using coord_eq [OF d(1) prem(3,1)] coord_eq [OF d(2) prem(4,2)] by simp_all
  let ?e = "line_error dx dy a b"
  show ?case
  proof (cases "?P a b img")
    case None
    then show ?thesis using prem
      by (subst path.simps) (simp add: line_loop.simps line_dot_solid)
  next
    case (Some img')
    show ?thesis
    proof (cases "2 * ?e \<ge> - int dy")
      case x: True
      show ?thesis
      proof (cases "a = dx")
        case True
        then show ?thesis using x eqs prem Some
          by (subst path.simps, subst line_loop.simps) (simp add: line_dot_solid)
      next
        case False
        then have le: "a + 1 \<le> dx" using prem(3) by simp
        show ?thesis
        proof (cases "2 * line_error dx dy (a + 1) b \<le> int dx")
          case y: True
          show ?thesis
          proof (cases "b = dy")
            case True
            then show ?thesis using x y False eqs prem Some
              by (subst path.simps, subst line_loop.simps) (simp add: line_dot_solid line_error_steps [simplified])
          next
            case nb: False
            then have "b + 1 \<le> dy" using prem(4) by simp
            from 1(1) [OF _ x False y nb prem(1,2) le this] prem
            have ih: "line_loop (coord xs sx dx) (coord ys sy dy) (int dx) (- int dy) (word_of_int sx) (word_of_int sy)
              c w LINE_STYLE_SOLID (coord xs sx (a + 1)) (coord ys sy (b + 1)) (line_error dx dy (a + 1) (b + 1)) l img'
              = draw_all (map (\<lambda>(p, q). ?P p q) (path dx dy (a + 1) (b + 1))) img'" for l by simp
            show ?thesis using x y False nb eqs prem Some ih
              by (subst path.simps, subst line_loop.simps)
                (simp add: line_dot_solid line_error_steps [simplified] coord_step [simplified])
          qed
        next
          case y: False
          from 1(2) [OF _ x False y prem(1,2) le prem(4)] prem
          have ih: "line_loop (coord xs sx dx) (coord ys sy dy) (int dx) (- int dy) (word_of_int sx) (word_of_int sy)
            c w LINE_STYLE_SOLID (coord xs sx (a + 1)) (coord ys sy b) (line_error dx dy (a + 1) b) l img'
            = draw_all (map (\<lambda>(p, q). ?P p q) (path dx dy (a + 1) b)) img'" for l by simp
          show ?thesis using x y False eqs prem Some ih
            by (subst path.simps, subst line_loop.simps)
              (simp add: line_dot_solid line_error_steps [simplified] coord_step [simplified])
        qed
      qed
    next
      case x: False
      then have y: "2 * ?e \<le> int dx" by linarith
      show ?thesis
      proof (cases "b = dy")
        case True
        then show ?thesis using x y eqs prem Some
          by (subst path.simps, subst line_loop.simps) (simp add: line_dot_solid)
      next
        case nb: False
        then have le: "b + 1 \<le> dy" using prem(4) by simp
        from 1(3) [OF _ x nb prem(1-3) le] prem
        have ih: "line_loop (coord xs sx dx) (coord ys sy dy) (int dx) (- int dy) (word_of_int sx) (word_of_int sy)
          c w LINE_STYLE_SOLID (coord xs sx a) (coord ys sy (b + 1)) (line_error dx dy a (b + 1)) l img'
          = draw_all (map (\<lambda>(p, q). ?P p q) (path dx dy a (b + 1))) img'" for l by simp
        show ?thesis using x y nb eqs prem Some ih
          by (subst path.simps, subst line_loop.simps)
            (simp add: line_dot_solid line_error_steps [simplified] coord_step [simplified])
      qed
    qed
  qed
qed

subsection \<open>The shape of a path\<close>

lemma path_nonempty: "a \<le> dx \<Longrightarrow> b \<le> dy \<Longrightarrow> path dx dy a b \<noteq> [] \<and> hd (path dx dy a b) = (a, b)"
  by (subst (1 2) path.simps) simp

lemma path_box: "(p, q) \<in> set (path dx dy a b) \<Longrightarrow> a \<le> p \<and> p \<le> dx \<and> b \<le> q \<and> q \<le> dy"
proof (induction dx dy a b rule: path.induct)
  case (1 dx dy a b)
  have in_range: "\<not> (dx < a \<or> dy < b)" using 1(4) by (subst (asm) path.simps) (auto split: if_splits)
  from 1(4) consider "(p, q) = (a, b)"
    | "- int dy \<le> 2 * line_error dx dy a b" "a \<noteq> dx" "2 * line_error dx dy (a + 1) b \<le> int dx"
      "b \<noteq> dy" "(p, q) \<in> set (path dx dy (a + 1) (b + 1))"
    | "- int dy \<le> 2 * line_error dx dy a b" "a \<noteq> dx" "\<not> 2 * line_error dx dy (a + 1) b \<le> int dx"
      "(p, q) \<in> set (path dx dy (a + 1) b)"
    | "\<not> - int dy \<le> 2 * line_error dx dy a b" "b \<noteq> dy" "(p, q) \<in> set (path dx dy a (b + 1))"
    by (subst (asm) path.simps) (simp split: if_splits, blast+)
  then show ?case
  proof cases
    case 1
    then show ?thesis using in_range by simp
  next
    case 2
    then show ?thesis using "1.IH"(1) [OF in_range 2(1-5)] by simp
  next
    case 3
    then show ?thesis using "1.IH"(2) [OF in_range 3(1-4)] by simp
  next
    case 4
    then show ?thesis using "1.IH"(3) [OF in_range 4(1-3)] by simp
  qed
qed

text \<open>One step: at most one column and one row towards the end, and not none.\<close>

definition line_step :: "nat \<times> nat \<Rightarrow> nat \<times> nat \<Rightarrow> bool" where
  "line_step u v \<longleftrightarrow> u \<noteq> v \<and> fst v \<in> {fst u, fst u + 1} \<and> snd v \<in> {snd u, snd u + 1}"

lemma path_steps: "successively line_step (path dx dy a b)"
proof (induction dx dy a b rule: path.induct)
  case (1 dx dy a b)
  have "line_step (a, b) (a + 1, b + 1)" "line_step (a, b) (a + 1, b)" "line_step (a, b) (a, b + 1)"
    by (simp_all add: line_step_def)
  with 1 show ?case
    by (subst path.simps) (auto simp: successively_Cons path_nonempty)
qed

text \<open>Where the path stops: at the end point, or one column before it in its row.\<close>

lemma stop_x:
  assumes "a = dx" and "b \<le> dy" and "2 * line_error dx dy a b \<ge> - int dy"
  shows "b = dy"
proof (rule ccontr)
  assume "b \<noteq> dy"
  then have "int b + 1 \<le> int dy" using assms(2) by simp
  then have "(int b + 1) * int dx \<le> int dy * int dx" by (rule mult_right_mono) simp
  then have "line_error dx dy a b \<le> - int dy" using assms(1) by (simp add: line_error_def algebra_simps)
  then show False using assms(3) \<open>int b + 1 \<le> int dy\<close> by simp
qed

lemma stop_y:
  assumes "b = dy" and "a \<le> dx" and "2 * line_error dx dy a b \<le> int dx"
  shows "a = dx"
proof (rule ccontr)
  assume "a \<noteq> dx"
  then have "int a + 1 \<le> int dx" using assms(2) by simp
  then have "(int a + 1) * int dy \<le> int dx * int dy" by (rule mult_right_mono) simp
  then have "int dx \<le> line_error dx dy a b" using assms(1) by (simp add: line_error_def algebra_simps)
  then show False using assms(3) \<open>int a + 1 \<le> int dx\<close> by simp
qed

lemma path_last:
  "a \<le> dx \<Longrightarrow> b \<le> dy \<Longrightarrow> last (path dx dy a b) = (dx, dy) \<or> last (path dx dy a b) = (dx - 1, dy)"
proof (induction dx dy a b rule: path.induct)
  case (1 dx dy a b)
  let ?e = "line_error dx dy a b"
  note ne = path_nonempty [THEN conjunct1]
  show ?case
  proof (cases "2 * ?e \<ge> - int dy")
    case x: True
    show ?thesis
    proof (cases "a = dx")
      case True
      then have "b = dy" using stop_x [of a dx b dy] 1(5) x by simp
      then show ?thesis using True x by (subst (1 2) path.simps) simp
    next
      case False
      then have le: "a + 1 \<le> dx" using 1(4) by simp
      show ?thesis
      proof (cases "2 * line_error dx dy (a + 1) b \<le> int dx")
        case y: True
        show ?thesis
        proof (cases "b = dy")
          case True
          then have "a + 1 = dx" using stop_y [of b dy "a + 1" dx] le y by simp
          then show ?thesis using True x y False by (subst (1 2) path.simps) auto
        next
          case nb: False
          then have "b + 1 \<le> dy" using 1(5) by simp
          then show ?thesis
            using 1(1) [OF _ x False y nb le] le x y False nb 1(4,5) ne [OF le, of "b + 1" dy]
            by (subst (1 2) path.simps) simp
        qed
      next
        case y: False
        then show ?thesis
          using 1(2) [OF _ x False y le 1(5)] le x False 1(4,5) ne [OF le 1(5)]
          by (subst (1 2) path.simps) simp
      qed
    qed
  next
    case x: False
    then have y: "2 * ?e \<le> int dx" by linarith
    show ?thesis
    proof (cases "b = dy")
      case True
      then have "a = dx" using stop_y [of b dy a dx] 1(4) y by simp
      then show ?thesis using True x by (subst (1 2) path.simps) simp
    next
      case nb: False
      then have le: "b + 1 \<le> dy" using 1(5) by simp
      then show ?thesis
        using 1(3) [OF _ x nb 1(4) le] x nb 1(4,5) ne [OF 1(4) le]
        by (subst (1 2) path.simps) simp
    qed
  qed
qed

text \<open>Lines along an axis visit every point of their segment once.\<close>

lemma path_horizontal: "a \<le> dx \<Longrightarrow> path dx 0 a 0 = map (\<lambda>p. (p, 0)) [a..<dx + 1]"
proof (induction "dx - a" arbitrary: a)
  case 0
  then show ?case by (subst path.simps) (simp add: line_error_def)
next
  case (Suc n)
  then have "a < dx" by simp
  then have "path dx 0 a 0 = (a, 0) # path dx 0 (a + 1) 0"
    by (subst path.simps) (simp add: line_error_def)
  moreover have "path dx 0 (a + 1) 0 = map (\<lambda>p. (p, 0)) [a + 1..<dx + 1]"
    using Suc.hyps(2) \<open>a < dx\<close> by (intro Suc.hyps(1)) simp_all
  ultimately show ?case using \<open>a < dx\<close> by (simp add: upt_conv_Cons del: upt_Suc)
qed

lemma path_vertical: "b \<le> dy \<Longrightarrow> path 0 dy 0 b = map (\<lambda>q. (0, q)) [b..<dy + 1]"
proof (induction "dy - b" arbitrary: b)
  case 0
  then show ?case by (subst path.simps) (simp add: line_error_def)
next
  case (Suc n)
  then have "b < dy" by simp
  then have "path 0 dy 0 b = (0, b) # path 0 dy 0 (b + 1)"
    by (subst path.simps) (simp add: line_error_def)
  moreover have "path 0 dy 0 (b + 1) = map (\<lambda>q. (0, q)) [b + 1..<dy + 1]"
    using Suc.hyps(2) \<open>b < dy\<close> by (intro Suc.hyps(1)) simp_all
  ultimately show ?case using \<open>b < dy\<close> by (simp add: upt_conv_Cons del: upt_Suc)
qed

section \<open>Laws of the drawing operations\<close>

definition direction :: "u16 \<Rightarrow> u16 \<Rightarrow> int" where
  "direction s e = (if s < e then 1 else - 1)"

definition span :: "u16 \<Rightarrow> u16 \<Rightarrow> nat" where
  "span s e = nat \<bar>uint e - uint s\<bar>"

lemma uint16_range: "0 \<le> uint (s :: u16) \<and> uint s < 65536"
  using uint_bounded [of s] by simp

lemma span_bound: "span s e < 65536"
proof -
  have "\<bar>uint e - uint s\<bar> < 65536" using uint16_range [of s] uint16_range [of e] by linarith
  then show ?thesis by (simp add: span_def)
qed

lemma coord_span: "coord (uint s) (direction s e) (span s e) = e"
proof -
  have "uint s + direction s e * int (span s e) = uint e"
    by (auto simp: direction_def span_def word_less_def)
  then show ?thesis by (simp add: coord_def)
qed

lemma uint_word_of_int16: "0 \<le> i \<Longrightarrow> i < 65536 \<Longrightarrow> uint (word_of_int i :: u16) = i"
  by (simp add: unsigned_of_int take_bit_int_eq_self)

lemma coord_uint:
  assumes "k \<le> span s e"
  shows "uint (coord (uint s) (direction s e) k) = uint s + direction s e * int k"
    and "uint (coord (uint s) (direction s e) k) \<le> max (uint s) (uint e)"
proof -
  have k: "int k \<le> \<bar>uint e - uint s\<bar>" using assms by (simp add: span_def)
  have lt: "s < e \<longleftrightarrow> uint s < uint e" by (simp add: word_less_def)
  have r: "0 \<le> uint s + direction s e * int k" "uint s + direction s e * int k \<le> max (uint s) (uint e)"
    using k uint16_range [of s] uint16_range [of e] unfolding direction_def lt
    by (cases "uint s < uint e"; simp; linarith)+
  then have "uint s + direction s e * int k < 65536"
    using uint16_range [of s] uint16_range [of e] by linarith
  with r show "uint (coord (uint s) (direction s e) k) = uint s + direction s e * int k"
    unfolding coord_def by (intro uint_word_of_int16)
  then show "uint (coord (uint s) (direction s e) k) \<le> max (uint s) (uint e)" using r by simp
qed

definition on_matrix :: "u16 \<Rightarrow> u16 \<Rightarrow> bool" where
  "on_matrix X Y \<longleftrightarrow> uint X \<le> 128 \<and> uint Y \<le> 32"

definition line_points :: "u16 \<Rightarrow> u16 \<Rightarrow> u16 \<Rightarrow> u16 \<Rightarrow> (u16 \<times> u16) list" where
  "line_points Xs Ys Xe Ye = map (\<lambda>(p, q). (coord (uint Xs) (direction Xs Xe) p, coord (uint Ys) (direction Ys Ye) q))
     (path (span Xs Xe) (span Ys Ye) 0 0)"

lemma DrawLine_law:
  assumes "on_matrix Xs Ys" and "on_matrix Xe Ye"
  shows "Paint_DrawLine Xs Ys Xe Ye c w LINE_STYLE_SOLID img
    = draw_all (map (\<lambda>(X, Y). Paint_DrawPoint X Y c w DOT_FILL_AROUND) (line_points Xs Ys Xe Ye)) img"
proof -
  have dirs: "direction Xs Xe \<in> {- 1, 1}" "direction Ys Ye \<in> {- 1, 1}" by (simp_all add: direction_def)
  have dx: "(if uint Xe - uint Xs \<ge> 0 then uint Xe - uint Xs else uint Xs - uint Xe) = int (span Xs Xe)"
    by (simp add: span_def)
  have dy: "(if uint Ye - uint Ys \<le> 0 then uint Ye - uint Ys else uint Ys - uint Ye) = - int (span Ys Ye)"
    by (simp add: span_def)
  have way: "(if s < e then 1 else - 1) = (word_of_int (direction s e) :: u16)" for s e :: u16
    by (simp add: direction_def)
  have start: "coord (uint s) d 0 = s" for s d by (simp add: coord_def)
  have e: "int (span Xs Xe) + - int (span Ys Ye) = line_error (span Xs Xe) (span Ys Ye) 0 0"
    by (simp add: line_error_def)
  from line_loop_path [OF dirs span_bound span_bound, of 0 Xs Xe 0 Ys Ye "uint Xs" "uint Ys" c w 0 img]
  show ?thesis
    using assms unfolding Paint_DrawLine_def Let_def dx dy way e line_points_def coord_span start
    by (simp add: on_matrix_def LED_Width_def LED_Height_def case_prod_beta' o_def)
qed

lemma DrawLine_off: "\<not> (on_matrix Xs Ys \<and> on_matrix Xe Ye) \<Longrightarrow> Paint_DrawLine Xs Ys Xe Ye c w st img = Some img"
  by (auto simp: on_matrix_def Paint_DrawLine_def LED_Width_def LED_Height_def not_le)

subsection \<open>Safety of lines and rectangles\<close>

lemma line_points_bound:
  assumes "(X, Y) \<in> set (line_points Xs Ys Xe Ye)"
  shows "uint X \<le> max (uint Xs) (uint Xe)" and "uint Y \<le> max (uint Ys) (uint Ye)"
proof -
  obtain p q where pq: "(p, q) \<in> set (path (span Xs Xe) (span Ys Ye) 0 0)"
    "X = coord (uint Xs) (direction Xs Xe) p" "Y = coord (uint Ys) (direction Ys Ye) q"
    using assms by (auto simp: line_points_def)
  then have "p \<le> span Xs Xe" "q \<le> span Ys Ye" using path_box by blast+
  then show "uint X \<le> max (uint Xs) (uint Xe)" "uint Y \<le> max (uint Ys) (uint Ye)"
    using pq coord_uint(2) by blast+
qed

text \<open>A thick line is safe when the dots at its far corner are; a line of width 1 always is.\<close>

lemma total_line:
  assumes "uint Xs + dot_size w \<le> 129" "uint Xe + dot_size w \<le> 129"
    and "uint Ys + dot_size w \<le> 33" "uint Ye + dot_size w \<le> 33"
  shows "total_op (Paint_DrawLine Xs Ys Xe Ye c w LINE_STYLE_SOLID)"
proof -
  have w: "1 \<le> dot_size w" by (cases w) simp_all
  then have on: "on_matrix Xs Ys" "on_matrix Xe Ye" using assms by (simp_all add: on_matrix_def)
  have "total_op (Paint_DrawPoint X Y c w DOT_FILL_AROUND)" if "(X, Y) \<in> set (line_points Xs Ys Xe Ye)" for X Y
    using line_points_bound [OF that] assms by (intro total_point) auto
  then have "total_op (draw_all (map (\<lambda>(X, Y). Paint_DrawPoint X Y c w DOT_FILL_AROUND) (line_points Xs Ys Xe Ye)))"
    by (intro total.ok_draw_all) (auto simp: list_all_iff)
  then show ?thesis by (simp add: total_op_def DrawLine_law [OF on])
qed

lemma total_line_1x1: "total_op (Paint_DrawLine Xs Ys Xe Ye c DOT_PIXEL_1X1 LINE_STYLE_SOLID)"
proof (cases "on_matrix Xs Ys \<and> on_matrix Xe Ye")
  case True
  then show ?thesis by (intro total_line) (simp_all add: on_matrix_def)
next
  case False
  then show ?thesis by (simp add: total_op_def DrawLine_off)
qed

lemma total_rectangle_1x1: "total_op (Paint_DrawRectangle Xs Ys Xe Ye c DOT_PIXEL_1X1 fill)"
proof -
  have "total_op (draw_all (map (\<lambda>y. Paint_DrawLine Xs (of_nat y) Xe (of_nat y) c DOT_PIXEL_1X1 LINE_STYLE_SOLID)
      [unat Ys..<unat Ye]))"
    by (intro total.ok_draw_all) (simp add: list_all_iff total_line_1x1)
  moreover have "total_op (draw_all
      [Paint_DrawLine Xs Ys Xe Ys c DOT_PIXEL_1X1 LINE_STYLE_SOLID,
       Paint_DrawLine Xs Ys Xs Ye c DOT_PIXEL_1X1 LINE_STYLE_SOLID,
       Paint_DrawLine Xe Ye Xe Ys c DOT_PIXEL_1X1 LINE_STYLE_SOLID,
       Paint_DrawLine Xe Ye Xs Ye c DOT_PIXEL_1X1 LINE_STYLE_SOLID])"
    by (intro total.ok_draw_all) (simp add: total_line_1x1)
  ultimately show ?thesis by (simp add: total_op_def Paint_DrawRectangle_def)
qed

section \<open>What is drawn\<close>

text \<open>The pixel in column \<open>x\<close> and row \<open>y\<close>, counted from 1 as the drawing functions do.\<close>

definition pixel :: "fb \<Rightarrow> int \<Rightarrow> int \<Rightarrow> u8" where
  "pixel img x y = img ! pix (nat (x - 1)) (nat (y - 1))"

definition visible :: "int \<Rightarrow> int \<Rightarrow> bool" where
  "visible x y \<longleftrightarrow> 1 \<le> x \<and> x \<le> 128 \<and> 1 \<le> y \<and> y \<le> 32"

lemma pixel_plot:
  assumes "length img = 4096" and "visible x y"
  shows "pixel (plot x' y' c img) x y = (if x' = x \<and> y' = y then ucast c else pixel img x y)"
proof (cases "visible x' y'")
  case True
  then have "pix (nat (x' - 1)) (nat (y' - 1)) = pix (nat (x - 1)) (nat (y - 1)) \<longleftrightarrow> x' = x \<and> y' = y"
    using assms(2) by (subst pix_inj) (auto simp: visible_def)
  then show ?thesis using True assms pix_bound
    by (auto simp: pixel_def plot_def visible_def nth_list_update)
next
  case False
  then show ?thesis using assms(2) by (auto simp: pixel_def plot_def visible_def)
qed

text \<open>Dots of size 1, drawn one after the other, colour exactly their points.\<close>

lemma draw_points:
  assumes "length img = 4096"
  shows "\<exists>img'. draw_all (map (\<lambda>(X, Y). Paint_DrawPoint X Y c DOT_PIXEL_1X1 DOT_FILL_AROUND) pts) img = Some img' \<and>
    length img' = 4096 \<and> (\<forall>x y. visible x y \<longrightarrow>
      pixel img' x y = (if (x, y) \<in> (\<lambda>(X, Y). (uint X, uint Y)) ` set pts then ucast c else pixel img x y))"
  using assms
proof (induction pts arbitrary: img)
  case Nil
  then show ?case by simp
next
  case (Cons pt pts)
  obtain X Y where pt: "pt = (X, Y)" by (cases pt)
  let ?i = "plot (uint X) (uint Y) c img"
  have len: "length ?i = 4096" using Cons.prems by simp
  from Cons.IH [OF len] obtain img' where
    i: "draw_all (map (\<lambda>(X, Y). Paint_DrawPoint X Y c DOT_PIXEL_1X1 DOT_FILL_AROUND) pts) ?i = Some img'"
    "length img' = 4096" "\<forall>x y. visible x y \<longrightarrow>
      pixel img' x y = (if (x, y) \<in> (\<lambda>(X, Y). (uint X, uint Y)) ` set pts then ucast c else pixel ?i x y)" by blast
  show ?case
    by (rule exI [of _ img']) (use i Cons.prems in \<open>auto simp: pt DrawPoint_1x1 pixel_plot\<close>)
qed

definition points_of :: "(u16 \<times> u16) list \<Rightarrow> (int \<times> int) set" where
  "points_of pts = (\<lambda>(X, Y). (uint X, uint Y)) ` set pts"

definition between :: "u16 \<Rightarrow> u16 \<Rightarrow> int set" where
  "between s e = {min (uint s) (uint e)..max (uint s) (uint e)}"

lemma coords_cover: "(\<lambda>p. uint (coord (uint s) (direction s e) p)) ` {0..<span s e + 1} = between s e"
proof (rule set_eqI)
  fix x
  have lt: "s < e \<longleftrightarrow> uint s < uint e" by (simp add: word_less_def)
  have "x \<in> (\<lambda>p. uint (coord (uint s) (direction s e) p)) ` {0..<span s e + 1}
    \<longleftrightarrow> (\<exists>p. p \<le> span s e \<and> x = uint s + direction s e * int p)"
    using coord_uint(1) [of _ s e] by (auto simp: image_iff less_Suc_eq_le)
  also have "\<dots> \<longleftrightarrow> x \<in> between s e"
  proof
    assume "\<exists>p. p \<le> span s e \<and> x = uint s + direction s e * int p"
    then obtain p where p: "p \<le> span s e" "x = uint s + direction s e * int p" by blast
    then have "int p \<le> \<bar>uint e - uint s\<bar>" by (simp add: span_def)
    then show "x \<in> between s e" using p(2) by (auto simp: between_def direction_def lt)
  next
    assume x: "x \<in> between s e"
    have "nat \<bar>x - uint s\<bar> \<le> span s e" and "x = uint s + direction s e * int (nat \<bar>x - uint s\<bar>)"
      using x by (auto simp: between_def span_def direction_def lt)
    then show "\<exists>p. p \<le> span s e \<and> x = uint s + direction s e * int p" by blast
  qed
  finally show "x \<in> (\<lambda>p. uint (coord (uint s) (direction s e) p)) ` {0..<span s e + 1}
    \<longleftrightarrow> x \<in> between s e" .
qed

lemma span_same [simp]: "span s s = 0"
  by (simp add: span_def)

lemma coord_0 [simp]: "coord (uint s) d 0 = s"
  by (simp add: coord_def)

lemma horizontal_points: "points_of (line_points Xs Y Xe Y) = between Xs Xe \<times> {uint Y}"
proof -
  have "points_of (line_points Xs Y Xe Y)
      = (\<lambda>x. (x, uint Y)) ` ((\<lambda>p. uint (coord (uint Xs) (direction Xs Xe) p)) ` {0..<span Xs Xe + 1})"
    by (simp add: points_of_def line_points_def path_horizontal image_image case_prod_beta' del: upt_Suc)
  then show ?thesis unfolding coords_cover by auto
qed

lemma vertical_points: "points_of (line_points X Ys X Ye) = {uint X} \<times> between Ys Ye"
proof -
  have "points_of (line_points X Ys X Ye)
      = (\<lambda>y. (uint X, y)) ` ((\<lambda>q. uint (coord (uint Ys) (direction Ys Ye) q)) ` {0..<span Ys Ye + 1})"
    by (simp add: points_of_def line_points_def path_vertical image_image case_prod_beta' del: upt_Suc)
  then show ?thesis unfolding coords_cover by auto
qed

lemma line_1x1_draws:
  assumes "length img = 4096" and "on_matrix Xs Ys" and "on_matrix Xe Ye"
  shows "\<exists>img'. Paint_DrawLine Xs Ys Xe Ye c DOT_PIXEL_1X1 LINE_STYLE_SOLID img = Some img' \<and>
    length img' = 4096 \<and> (\<forall>x y. visible x y \<longrightarrow>
      pixel img' x y = (if (x, y) \<in> points_of (line_points Xs Ys Xe Ye) then ucast c else pixel img x y))"
  using draw_points [OF assms(1)] by (simp add: DrawLine_law [OF assms(2,3)] points_of_def)

lemma draw_all_concat: "draw_all (map (\<lambda>y. draw_all (fs y)) ys) img = draw_all (concat (map fs ys)) img"
proof (induction ys arbitrary: img)
  case (Cons y ys)
  then show ?case by (cases "draw_all (fs y) img") (simp_all add: draw_all_append)
qed simp

lemma uint_of_nat16: "n < 65536 \<Longrightarrow> uint (of_nat n :: u16) = int n"
  by (simp add: unsigned_of_nat take_bit_nat_eq_self)

lemma int_between: "(\<exists>k\<in>{m..<n}. y = int k) \<longleftrightarrow> int m \<le> y \<and> y < int n"
  by (auto intro!: bexI [of _ "nat y"])

lemma rectangle_filled:
  assumes "length img = 4096" and on: "on_matrix Xs Ys" "on_matrix Xe Ye"
  shows "\<exists>img'. Paint_DrawRectangle Xs Ys Xe Ye c DOT_PIXEL_1X1 DRAW_FILL_FULL img = Some img' \<and>
    length img' = 4096 \<and> (\<forall>x y. visible x y \<longrightarrow>
      pixel img' x y = (if x \<in> between Xs Xe \<and> uint Ys \<le> y \<and> y < uint Ye then ucast c else pixel img x y))"
proof -
  let ?ys = "[unat Ys..<unat Ye]"
  let ?pts = "concat (map (\<lambda>y. line_points Xs (of_nat y) Xe (of_nat y)) ?ys)"
  have "int (unat Ye) \<le> 32" using on(2) by (simp add: on_matrix_def)
  then have ye: "unat Ye \<le> 32" by linarith
  have u: "uint (of_nat y :: u16) = int y" if "y \<in> set ?ys" for y
    using that ye by (intro uint_of_nat16) simp
  have line: "Paint_DrawLine Xs (of_nat y) Xe (of_nat y) c DOT_PIXEL_1X1 LINE_STYLE_SOLID
      = draw_all (map (\<lambda>(X, Y). Paint_DrawPoint X Y c DOT_PIXEL_1X1 DOT_FILL_AROUND)
          (line_points Xs (of_nat y) Xe (of_nat y)))" if "y \<in> set ?ys" for y
  proof (rule ext, rule DrawLine_law)
    show "on_matrix Xs (of_nat y)" "on_matrix Xe (of_nat y)"
      using that ye on u [OF that] by (simp_all add: on_matrix_def)
  qed
  have lines: "map (\<lambda>y. Paint_DrawLine Xs (of_nat y) Xe (of_nat y) c DOT_PIXEL_1X1 LINE_STYLE_SOLID) ?ys
      = map (\<lambda>y. draw_all (map (\<lambda>(X, Y). Paint_DrawPoint X Y c DOT_PIXEL_1X1 DOT_FILL_AROUND)
          (line_points Xs (of_nat y) Xe (of_nat y)))) ?ys" by (intro map_cong line refl)
  have rect: "Paint_DrawRectangle Xs Ys Xe Ye c DOT_PIXEL_1X1 DRAW_FILL_FULL img
      = draw_all (map (\<lambda>(X, Y). Paint_DrawPoint X Y c DOT_PIXEL_1X1 DOT_FILL_AROUND) ?pts) img"
    using on unfolding Paint_DrawRectangle_def lines draw_all_concat
    by (simp add: on_matrix_def LED_Width_def LED_Height_def map_concat o_def)
  have "(\<lambda>(X, Y). (uint X, uint Y)) ` set ?pts
      = (\<Union>y \<in> set ?ys. points_of (line_points Xs (of_nat y) Xe (of_nat y)))"
    by (auto simp: points_of_def)
  also have "\<dots> = (\<Union>y \<in> set ?ys. between Xs Xe \<times> {int y})"
    by (intro SUP_cong refl) (simp only: horizontal_points u)
  finally have exact: "(x, y) \<in> (\<lambda>(X, Y). (uint X, uint Y)) ` set ?pts
      \<longleftrightarrow> x \<in> between Xs Xe \<and> (\<exists>k\<in>{unat Ys..<unat Ye}. y = int k)" for x y by auto
  have e: "uint Ys = int (unat Ys)" "uint Ye = int (unat Ye)" by simp_all
  have "(x, y) \<in> (\<lambda>(X, Y). (uint X, uint Y)) ` set ?pts
      \<longleftrightarrow> x \<in> between Xs Xe \<and> uint Ys \<le> y \<and> y < uint Ye" for x y
    using exact [of x y] unfolding int_between e .
  with draw_points [OF assms(1), of c ?pts] show ?thesis unfolding rect by (simp del: concat_map_singleton)
qed

section \<open>Operations as partial pictures\<close>

text \<open>
  \<open>paints f m\<close>: on every buffer, \<open>f\<close> writes the values of the map \<open>m\<close> at its cells (columns
  and rows counted from 0, as \<open>HUB75_DrawPixel\<close> does) and leaves every other one. Operations in
  sequence overlay their pictures.
\<close>

type_synonym picture = "nat \<times> nat \<rightharpoonup> u8"

definition paints :: "(fb \<Rightarrow> fb option) \<Rightarrow> picture \<Rightarrow> bool" where
  "paints f m \<longleftrightarrow> (\<forall>img. length img = 4096 \<longrightarrow> (\<exists>img'. f img = Some img' \<and> length img' = 4096 \<and>
     (\<forall>x < 128. \<forall>y < 32. img' ! pix x y = (case m (x, y) of None \<Rightarrow> img ! pix x y | Some v \<Rightarrow> v))))"

lemma paints_total: "paints f m \<Longrightarrow> total_op f"
  unfolding paints_def total_op_def by blast

lemma paints_Some: "paints Some Map.empty"
  by (simp add: paints_def)

lemma paints_bind:
  assumes "paints f m" and "paints g n"
  shows "paints (\<lambda>img. Option.bind (f img) g) (m ++ n)"
  unfolding paints_def
proof (intro allI impI)
  fix img :: fb assume len: "length img = 4096"
  obtain i where i: "f img = Some i" "length i = 4096"
    "\<forall>x < 128. \<forall>y < 32. i ! pix x y = (case m (x, y) of None \<Rightarrow> img ! pix x y | Some v \<Rightarrow> v)"
    using assms(1) len unfolding paints_def by blast
  obtain j where j: "g i = Some j" "length j = 4096"
    "\<forall>x < 128. \<forall>y < 32. j ! pix x y = (case n (x, y) of None \<Rightarrow> i ! pix x y | Some v \<Rightarrow> v)"
    using assms(2) i(2) unfolding paints_def by blast
  show "\<exists>img'. Option.bind (f img) g = Some img' \<and> length img' = 4096 \<and>
     (\<forall>x < 128. \<forall>y < 32. img' ! pix x y = (case (m ++ n) (x, y) of None \<Rightarrow> img ! pix x y | Some v \<Rightarrow> v))"
    by (rule exI [of _ j]) (use i j in \<open>auto simp: map_add_def split: option.splits\<close>)
qed

lemma paints_pixel:
  assumes "unat X < 128" and "unat Y < 32"
  shows "paints (HUB75_DrawPixel X Y c) [(unat X, unat Y) \<mapsto> ucast c]"
  using assms by (auto simp: paints_def DrawPixel_eq pix_inj pix_bound nth_list_update)

lemma paints_cong: "paints f m \<Longrightarrow> (\<And>img. g img = f img) \<Longrightarrow> m = n \<Longrightarrow> paints g n"
  by (simp add: paints_def)

section \<open>Characters and strings\<close>

text \<open>The dots of a glyph, its columns and rows counted from 0, read as \<open>Paint_DrawChar\<close> does.\<close>

definition glyph_byte :: "sFONT \<Rightarrow> u8 \<Rightarrow> nat \<Rightarrow> nat \<Rightarrow> nat" where
  "glyph_byte font ch row column = (unat ch - 32) * font_Height font * bytes_per_row font + row * bytes_per_row font + column div 8"

definition glyph :: "sFONT \<Rightarrow> u8 \<Rightarrow> nat \<Rightarrow> nat \<Rightarrow> bool" where
  "glyph font ch row column \<longleftrightarrow>
     font_table font ! glyph_byte font ch row column AND drop_bit (column mod 8) 0x80 \<noteq> 0"

definition in_font :: "sFONT \<Rightarrow> u8 \<Rightarrow> bool" where
  "in_font font ch \<longleftrightarrow> 32 \<le> unat ch \<and> 0 < font_Width font \<and>
     (unat ch - 31) * font_Height font * bytes_per_row font \<le> length (font_table font)"

definition dot :: "u16 \<Rightarrow> u16 \<Rightarrow> bool \<Rightarrow> u8 option" where
  "dot fg bg lit = (if lit then Some (ucast fg) else if bg = FONT_BACKGROUND then None else Some (ucast bg))"

definition char_picture :: "u16 \<Rightarrow> u16 \<Rightarrow> u8 \<Rightarrow> sFONT \<Rightarrow> u16 \<Rightarrow> u16 \<Rightarrow> picture" where
  "char_picture X Y ch font fg bg = (\<lambda>(x, y).
     if unat X \<le> x \<and> x < unat X + font_Width font \<and> unat Y \<le> y \<and> y < unat Y + font_Height font
     then dot fg bg (glyph font ch (y - unat Y) (x - unat X)) else None)"

lemma unat_add16: "unat (X :: u16) + n < 65536 \<Longrightarrow> unat (X + of_nat n) = unat X + n"
  by (rule word_less_of_nat_add) simp

lemma paints_char_pixel:
  assumes "unat X + c < 128" and "unat Y + p < 32"
  shows "paints (char_pixel X Y p c b fg bg)
    (\<lambda>(x, y). if x = unat X + c \<and> y = unat Y + p then dot fg bg (b AND drop_bit (c mod 8) 0x80 \<noteq> 0) else None)"
proof -
  have u: "unat (X + of_nat c) = unat X + c" "unat (Y + of_nat p) = unat Y + p"
    using assms by (simp_all add: unat_add16)
  have px: "paints (HUB75_DrawPixel (X + of_nat c) (Y + of_nat p) v) [(unat X + c, unat Y + p) \<mapsto> ucast v]" for v
    using paints_pixel [of "X + of_nat c" "Y + of_nat p" v] assms u by simp
  show ?thesis
  proof (cases "b AND drop_bit (c mod 8) 0x80 \<noteq> 0")
    case True
    then show ?thesis
      by (intro paints_cong [OF px [of fg]]) (auto simp: char_pixel_def Let_def dot_def)
  next
    case False
    then show ?thesis
    proof (cases "bg = FONT_BACKGROUND")
      case True
      with False show ?thesis by (intro paints_cong [OF paints_Some]) (auto simp: char_pixel_def Let_def dot_def)
    next
      case bg: False
      with False show ?thesis
        by (intro paints_cong [OF px [of bg]]) (auto simp: char_pixel_def Let_def dot_def)
    qed
  qed
qed

text \<open>The loops with their pointer, as the operations they do.\<close>

lemma columns_all:
  assumes "\<And>c. c < W \<Longrightarrow> base + c div 8 < length tbl"
  shows "a \<le> W \<Longrightarrow> char_columns tbl X Y fg bg p [a..<W] (base + a div 8) img
    = map_option (\<lambda>img. (base + W div 8, img))
        (draw_all (map (\<lambda>c. char_pixel X Y p c (tbl ! (base + c div 8)) fg bg) [a..<W]) img)"
proof (induction "W - a" arbitrary: a img)
  case 0
  then show ?case by simp
next
  case (Suc n)
  then have a: "a < W" by simp
  have ptr: "(if a mod 8 = 7 then base + a div 8 + 1 else base + a div 8) = base + (a + 1) div 8"
    by (simp add: div_Suc) presburger
  have load: "c_load tbl (int (base + a div 8)) = Some (tbl ! (base + a div 8))"
    using assms [OF a] by (rule c_load_nat)
  have ih: "char_columns tbl X Y fg bg p [a + 1..<W] (base + (a + 1) div 8) img'
    = map_option (\<lambda>img. (base + W div 8, img))
        (draw_all (map (\<lambda>c. char_pixel X Y p c (tbl ! (base + c div 8)) fg bg) [a + 1..<W]) img')" for img'
    using Suc.hyps(2) a by (intro Suc.hyps(1)) simp_all
  show ?case
    unfolding upt_conv_Cons [OF a] char_columns.simps load list.map draw_all.simps ptr ih [unfolded Suc_eq_plus1 [symmetric]]
    by (cases "char_pixel X Y p a (tbl ! (base + a div 8)) fg bg img") (simp_all add: ih [simplified])
qed

lemma pages_all:
  assumes "\<And>p c. p < H \<Longrightarrow> c < font_Width font \<Longrightarrow> base + p * bytes_per_row font + c div 8 < length (font_table font)"
  shows "a \<le> H \<Longrightarrow> char_pages font X Y fg bg [a..<H] (base + a * bytes_per_row font) img
    = draw_all (map (\<lambda>p. draw_all (map (\<lambda>c. char_pixel X Y p c
        (font_table font ! (base + p * bytes_per_row font + c div 8)) fg bg) [0..<font_Width font])) [a..<H]) img"
proof (induction "H - a" arbitrary: a img)
  case 0
  then show ?case by simp
next
  case (Suc n)
  then have a: "a < H" by simp
  let ?W = "font_Width font" and ?B = "base + a * bytes_per_row font"
  have row: "char_columns (font_table font) X Y fg bg a [0..<?W] ?B img
    = map_option (\<lambda>img. (?B + ?W div 8, img))
        (draw_all (map (\<lambda>c. char_pixel X Y a c (font_table font ! (?B + c div 8)) fg bg) [0..<?W]) img)"
    using columns_all [of ?W ?B "font_table font" 0 X Y fg bg a img] assms [OF a] by simp
  have ptr: "(if ?W mod 8 \<noteq> 0 then ?B + ?W div 8 + 1 else ?B + ?W div 8) = base + (a + 1) * bytes_per_row font"
    by (simp add: bytes_per_row_def)
  have ih: "char_pages font X Y fg bg [a + 1..<H] (base + (a + 1) * bytes_per_row font) img'
    = draw_all (map (\<lambda>p. draw_all (map (\<lambda>c. char_pixel X Y p c
        (font_table font ! (base + p * bytes_per_row font + c div 8)) fg bg) [0..<font_Width font])) [a + 1..<H]) img'" for img'
    using Suc.hyps(2) a by (intro Suc.hyps(1)) simp_all
  show ?case
    unfolding upt_conv_Cons [OF a] char_pages.simps row list.map draw_all.simps
    by (cases "draw_all (map (\<lambda>c. char_pixel X Y a c (font_table font ! (?B + c div 8)) fg bg) [0..<?W]) img")
      (simp_all only: option.map bind_simps prod.case ptr ih Suc_eq_plus1 bind.simps)
qed

text \<open>Their pictures: a row of a glyph, a glyph.\<close>

lemma paints_row:
  assumes "unat X + W \<le> 128" and "unat Y + p < 32"
  shows "a \<le> W \<Longrightarrow> paints (draw_all (map (\<lambda>c. char_pixel X Y p c (byte c) fg bg) [a..<W]))
     (\<lambda>(x, y). if unat X + a \<le> x \<and> x < unat X + W \<and> y = unat Y + p
        then dot fg bg (byte (x - unat X) AND drop_bit ((x - unat X) mod 8) 0x80 \<noteq> 0) else None)"
proof (induction "W - a" arbitrary: a)
  case 0
  then show ?case by (intro paints_cong [OF paints_Some]) (auto simp: fun_eq_iff)
next
  case (Suc n)
  then have a: "a < W" by simp
  have rest: "paints (draw_all (map (\<lambda>c. char_pixel X Y p c (byte c) fg bg) [a + 1..<W]))
     (\<lambda>(x, y). if unat X + (a + 1) \<le> x \<and> x < unat X + W \<and> y = unat Y + p
        then dot fg bg (byte (x - unat X) AND drop_bit ((x - unat X) mod 8) 0x80 \<noteq> 0) else None)"
    using Suc.hyps(2) a by (intro Suc.hyps(1)) simp_all
  have one: "paints (char_pixel X Y p a (byte a) fg bg)
    (\<lambda>(x, y). if x = unat X + a \<and> y = unat Y + p then dot fg bg (byte a AND drop_bit (a mod 8) 0x80 \<noteq> 0) else None)"
    using assms a by (intro paints_char_pixel) simp_all
  show ?case
    by (rule paints_cong [OF paints_bind [OF one rest]])
      (use a in \<open>auto simp: upt_conv_Cons map_add_def fun_eq_iff Suc_le_eq split: option.splits simp del: upt_Suc\<close>)
qed

lemma paints_rows:
  assumes "unat X + W \<le> 128" and "unat Y + H \<le> 32"
  shows "a \<le> H \<Longrightarrow> paints (draw_all (map (\<lambda>p. draw_all (map (\<lambda>c. char_pixel X Y p c (byte p c) fg bg) [0..<W])) [a..<H]))
     (\<lambda>(x, y). if unat X \<le> x \<and> x < unat X + W \<and> unat Y + a \<le> y \<and> y < unat Y + H
        then dot fg bg (byte (y - unat Y) (x - unat X) AND drop_bit ((x - unat X) mod 8) 0x80 \<noteq> 0) else None)"
proof (induction "H - a" arbitrary: a)
  case 0
  then show ?case by (intro paints_cong [OF paints_Some]) (auto simp: fun_eq_iff)
next
  case (Suc n)
  then have a: "a < H" by simp
  have rest: "paints (draw_all (map (\<lambda>p. draw_all (map (\<lambda>c. char_pixel X Y p c (byte p c) fg bg) [0..<W])) [a + 1..<H]))
     (\<lambda>(x, y). if unat X \<le> x \<and> x < unat X + W \<and> unat Y + (a + 1) \<le> y \<and> y < unat Y + H
        then dot fg bg (byte (y - unat Y) (x - unat X) AND drop_bit ((x - unat X) mod 8) 0x80 \<noteq> 0) else None)"
    using Suc.hyps(2) a by (intro Suc.hyps(1)) simp_all
  have "unat Y + a < 32" using assms a by simp
  note row = paints_row [OF assms(1) this le0, of "byte a" fg bg]
  show ?case
    by (rule paints_cong [OF paints_bind [OF row rest]])
      (use a in \<open>auto simp: upt_conv_Cons map_add_def fun_eq_iff Suc_le_eq split: option.splits simp del: upt_Suc\<close>)
qed

text \<open>Every byte of the glyph of a character of the font lies in the table.\<close>

lemma glyph_byte_bound:
  assumes "in_font font ch" and "p < font_Height font" and "c < font_Width font"
  shows "glyph_byte font ch p c < length (font_table font)"
proof -
  let ?B = "bytes_per_row font" and ?H = "font_Height font"
  have c: "c div 8 < ?B"
  proof (cases "font_Width font mod 8 = 0")
    case True
    then obtain k where k: "font_Width font = k * 8" by (auto simp: dvd_def mult.commute elim: dvdE)
    then have "c div 8 < k" using assms(3) by (intro less_mult_imp_div_less) simp
    then show ?thesis using k by (simp add: bytes_per_row_def)
  next
    case False
    have "c div 8 \<le> font_Width font div 8" using assms(3) by (intro div_le_mono) simp
    with False show ?thesis by (simp add: bytes_per_row_def)
  qed
  have rows: "p * ?B + ?B \<le> ?H * ?B" using assms(2) by (metis Suc_leI add.commute mult_Suc mult_le_mono1)
  obtain m where m: "unat ch = 32 + m"
    using assms(1) unfolding in_font_def by (blast dest: le_Suc_ex)
  have "(unat ch - 32) * ?H * ?B + ?H * ?B = (unat ch - 31) * ?H * ?B" by (simp add: m algebra_simps)
  with rows show ?thesis using assms(1) c unfolding in_font_def glyph_byte_def by linarith
qed

text \<open>The offset of a character of the font does not wrap.\<close>

lemma char_offset:
  assumes "in_font font ch" and "length (font_table font) < 2 ^ 32" and "0 < font_Height font"
  shows "unat (word_of_int ((uint ch - 32) * int (font_Height font) * int (bytes_per_row font)) :: u32)
    = (unat ch - 32) * font_Height font * bytes_per_row font"
proof -
  let ?n = "(unat ch - 32) * font_Height font * bytes_per_row font"
  have "?n < length (font_table font)"
    using glyph_byte_bound [OF assms(1), of 0 0] assms(1,3) by (simp add: glyph_byte_def in_font_def)
  then have n: "?n < 2 ^ 32" using assms(2) by simp
  have "uint ch = int (unat ch)" by simp
  moreover have "int (unat ch) - 32 = int (unat ch - 32)" using assms(1) by (simp add: in_font_def of_nat_diff)
  ultimately have "(uint ch - 32) * int (font_Height font) * int (bytes_per_row font) = int ?n"
    unfolding of_nat_mult by presburger
  then have "word_of_int ((uint ch - 32) * int (font_Height font) * int (bytes_per_row font)) = (of_nat ?n :: u32)"
    by (simp only: of_int_of_nat_eq)
  moreover have "unat (of_nat ?n :: u32) = ?n" using n by (intro unat_of_nat_small) simp
  ultimately show ?thesis by (simp only:)
qed

definition fits :: "u16 \<Rightarrow> u16 \<Rightarrow> sFONT \<Rightarrow> bool" where
  "fits X Y font \<longleftrightarrow> unat X + font_Width font \<le> 128 \<and> unat Y + font_Height font \<le> 32"

lemma fits_on_matrix: "fits X Y font \<Longrightarrow> \<not> (uint X > LED_Width \<or> uint Y > LED_Height)"
proof -
  assume "fits X Y font"
  then have "unat X \<le> 128" "unat Y \<le> 32" by (simp_all add: fits_def)
  then show ?thesis using uint_le_unat [of X 128] uint_le_unat [of Y 32]
    by (simp add: LED_Width_def LED_Height_def)
qed

lemma char_paints:
  assumes "in_font font ch" and "length (font_table font) < 2 ^ 32" and "fits X Y font"
  shows "paints (Paint_DrawChar X Y ch font fg bg) (char_picture X Y ch font fg bg)"
proof (cases "font_Height font = 0")
  case True
  then show ?thesis using fits_on_matrix [OF assms(3)]
    by (intro paints_cong [OF paints_Some]) (auto simp: Paint_DrawChar_def char_picture_def Let_def fun_eq_iff)
next
  case False
  let ?W = "font_Width font" and ?H = "font_Height font"
  let ?base = "(unat ch - 32) * font_Height font * bytes_per_row font"
  let ?byte = "\<lambda>p c. font_table font ! (?base + p * bytes_per_row font + c div 8)"
  have char: "Paint_DrawChar X Y ch font fg bg img
      = draw_all (map (\<lambda>p. draw_all (map (\<lambda>c. char_pixel X Y p c (?byte p c) fg bg) [0..<?W])) [0..<?H]) img" for img
  proof -
    have "char_pages font X Y fg bg [0..<?H] (?base + 0 * bytes_per_row font) img
      = draw_all (map (\<lambda>p. draw_all (map (\<lambda>c. char_pixel X Y p c (?byte p c) fg bg) [0..<?W])) [0..<?H]) img"
      by (rule pages_all [OF glyph_byte_bound [OF assms(1), unfolded glyph_byte_def] le0])
    then show ?thesis
      unfolding Paint_DrawChar_def Let_def char_offset [OF assms(1,2) False [unfolded neq0_conv]]
        if_not_P [OF fits_on_matrix [OF assms(3)]] by simp
  qed
  have inside: "unat X + ?W \<le> 128" "unat Y + ?H \<le> 32" using assms(3) by (simp_all add: fits_def)
  have "char_picture X Y ch font fg bg = (\<lambda>(x, y). if unat X \<le> x \<and> x < unat X + ?W \<and> unat Y + 0 \<le> y \<and> y < unat Y + ?H
        then dot fg bg (?byte (y - unat Y) (x - unat X) AND drop_bit ((x - unat X) mod 8) 0x80 \<noteq> 0) else None)"
    by (simp only: char_picture_def glyph_def glyph_byte_def add_0_right)
  then show ?thesis by (intro paints_cong [OF paints_rows [OF inside le0, of ?byte fg bg] char]) simp
qed

lemma total_char: "in_font font ch \<Longrightarrow> length (font_table font) < 2 ^ 32 \<Longrightarrow> fits X Y font \<Longrightarrow>
    total_op (Paint_DrawChar X Y ch font fg bg)"
  by (rule paints_total [OF char_paints])

text \<open>
  A string that starts inside stays inside, however long it is: it goes on in the next line, and
  after the last line at its start. A font is narrow enough for its columns not to wrap.
\<close>

definition cursor_ok :: "sFONT \<Rightarrow> u16 \<Rightarrow> u16 \<Rightarrow> bool" where
  "cursor_ok font x y \<longleftrightarrow> unat x \<le> 128 + font_Width font \<and> unat y \<le> 32"

lemma total_string_loop:
  assumes "length (font_table font) < 2 ^ 32" and "fits Xs Ys font"
  shows "cursor_ok font x y \<Longrightarrow> list_all (in_font font) cs \<Longrightarrow> total_op (string_loop Xs Ys font fg bg cs x y)"
proof (induction cs arbitrary: x y)
  case Nil
  have "string_loop Xs Ys font fg bg [] x y = Some" by (rule ext) simp
  then show ?case by simp
next
  case (Cons c cs)
  let ?W = "font_Width font" and ?H = "font_Height font"
  have WH: "?W \<le> 128" "?H \<le> 32" "unat Xs + ?W \<le> 128" "unat Ys + ?H \<le> 32" using assms(2) by (auto simp: fits_def)
  define p1 where "p1 = (if uint x + int ?W > LED_Width then (Xs, y + of_nat ?H) else (x, y))"
  define p2 where "p2 = (if uint (snd p1) + int ?H > LED_Height then (Xs, Ys) else p1)"
  have u: "uint w = int (unat w)" for w :: u16 by simp
  have lim: "uint w + int n > LED_Width \<longleftrightarrow> unat w + n > 128" "uint w + int n > LED_Height \<longleftrightarrow> unat w + n > 32"
    for w :: u16 and n unfolding u LED_Width_def LED_Height_def by linarith+
  have "unat (fst p1) + ?W \<le> 128" using WH(3) unfolding p1_def lim by (simp split: if_splits)
  then have fit: "fits (fst p2) (snd p2) font"
    using WH unfolding p2_def lim fits_def by (simp split: if_splits)
  then have "unat (fst p2 + of_nat ?W) = unat (fst p2) + ?W" using WH by (intro unat_add16) (simp add: fits_def)
  then have ok: "cursor_ok font (fst p2 + of_nat ?W) (snd p2)"
    using fit by (simp add: cursor_ok_def fits_def)
  have "string_loop Xs Ys font fg bg (c # cs) x y
    = (\<lambda>img. Option.bind (Paint_DrawChar (fst p2) (snd p2) c font bg fg img)
        (string_loop Xs Ys font fg bg cs (fst p2 + of_nat ?W) (snd p2)))"
    by (rule ext) (simp add: Let_def p1_def p2_def split: prod.splits)
  moreover have "total_op (Paint_DrawChar (fst p2) (snd p2) c font bg fg)"
    using Cons.prems(2) by (intro total_char assms(1) fit) simp
  moreover have "total_op (string_loop Xs Ys font fg bg cs (fst p2 + of_nat ?W) (snd p2))"
    using Cons.prems(2) by (intro Cons.IH ok) simp
  ultimately show ?case using total_bind by metis
qed

lemma total_string:
  assumes "length (font_table font) < 2 ^ 32" and "fits Xs Ys font" and "list_all (in_font font) cs"
  shows "total_op (Paint_DrawString_EN Xs Ys cs font fg bg)"
proof -
  have "total_op (string_loop Xs Ys font fg bg cs Xs Ys)"
    using assms by (intro total_string_loop) (simp_all add: cursor_ok_def fits_def)
  then show ?thesis using fits_on_matrix [OF assms(2)] by (simp add: total_op_def Paint_DrawString_EN_def)
qed

section \<open>Properties\<close>

definition neighbours :: "int \<times> int \<Rightarrow> int \<times> int \<Rightarrow> bool" where
  "neighbours u v \<longleftrightarrow> u \<noteq> v \<and> \<bar>fst v - fst u\<bar> \<le> 1 \<and> \<bar>snd v - snd u\<bar> \<le> 1"

lemma successively_map_weak:
  "successively P xs \<Longrightarrow> (\<And>u v. u \<in> set xs \<Longrightarrow> v \<in> set xs \<Longrightarrow> P u v \<Longrightarrow> Q (f u) (f v)) \<Longrightarrow> successively Q (map f xs)"
  by (induction xs rule: induct_list012) auto

definition line_cells :: "u16 \<Rightarrow> u16 \<Rightarrow> u16 \<Rightarrow> u16 \<Rightarrow> (int \<times> int) list" where
  "line_cells Xs Ys Xe Ye = map (\<lambda>(p, q). (uint Xs + direction Xs Xe * int p, uint Ys + direction Ys Ye * int q))
     (path (span Xs Xe) (span Ys Ye) 0 0)"

lemma line_cells_points: "set (line_cells Xs Ys Xe Ye) = points_of (line_points Xs Ys Xe Ye)"
proof -
  have "map (\<lambda>(X, Y). (uint X, uint Y)) (line_points Xs Ys Xe Ye) = line_cells Xs Ys Xe Ye"
    using path_box [of _ _ "span Xs Xe" "span Ys Ye" 0 0]
    by (auto simp: line_points_def line_cells_def coord_uint(1))
  then show ?thesis unfolding points_of_def set_map [symmetric] by simp
qed

lemma line_cells_step: "successively neighbours (line_cells Xs Ys Xe Ye)"
  unfolding line_cells_def
  by (rule successively_map_weak [OF path_steps])
    (auto simp: line_step_def neighbours_def direction_def algebra_simps)

lemma direction_span: "uint s + direction s e * int (span s e) = uint e"
  by (auto simp: direction_def span_def word_less_def)

lemma line_cells_hd: "line_cells Xs Ys Xe Ye \<noteq> [] \<and> hd (line_cells Xs Ys Xe Ye) = (uint Xs, uint Ys)"
  using path_nonempty [of 0 "span Xs Xe" 0 "span Ys Ye"] by (simp add: line_cells_def hd_map)

lemma line_cells_last:
  "last (line_cells Xs Ys Xe Ye) = (uint Xe, uint Ye) \<or>
   last (line_cells Xs Ys Xe Ye) = (uint Xe - direction Xs Xe, uint Ye)"
proof -
  let ?d = "direction Xs Xe" and ?n = "span Xs Xe"
  have l: "last (line_cells Xs Ys Xe Ye) = (\<lambda>(p, q). (uint Xs + ?d * int p, uint Ys + direction Ys Ye * int q))
      (last (path ?n (span Ys Ye) 0 0))"
    using path_nonempty [of 0 ?n 0 "span Ys Ye"] by (simp add: line_cells_def last_map)
  have "uint Xs + ?d * int (?n - 1) = uint Xe \<or> uint Xs + ?d * int (?n - 1) = uint Xe - ?d"
    using direction_span [of Xs Xe] by (cases ?n) (simp_all add: algebra_simps)
  then show ?thesis
    using path_last [of 0 ?n 0 "span Ys Ye"] direction_span [of Xs Xe] direction_span [of Ys Ye] l by auto
qed

lemma line_cells_box: "set (line_cells Xs Ys Xe Ye) \<subseteq> between Xs Xe \<times> between Ys Ye"
proof
  fix u assume "u \<in> set (line_cells Xs Ys Xe Ye)"
  then obtain p q where pq: "(p, q) \<in> set (path (span Xs Xe) (span Ys Ye) 0 0)"
    "u = (uint Xs + direction Xs Xe * int p, uint Ys + direction Ys Ye * int q)"
    by (auto simp: line_cells_def)
  then have "p \<le> span Xs Xe" "q \<le> span Ys Ye" using path_box by blast+
  then have "uint Xs + direction Xs Xe * int p \<in> between Xs Xe" "uint Ys + direction Ys Ye * int q \<in> between Ys Ye"
    unfolding coords_cover [symmetric] by (auto simp: coord_uint(1) image_iff less_Suc_eq_le intro!: exI)
  then show "u \<in> between Xs Xe \<times> between Ys Ye" using pq(2) by simp
qed

text \<open>
  C29: A solid line of width 1 between two points that the guard accepts colours exactly the cells
  of a connected path and nothing else: the path begins at the start point, each cell is a
  neighbour of the one before it, all lie in the rectangle of the two end points, and the last is
  the end point or the cell one column before it in its row. The loop always ends.
\<close>

lemma line_connected:
  assumes "length img = 4096" and "on_matrix Xs Ys" and "on_matrix Xe Ye"
  shows "\<exists>cells img'. Paint_DrawLine Xs Ys Xe Ye c DOT_PIXEL_1X1 LINE_STYLE_SOLID img = Some img' \<and>
    length img' = 4096 \<and> cells \<noteq> [] \<and> hd cells = (uint Xs, uint Ys) \<and> successively neighbours cells \<and>
    last cells \<in> {(uint Xe, uint Ye), (uint Xe - direction Xs Xe, uint Ye)} \<and>
    set cells \<subseteq> between Xs Xe \<times> between Ys Ye \<and>
    (\<forall>x y. visible x y \<longrightarrow> pixel img' x y = (if (x, y) \<in> set cells then ucast c else pixel img x y))"
proof -
  obtain img' where "Paint_DrawLine Xs Ys Xe Ye c DOT_PIXEL_1X1 LINE_STYLE_SOLID img = Some img'"
    "length img' = 4096" "\<forall>x y. visible x y \<longrightarrow>
      pixel img' x y = (if (x, y) \<in> set (line_cells Xs Ys Xe Ye) then ucast c else pixel img x y)"
    using line_1x1_draws [OF assms, of c] unfolding line_cells_points by blast
  then show ?thesis
    using line_cells_hd line_cells_step line_cells_box line_cells_last [of Xs Ys Xe Ye]
    by (intro exI [of _ "line_cells Xs Ys Xe Ye"] exI [of _ img']) auto
qed

lemma line_connected_witness:
  "\<exists>cells img'. Paint_DrawLine 1 1 4 3 RED DOT_PIXEL_1X1 LINE_STYLE_SOLID (replicate 4096 0) = Some img' \<and>
    length img' = 4096 \<and> cells \<noteq> [] \<and> hd cells = (1, 1) \<and> successively neighbours cells \<and>
    last cells \<in> {(4, 3), (3, 3)} \<and> set cells \<subseteq> between 1 4 \<times> between 1 3 \<and>
    (\<forall>x y. visible x y \<longrightarrow> pixel img' x y = (if (x, y) \<in> set cells then ucast RED else pixel (replicate 4096 0) x y))"
  using line_connected [of "replicate 4096 0" 1 1 4 3 RED]
  by (simp add: on_matrix_def direction_def)

text \<open>
  The end point can be missed: the second test of the loop uses the error term that the first one
  has just changed.
\<close>

lemma path_3_2: "path 3 2 0 0 = [(0, 0), (1, 1), (2, 2)]"
  by (simp add: path.simps line_error_def)

lemma line_misses_its_end:
  assumes "length img = 4096"
  shows "\<exists>img'. Paint_DrawLine 1 1 4 3 c DOT_PIXEL_1X1 LINE_STYLE_SOLID img = Some img' \<and>
    pixel img' 4 3 = pixel img 4 3"
proof -
  have "line_cells 1 1 4 3 = [(1, 1), (2, 2), (3, 3)]"
    by (simp add: line_cells_def span_def direction_def path_3_2)
  then have "(4, 3) \<notin> points_of (line_points 1 1 4 3)" by (simp add: line_cells_points [symmetric])
  moreover have "visible 4 3" by (simp add: visible_def)
  ultimately show ?thesis
    using line_1x1_draws [OF assms, of 1 1 4 3 c] by (auto simp: on_matrix_def)
qed

text \<open>
  C30: A filled rectangle of line width 1 colours exactly the columns between its two corners,
  whichever is the left one, and the rows from its first up to, but without, its last: the bottom
  row is not filled, and nothing is when the rows are given bottom first.
\<close>

lemma filled_rectangle_draws:
  assumes "length img = 4096" and "on_matrix Xs Ys" and "on_matrix Xe Ye"
  shows "\<exists>img'. Paint_DrawRectangle Xs Ys Xe Ye c DOT_PIXEL_1X1 DRAW_FILL_FULL img = Some img' \<and>
    length img' = 4096 \<and> (\<forall>x y. visible x y \<longrightarrow>
      pixel img' x y = (if x \<in> between Xs Xe \<and> uint Ys \<le> y \<and> y < uint Ye then ucast c else pixel img x y))"
  by (rule rectangle_filled [OF assms])

lemma filled_rectangle_draws_witness:
  "\<exists>img'. Paint_DrawRectangle 1 17 64 32 BLACK DOT_PIXEL_1X1 DRAW_FILL_FULL (replicate 4096 7) = Some img' \<and>
    length img' = 4096 \<and> (\<forall>x y. visible x y \<longrightarrow>
      pixel img' x y = (if x \<in> between 1 64 \<and> 17 \<le> y \<and> y < 32 then ucast BLACK else pixel (replicate 4096 7) x y))"
  using filled_rectangle_draws [of "replicate 4096 7" 1 17 64 32 BLACK] by (simp add: on_matrix_def)

text \<open>
  C32: Drawing a character of the font at a place where it fits sets exactly its cell of the
  matrix: the dots of its glyph in the foreground colour, the others in the background colour, or
  not at all when that is the colour of the font background; no access leaves the table or the buffer.
\<close>

lemma char_drawn:
  assumes "length img = 4096" and "in_font font ch" and "length (font_table font) < 2 ^ 32" and "fits X Y font"
  shows "\<exists>img'. Paint_DrawChar X Y ch font fg bg img = Some img' \<and> length img' = 4096 \<and>
    (\<forall>x < 128. \<forall>y < 32. img' ! pix x y =
       (if unat X \<le> x \<and> x < unat X + font_Width font \<and> unat Y \<le> y \<and> y < unat Y + font_Height font
        then if glyph font ch (y - unat Y) (x - unat X) then ucast fg
             else if bg = WHITE then img ! pix x y else ucast bg
        else img ! pix x y))"
proof -
  obtain img' where i: "Paint_DrawChar X Y ch font fg bg img = Some img'" "length img' = 4096"
    "\<forall>x < 128. \<forall>y < 32. img' ! pix x y =
      (case char_picture X Y ch font fg bg (x, y) of None \<Rightarrow> img ! pix x y | Some v \<Rightarrow> v)"
    using char_paints [OF assms(2-4), of fg bg] assms(1) unfolding paints_def by blast
  show ?thesis
    by (rule exI [of _ img']) (use i in \<open>simp add: char_picture_def dot_def FONT_BACKGROUND_def\<close>)
qed

definition tiny_font :: sFONT where
  "tiny_font = \<lparr>font_table = [0, 0, 0, 0x80, 0x80, 0x80], font_Width = 2, font_Height = 3\<rparr>"

lemma char_drawn_witness:
  "\<exists>img'. Paint_DrawChar 0 29 33 tiny_font RED BLACK (replicate 4096 7) = Some img' \<and> length img' = 4096 \<and>
    (\<forall>x < 128. \<forall>y < 32. img' ! pix x y =
       (if unat (0 :: u16) \<le> x \<and> x < unat (0 :: u16) + font_Width tiny_font \<and>
           unat (29 :: u16) \<le> y \<and> y < unat (29 :: u16) + font_Height tiny_font
        then if glyph tiny_font 33 (y - unat (29 :: u16)) (x - unat (0 :: u16)) then ucast RED
             else if BLACK = WHITE then replicate 4096 7 ! pix x y else ucast BLACK
        else replicate 4096 7 ! pix x y))"
  by (rule char_drawn) (simp_all add: in_font_def fits_def tiny_font_def bytes_per_row_def)

text \<open>The guard of the points lets a dot of size 2 leave the buffer at the far corner.\<close>

lemma thick_dot_leaves_buffer:
  assumes "length img = 4096"
  shows "Paint_DrawPoint 128 32 c DOT_PIXEL_2X2 DOT_FILL_AROUND img = None"
proof -
  have "[0..2 :: int] = [0, 1, 2]" by (simp add: upto.simps)
  then show ?thesis using assms
    by (simp add: Paint_DrawPoint_def LED_Width_def LED_Height_def Let_def HUB75_DrawPixel_def c_store_def)
qed

end
