(* ===== verification/Drawing_Laws.thy ===== *)
theory Drawing_Laws
  imports Gui_Paint
begin

text \<open>
  What the screens need of the drawing functions: where an operation may change the picture
  (\<open>stays_in\<close>), which pixel it leaves alone (\<open>keeps\<close>) and which it gives a colour (\<open>sets_to\<close>), and how
  these behave in sequences. Columns and rows count from 1.
\<close>

section \<open>Regions\<close>

definition stays_in :: "(int \<times> int) set \<Rightarrow> (fb \<Rightarrow> fb option) \<Rightarrow> bool" where
  "stays_in R f \<longleftrightarrow> (\<forall>img. length img = 4096 \<longrightarrow> (\<exists>img'. f img = Some img' \<and> length img' = 4096 \<and>
     (\<forall>x y. visible x y \<longrightarrow> (x, y) \<notin> R \<longrightarrow> pixel img' x y = pixel img x y)))"

lemma within_total: "stays_in R f \<Longrightarrow> total_op f"
  unfolding stays_in_def total_op_def by blast

lemma within_UNIV: "total_op f \<longleftrightarrow> stays_in UNIV f"
  unfolding stays_in_def total_op_def by simp

lemma within_mono: "stays_in R f \<Longrightarrow> R \<subseteq> S \<Longrightarrow> stays_in S f"
  unfolding stays_in_def by (meson subsetD)

lemma within_Some: "stays_in R Some"
  by (simp add: stays_in_def)

lemma within_bind: "stays_in R f \<Longrightarrow> stays_in R g \<Longrightarrow> stays_in R (\<lambda>img. Option.bind (f img) g)"
  unfolding stays_in_def
  by (metis (no_types, lifting) bind.bind_lunit)

interpretation region: drawing_contract "stays_in R" for R
  by unfold_locales (simp_all add: within_Some within_bind)

lemma within_pixel:
  assumes "unat X < 128" and "unat Y < 32"
  shows "stays_in {(int (unat X) + 1, int (unat Y) + 1)} (HUB75_DrawPixel X Y c)"
proof -
  have "pixel (img[pix (unat X) (unat Y) := ucast c]) x y = pixel img x y"
    if "visible x y" "(x, y) \<noteq> (int (unat X) + 1, int (unat Y) + 1)" for x y and img :: fb
  proof -
    have v: "nat (x - 1) < 128" "nat (y - 1) < 32" "int (nat (x - 1)) + 1 = x" "int (nat (y - 1)) + 1 = y"
      using that(1) by (auto simp: visible_def)
    have "pix (unat X) (unat Y) \<noteq> pix (nat (x - 1)) (nat (y - 1))"
      unfolding pix_inj [OF assms v(1,2)] using that(2) v(3,4) by metis
    then show ?thesis by (simp add: pixel_def)
  qed
  then show ?thesis by (simp add: stays_in_def DrawPixel_eq assms)
qed

lemma within_point:
  assumes "uint X + dot_size d \<le> 129" and "uint Y + dot_size d \<le> 33"
  shows "stays_in ({uint X - dot_size d + 1..uint X + dot_size d - 1} \<times> {uint Y - dot_size d + 1..uint Y + dot_size d - 1})
    (Paint_DrawPoint X Y c d DOT_FILL_AROUND)" (is "stays_in ?R _")
proof -
  let ?x = "uint X" and ?y = "uint Y" and ?d = "dot_size d"
  have cell: "stays_in ?R (HUB75_DrawPixel (word_of_int (?x + i - ?d)) (word_of_int (?y + j - ?d)) c)"
    if "i \<in> {0..2 * ?d - 2}" "j \<in> {0..2 * ?d - 2}" "\<not> (?x + i - ?d < 0 \<or> ?y + j - ?d < 0)" for i j
  proof -
    have ij: "0 \<le> ?x + i - ?d" "?x + i - ?d < 128" "0 \<le> ?y + j - ?d" "?y + j - ?d < 32"
      using that assms by auto
    then have u: "unat (word_of_int (?x + i - ?d) :: u16) = nat (?x + i - ?d)"
      "unat (word_of_int (?y + j - ?d) :: u16) = nat (?y + j - ?d)" by (intro unat_word_of_int16; linarith)+
    show ?thesis
      by (rule within_mono [OF within_pixel]) (use ij that u in auto)
  qed
  then have "list_all (stays_in ?R) (concat (map (\<lambda>i.
             map (\<lambda>j. HUB75_DrawPixel (word_of_int (?x + i - ?d)) (word_of_int (?y + j - ?d)) c)
               (takeWhile (\<lambda>j. \<not> (?x + i - ?d < 0 \<or> ?y + j - ?d < 0)) [0..2 * ?d - 2]))
             [0..2 * ?d - 2]))"
    by (auto simp: list_all_iff dest!: set_takeWhileD)
  then have "stays_in ?R (draw_all (concat (map (\<lambda>i.
             map (\<lambda>j. HUB75_DrawPixel (word_of_int (?x + i - ?d)) (word_of_int (?y + j - ?d)) c)
               (takeWhile (\<lambda>j. \<not> (?x + i - ?d < 0 \<or> ?y + j - ?d < 0)) [0..2 * ?d - 2]))
             [0..2 * ?d - 2])))" by (rule region.ok_draw_all)
  then show ?thesis by (simp add: stays_in_def Paint_DrawPoint_def Let_def)
qed

text \<open>The box of the two ends of a line, widened by its width.\<close>

definition box :: "int \<Rightarrow> u16 \<Rightarrow> u16 \<Rightarrow> u16 \<Rightarrow> u16 \<Rightarrow> (int \<times> int) set" where
  "box m Xs Ys Xe Ye = {min (uint Xs) (uint Xe) - m..max (uint Xs) (uint Xe) + m} \<times>
     {min (uint Ys) (uint Ye) - m..max (uint Ys) (uint Ye) + m}"

lemma line_points_box:
  assumes "(X, Y) \<in> set (line_points Xs Ys Xe Ye)"
  shows "(uint X, uint Y) \<in> box 0 Xs Ys Xe Ye"
proof -
  have "(uint X, uint Y) \<in> set (line_cells Xs Ys Xe Ye)"
    unfolding line_cells_points points_of_def using assms by force
  then show ?thesis using line_cells_box [of Xs Ys Xe Ye] by (auto simp: box_def between_def)
qed

lemma within_line:
  assumes "uint Xs + dot_size w \<le> 129" "uint Xe + dot_size w \<le> 129"
    and "uint Ys + dot_size w \<le> 33" "uint Ye + dot_size w \<le> 33"
  shows "stays_in (box (dot_size w - 1) Xs Ys Xe Ye) (Paint_DrawLine Xs Ys Xe Ye c w LINE_STYLE_SOLID)"
proof -
  have w: "1 \<le> dot_size w" by (cases w) simp_all
  then have on: "on_matrix Xs Ys" "on_matrix Xe Ye" using assms by (simp_all add: on_matrix_def)
  have "stays_in (box (dot_size w - 1) Xs Ys Xe Ye) (Paint_DrawPoint X Y c w DOT_FILL_AROUND)"
    if "(X, Y) \<in> set (line_points Xs Ys Xe Ye)" for X Y
  proof -
    have b: "(uint X, uint Y) \<in> box 0 Xs Ys Xe Ye" by (rule line_points_box [OF that])
    then have "uint X + dot_size w \<le> 129" "uint Y + dot_size w \<le> 33" using assms by (auto simp: box_def)
    from within_point [OF this] show ?thesis
      by (rule within_mono) (use b in \<open>auto simp: box_def\<close>)
  qed
  then have "stays_in (box (dot_size w - 1) Xs Ys Xe Ye)
      (draw_all (map (\<lambda>(X, Y). Paint_DrawPoint X Y c w DOT_FILL_AROUND) (line_points Xs Ys Xe Ye)))"
    by (intro region.ok_draw_all) (auto simp: list_all_iff)
  then show ?thesis by (simp add: stays_in_def DrawLine_law [OF on])
qed

lemma within_line_1x1:
  "stays_in (box 0 Xs Ys Xe Ye) (Paint_DrawLine Xs Ys Xe Ye c DOT_PIXEL_1X1 LINE_STYLE_SOLID)"
proof (cases "on_matrix Xs Ys \<and> on_matrix Xe Ye")
  case True
  then show ?thesis using within_line [of Xs DOT_PIXEL_1X1 Xe Ys Ye c] by (simp add: on_matrix_def)
next
  case False
  then show ?thesis by (simp add: stays_in_def DrawLine_off)
qed

lemma within_point_1x1: "stays_in {(uint X, uint Y)} (Paint_DrawPoint X Y c DOT_PIXEL_1X1 DOT_FILL_AROUND)"
  by (auto simp: stays_in_def DrawPoint_1x1 pixel_plot)

lemma within_filled:
  "stays_in (between Xs Xe \<times> {uint Ys..<uint Ye}) (Paint_DrawRectangle Xs Ys Xe Ye c DOT_PIXEL_1X1 DRAW_FILL_FULL)"
proof (cases "on_matrix Xs Ys \<and> on_matrix Xe Ye")
  case True
  show ?thesis unfolding stays_in_def
  proof (intro allI impI)
    fix img :: fb assume "length img = 4096"
    from rectangle_filled [OF this, of Xs Ys Xe Ye c] True obtain img' where
      "Paint_DrawRectangle Xs Ys Xe Ye c DOT_PIXEL_1X1 DRAW_FILL_FULL img = Some img'" "length img' = 4096"
      "\<forall>x y. visible x y \<longrightarrow>
        pixel img' x y = (if x \<in> between Xs Xe \<and> uint Ys \<le> y \<and> y < uint Ye then ucast c else pixel img x y)" by blast
    then show "\<exists>img'. Paint_DrawRectangle Xs Ys Xe Ye c DOT_PIXEL_1X1 DRAW_FILL_FULL img = Some img' \<and>
      length img' = 4096 \<and>
      (\<forall>x y. visible x y \<longrightarrow> (x, y) \<notin> between Xs Xe \<times> {uint Ys..<uint Ye} \<longrightarrow> pixel img' x y = pixel img x y)"
      by (intro exI [of _ img']) auto
  qed
next
  case False
  then show ?thesis
    by (auto simp: stays_in_def Paint_DrawRectangle_def on_matrix_def LED_Width_def LED_Height_def not_le)
qed

definition frame_cells :: "u16 \<Rightarrow> u16 \<Rightarrow> u16 \<Rightarrow> u16 \<Rightarrow> (int \<times> int) set" where
  "frame_cells Xs Ys Xe Ye = box 0 Xs Ys Xe Ys \<union> box 0 Xs Ys Xs Ye \<union> box 0 Xe Ye Xe Ys \<union> box 0 Xe Ye Xs Ye"

lemma within_outline:
  "stays_in (frame_cells Xs Ys Xe Ye) (Paint_DrawRectangle Xs Ys Xe Ye c DOT_PIXEL_1X1 DRAW_FILL_EMPTY)"
proof -
  have line: "stays_in (frame_cells Xs Ys Xe Ye) (Paint_DrawLine X Y X' Y' c DOT_PIXEL_1X1 LINE_STYLE_SOLID)"
    if "box 0 X Y X' Y' \<subseteq> frame_cells Xs Ys Xe Ye" for X Y X' Y'
    by (rule within_mono [OF within_line_1x1 that])
  have "stays_in (frame_cells Xs Ys Xe Ye) (draw_all
      [Paint_DrawLine Xs Ys Xe Ys c DOT_PIXEL_1X1 LINE_STYLE_SOLID,
       Paint_DrawLine Xs Ys Xs Ye c DOT_PIXEL_1X1 LINE_STYLE_SOLID,
       Paint_DrawLine Xe Ye Xe Ys c DOT_PIXEL_1X1 LINE_STYLE_SOLID,
       Paint_DrawLine Xe Ye Xs Ye c DOT_PIXEL_1X1 LINE_STYLE_SOLID])"
    by (intro region.ok_draw_all) (auto simp: frame_cells_def intro!: line [unfolded frame_cells_def])
  then show ?thesis by (simp add: stays_in_def Paint_DrawRectangle_def)
qed

section \<open>One pixel\<close>

definition keeps :: "int \<times> int \<Rightarrow> (fb \<Rightarrow> fb option) \<Rightarrow> bool" where
  "keeps p f \<longleftrightarrow> stays_in (- {p}) f"

definition sets_to :: "int \<times> int \<Rightarrow> u16 \<Rightarrow> (fb \<Rightarrow> fb option) \<Rightarrow> bool" where
  "sets_to p c f \<longleftrightarrow> (\<forall>img. length img = 4096 \<longrightarrow> (\<exists>img'. f img = Some img' \<and> length img' = 4096 \<and>
     pixel img' (fst p) (snd p) = ucast c))"

lemma keeps_within: "stays_in R f \<Longrightarrow> p \<notin> R \<Longrightarrow> keeps p f"
  unfolding keeps_def by (rule within_mono) auto

interpretation spared: drawing_contract "keeps p" for p
  unfolding keeps_def by unfold_locales

lemma keeps_total: "keeps p f \<Longrightarrow> total_op f"
  unfolding keeps_def by (rule within_total)

lemma sets_then_keeps:
  assumes "sets_to p c f" and "keeps p g" and "visible (fst p) (snd p)"
  shows "sets_to p c (\<lambda>img. Option.bind (f img) g)"
  unfolding sets_to_def
proof (intro allI impI)
  fix img :: fb assume "length img = 4096"
  then obtain i where i: "f img = Some i" "length i = 4096" "pixel i (fst p) (snd p) = ucast c"
    using assms(1) unfolding sets_to_def by blast
  obtain j where "g i = Some j" "length j = 4096"
    "\<forall>x y. visible x y \<longrightarrow> (x, y) \<notin> - {p} \<longrightarrow> pixel j x y = pixel i x y"
    using assms(2) i(2) unfolding keeps_def stays_in_def by blast
  then show "\<exists>img'. Option.bind (f img) g = Some img' \<and> length img' = 4096 \<and> pixel img' (fst p) (snd p) = ucast c"
    using i assms(3) by (intro exI [of _ j]) auto
qed

lemma total_then_sets:
  assumes "total_op f" and "sets_to p c g"
  shows "sets_to p c (\<lambda>img. Option.bind (f img) g)"
  unfolding sets_to_def
proof (intro allI impI)
  fix img :: fb assume "length img = 4096"
  with assms(1) obtain i where "f img = Some i" "length i = 4096" by (rule total_opE)
  then show "\<exists>img'. Option.bind (f img) g = Some img' \<and> length img' = 4096 \<and> pixel img' (fst p) (snd p) = ucast c"
    using assms(2) unfolding sets_to_def by fastforce
qed

text \<open>In a sequence: the last operation that does not leave the pixel alone decides.\<close>

lemma sets_sequence:
  assumes "list_all total_op fs" and "sets_to p c f" and "list_all (keeps p) gs" and "visible (fst p) (snd p)"
  shows "sets_to p c (draw_all (fs @ f # gs))"
  using assms(1)
proof (induction fs)
  case Nil
  show ?case using sets_then_keeps [OF assms(2) spared.ok_draw_all [OF assms(3)] assms(4)]
    by (simp add: draw_all_fun)
next
  case (Cons f' fs)
  then show ?case by (simp add: draw_all_fun total_then_sets)
qed

lemma sets_filled:
  assumes "on_matrix Xs Ys" and "on_matrix Xe Ye" and "fst p \<in> between Xs Xe" and "uint Ys \<le> snd p" "snd p < uint Ye"
    and "visible (fst p) (snd p)"
  shows "sets_to p c (Paint_DrawRectangle Xs Ys Xe Ye c DOT_PIXEL_1X1 DRAW_FILL_FULL)"
  unfolding sets_to_def using rectangle_filled [OF _ assms(1,2), of _ c] assms(3-6) by fastforce

lemma sets_point:
  assumes "visible (fst p) (snd p)" and "uint X = fst p" and "uint Y = snd p"
  shows "sets_to p c (Paint_DrawPoint X Y c DOT_PIXEL_1X1 DOT_FILL_AROUND)"
  using assms by (simp add: sets_to_def DrawPoint_1x1 pixel_plot)

end
