(* ===== verification/Fonts.thy ===== *)
theory Fonts
  imports Gui_Paint
begin

text \<open>
  The tables of \<open>Core/Src/drivers/display/font8.c\<close> and \<open>font12.c\<close>: the 95 printable characters
  from the space on, one line here for each, one byte for each of its rows. They are cut into
  chunks; \<open>Font8_Table\<close> and \<open>Font12_Table\<close> are the whole arrays.
\<close>

definition Font8_Table_0 :: "u8 list" where
  "Font8_Table_0 = [
     0, 0, 0, 0, 0, 0, 0, 0,
     0x20, 0x20, 0x20, 0x20, 0, 0x20, 0, 0,
     0x50, 0x50, 0, 0, 0, 0, 0, 0,
     0x28, 0x50, 0xF8, 0x50, 0xF8, 0x50, 0xA0, 0,
     0x20, 0x30, 0x60, 0x30, 0x10, 0x60, 0x20, 0,
     0x20, 0x20, 0x18, 0x60, 0x10, 0x10, 0, 0,
     0, 0x38, 0x20, 0x60, 0x50, 0x78, 0, 0,
     0x20, 0x20, 0x20, 0, 0, 0, 0, 0,
     0x10, 0x20, 0x20, 0x20, 0x20, 0x20, 0x10, 0,
     0x40, 0x20, 0x20, 0x20, 0x20, 0x20, 0x40, 0,
     0x20, 0x70, 0x20, 0x50, 0, 0, 0, 0,
     0, 0x20, 0x20, 0xF8, 0x20, 0x20, 0, 0,
     0, 0, 0, 0, 0x10, 0x20, 0x20, 0,
     0, 0, 0, 0x70, 0, 0, 0, 0]"

definition Font8_Table_1 :: "u8 list" where
  "Font8_Table_1 = [
     0, 0, 0, 0, 0, 0x20, 0, 0,
     0x10, 0x20, 0x20, 0x20, 0x40, 0x40, 0x80, 0,
     0x20, 0x50, 0x50, 0x50, 0x50, 0x20, 0, 0,
     0x60, 0x20, 0x20, 0x20, 0x20, 0xF8, 0, 0,
     0x20, 0x50, 0x20, 0x20, 0x40, 0x70, 0, 0,
     0x20, 0x50, 0x10, 0x20, 0x10, 0x60, 0, 0,
     0x10, 0x30, 0x50, 0x78, 0x10, 0x38, 0, 0,
     0x70, 0x40, 0x60, 0x10, 0x50, 0x20, 0, 0,
     0x30, 0x40, 0x60, 0x50, 0x50, 0x60, 0, 0,
     0x70, 0x50, 0x10, 0x20, 0x20, 0x20, 0, 0,
     0x20, 0x50, 0x20, 0x50, 0x50, 0x20, 0, 0,
     0x30, 0x50, 0x50, 0x30, 0x10, 0x60, 0, 0,
     0, 0, 0x20, 0, 0, 0x20, 0, 0,
     0, 0, 0x10, 0, 0x10, 0x20, 0, 0]"

definition Font8_Table_2 :: "u8 list" where
  "Font8_Table_2 = [
     0, 0x10, 0x20, 0xC0, 0x20, 0x10, 0, 0,
     0, 0x70, 0, 0x70, 0, 0, 0, 0,
     0, 0x40, 0x20, 0x18, 0x20, 0x40, 0, 0,
     0x20, 0x50, 0x10, 0x20, 0, 0x20, 0, 0,
     0x30, 0x48, 0x48, 0x58, 0x48, 0x40, 0x38, 0,
     0x60, 0x20, 0x50, 0x70, 0x88, 0xD8, 0, 0,
     0xF0, 0x48, 0x70, 0x48, 0x48, 0xF0, 0, 0,
     0x70, 0x50, 0x40, 0x40, 0x40, 0x30, 0, 0,
     0xF0, 0x48, 0x48, 0x48, 0x48, 0xF0, 0, 0,
     0xF8, 0x48, 0x60, 0x40, 0x48, 0xF8, 0, 0,
     0xF8, 0x48, 0x60, 0x40, 0x40, 0xE0, 0, 0,
     0x70, 0x40, 0x40, 0x58, 0x50, 0x30, 0, 0,
     0xE8, 0x48, 0x78, 0x48, 0x48, 0xE8, 0, 0,
     0x70, 0x20, 0x20, 0x20, 0x20, 0x70, 0, 0]"

definition Font8_Table_3 :: "u8 list" where
  "Font8_Table_3 = [
     0x38, 0x10, 0x10, 0x50, 0x50, 0x20, 0, 0,
     0xD8, 0x50, 0x60, 0x70, 0x50, 0xD8, 0, 0,
     0xE0, 0x40, 0x40, 0x40, 0x48, 0xF8, 0, 0,
     0xD8, 0xD8, 0xD8, 0xA8, 0x88, 0xD8, 0, 0,
     0xD8, 0x68, 0x68, 0x58, 0x58, 0xE8, 0, 0,
     0x30, 0x48, 0x48, 0x48, 0x48, 0x30, 0, 0,
     0xF0, 0x48, 0x48, 0x70, 0x40, 0xE0, 0, 0,
     0x30, 0x48, 0x48, 0x48, 0x48, 0x30, 0x18, 0,
     0xF0, 0x48, 0x48, 0x70, 0x48, 0xE8, 0, 0,
     0x70, 0x50, 0x20, 0x10, 0x50, 0x70, 0, 0,
     0xF8, 0xA8, 0x20, 0x20, 0x20, 0x70, 0, 0,
     0xD8, 0x48, 0x48, 0x48, 0x48, 0x30, 0, 0,
     0xD8, 0x88, 0x48, 0x50, 0x50, 0x30, 0, 0,
     0xD8, 0x88, 0xA8, 0xA8, 0xA8, 0x50, 0, 0]"

definition Font8_Table_4 :: "u8 list" where
  "Font8_Table_4 = [
     0xD8, 0x50, 0x20, 0x20, 0x50, 0xD8, 0, 0,
     0xD8, 0x88, 0x50, 0x20, 0x20, 0x70, 0, 0,
     0x78, 0x48, 0x10, 0x20, 0x48, 0x78, 0, 0,
     0x30, 0x20, 0x20, 0x20, 0x20, 0x20, 0x30, 0,
     0x80, 0x40, 0x40, 0x20, 0x20, 0x20, 0x10, 0,
     0x60, 0x20, 0x20, 0x20, 0x20, 0x20, 0x60, 0,
     0x20, 0x20, 0x50, 0, 0, 0, 0, 0,
     0, 0, 0, 0, 0, 0, 0, 0xF8,
     0x20, 0x10, 0, 0, 0, 0, 0, 0,
     0, 0, 0x30, 0x10, 0x70, 0x78, 0, 0,
     0xC0, 0x40, 0x70, 0x48, 0x48, 0xF0, 0, 0,
     0, 0, 0x70, 0x40, 0x40, 0x70, 0, 0,
     0x18, 0x08, 0x38, 0x48, 0x48, 0x38, 0, 0,
     0, 0, 0x70, 0x70, 0x40, 0x30, 0, 0]"

definition Font8_Table_5 :: "u8 list" where
  "Font8_Table_5 = [
     0x10, 0x20, 0x70, 0x20, 0x20, 0x70, 0, 0,
     0, 0, 0x38, 0x48, 0x48, 0x38, 0x08, 0x30,
     0xC0, 0x40, 0x70, 0x48, 0x48, 0xE8, 0, 0,
     0x20, 0, 0x60, 0x20, 0x20, 0x70, 0, 0,
     0x20, 0, 0x70, 0x10, 0x10, 0x10, 0x10, 0x70,
     0xC0, 0x40, 0x58, 0x70, 0x50, 0xD8, 0, 0,
     0x60, 0x20, 0x20, 0x20, 0x20, 0x70, 0, 0,
     0, 0, 0xD0, 0xA8, 0xA8, 0xA8, 0, 0,
     0, 0, 0xF0, 0x48, 0x48, 0xC8, 0, 0,
     0, 0, 0x30, 0x48, 0x48, 0x30, 0, 0,
     0, 0, 0xF0, 0x48, 0x48, 0x70, 0x40, 0xE0,
     0, 0, 0x38, 0x48, 0x48, 0x38, 0x08, 0x18,
     0, 0, 0x78, 0x20, 0x20, 0x70, 0, 0,
     0, 0, 0x30, 0x20, 0x10, 0x60, 0, 0]"

definition Font8_Table_6 :: "u8 list" where
  "Font8_Table_6 = [
     0, 0x40, 0xF0, 0x40, 0x48, 0x30, 0, 0,
     0, 0, 0xD8, 0x48, 0x48, 0x38, 0, 0,
     0, 0, 0xC8, 0x48, 0x30, 0x30, 0, 0,
     0, 0, 0xD8, 0xA8, 0xA8, 0x50, 0, 0,
     0, 0, 0x48, 0x30, 0x30, 0x48, 0, 0,
     0, 0, 0xD8, 0x50, 0x50, 0x20, 0x20, 0x60,
     0, 0, 0x78, 0x50, 0x28, 0x78, 0, 0,
     0x10, 0x20, 0x20, 0x60, 0x20, 0x20, 0x10, 0,
     0x20, 0x20, 0x20, 0x20, 0x20, 0x20, 0x20, 0,
     0x40, 0x20, 0x20, 0x30, 0x20, 0x20, 0x40, 0,
     0, 0, 0, 0x28, 0x50, 0, 0, 0]"

definition Font8_Table :: "u8 list" where
  "Font8_Table = Font8_Table_0 @ Font8_Table_1 @ Font8_Table_2 @ Font8_Table_3 @ Font8_Table_4 @ Font8_Table_5 @ Font8_Table_6"

definition Font8 :: sFONT where
  "Font8 = \<lparr>font_table = Font8_Table, font_Width = 5, font_Height = 8\<rparr>"

lemmas Font8_Table_defs = Font8_Table_def Font8_Table_0_def Font8_Table_1_def Font8_Table_2_def Font8_Table_3_def Font8_Table_4_def Font8_Table_5_def Font8_Table_6_def

definition Font12_Table_0 :: "u8 list" where
  "Font12_Table_0 = [
     0, 0, 0, 0, 0, 0, 0, 0, 0, 0, 0, 0,
     0, 0x10, 0x10, 0x10, 0x10, 0x10, 0, 0, 0x10, 0, 0, 0,
     0, 0x6C, 0x48, 0x48, 0, 0, 0, 0, 0, 0, 0, 0,
     0, 0x14, 0x14, 0x28, 0x7C, 0x28, 0x7C, 0x28, 0x50, 0x50, 0, 0,
     0, 0x10, 0x38, 0x40, 0x40, 0x38, 0x48, 0x70, 0x10, 0x10, 0, 0,
     0, 0x20, 0x50, 0x20, 0x0C, 0x70, 0x08, 0x14, 0x08, 0, 0, 0,
     0, 0, 0, 0x18, 0x20, 0x20, 0x54, 0x48, 0x34, 0, 0, 0,
     0, 0x10, 0x10, 0x10, 0x10, 0, 0, 0, 0, 0, 0, 0,
     0, 0x08, 0x08, 0x10, 0x10, 0x10, 0x10, 0x10, 0x10, 0x08, 0x08, 0,
     0, 0x20, 0x20, 0x10, 0x10, 0x10, 0x10, 0x10, 0x10, 0x20, 0x20, 0]"

definition Font12_Table_1 :: "u8 list" where
  "Font12_Table_1 = [
     0, 0x10, 0x7C, 0x10, 0x28, 0x28, 0, 0, 0, 0, 0, 0,
     0, 0, 0x10, 0x10, 0x10, 0xFE, 0x10, 0x10, 0x10, 0, 0, 0,
     0, 0, 0, 0, 0, 0, 0, 0x18, 0x10, 0x30, 0x20, 0,
     0, 0, 0, 0, 0, 0x7C, 0, 0, 0, 0, 0, 0,
     0, 0, 0, 0, 0, 0, 0, 0x30, 0x30, 0, 0, 0,
     0, 0x04, 0x04, 0x08, 0x08, 0x10, 0x10, 0x20, 0x20, 0x40, 0, 0,
     0, 0x38, 0x44, 0x44, 0x44, 0x44, 0x44, 0x44, 0x38, 0, 0, 0,
     0, 0x30, 0x10, 0x10, 0x10, 0x10, 0x10, 0x10, 0x7C, 0, 0, 0,
     0, 0x38, 0x44, 0x04, 0x08, 0x10, 0x20, 0x44, 0x7C, 0, 0, 0,
     0, 0x38, 0x44, 0x04, 0x18, 0x04, 0x04, 0x44, 0x38, 0, 0, 0]"

definition Font12_Table_2 :: "u8 list" where
  "Font12_Table_2 = [
     0, 0x0C, 0x14, 0x14, 0x24, 0x44, 0x7E, 0x04, 0x0E, 0, 0, 0,
     0, 0x3C, 0x20, 0x20, 0x38, 0x04, 0x04, 0x44, 0x38, 0, 0, 0,
     0, 0x1C, 0x20, 0x40, 0x78, 0x44, 0x44, 0x44, 0x38, 0, 0, 0,
     0, 0x7C, 0x44, 0x04, 0x08, 0x08, 0x08, 0x10, 0x10, 0, 0, 0,
     0, 0x38, 0x44, 0x44, 0x38, 0x44, 0x44, 0x44, 0x38, 0, 0, 0,
     0, 0x38, 0x44, 0x44, 0x44, 0x3C, 0x04, 0x08, 0x70, 0, 0, 0,
     0, 0, 0, 0x30, 0x30, 0, 0, 0x30, 0x30, 0, 0, 0,
     0, 0, 0, 0x18, 0x18, 0, 0, 0x18, 0x30, 0x20, 0, 0,
     0, 0, 0x0C, 0x10, 0x60, 0x80, 0x60, 0x10, 0x0C, 0, 0, 0,
     0, 0, 0, 0, 0x7C, 0, 0x7C, 0, 0, 0, 0, 0]"

definition Font12_Table_3 :: "u8 list" where
  "Font12_Table_3 = [
     0, 0, 0xC0, 0x20, 0x18, 0x04, 0x18, 0x20, 0xC0, 0, 0, 0,
     0, 0, 0x18, 0x24, 0x04, 0x08, 0x10, 0, 0x30, 0, 0, 0,
     0x38, 0x44, 0x44, 0x4C, 0x54, 0x54, 0x4C, 0x40, 0x44, 0x38, 0, 0,
     0, 0x30, 0x10, 0x28, 0x28, 0x28, 0x7C, 0x44, 0xEE, 0, 0, 0,
     0, 0xF8, 0x44, 0x44, 0x78, 0x44, 0x44, 0x44, 0xF8, 0, 0, 0,
     0, 0x3C, 0x44, 0x40, 0x40, 0x40, 0x40, 0x44, 0x38, 0, 0, 0,
     0, 0xF0, 0x48, 0x44, 0x44, 0x44, 0x44, 0x48, 0xF0, 0, 0, 0,
     0, 0xFC, 0x44, 0x50, 0x70, 0x50, 0x40, 0x44, 0xFC, 0, 0, 0,
     0, 0x7E, 0x22, 0x28, 0x38, 0x28, 0x20, 0x20, 0x70, 0, 0, 0,
     0, 0x3C, 0x44, 0x40, 0x40, 0x4E, 0x44, 0x44, 0x38, 0, 0, 0]"

definition Font12_Table_4 :: "u8 list" where
  "Font12_Table_4 = [
     0, 0xEE, 0x44, 0x44, 0x7C, 0x44, 0x44, 0x44, 0xEE, 0, 0, 0,
     0, 0x7C, 0x10, 0x10, 0x10, 0x10, 0x10, 0x10, 0x7C, 0, 0, 0,
     0, 0x3C, 0x08, 0x08, 0x08, 0x48, 0x48, 0x48, 0x30, 0, 0, 0,
     0, 0xEE, 0x44, 0x48, 0x50, 0x70, 0x48, 0x44, 0xE6, 0, 0, 0,
     0, 0x70, 0x20, 0x20, 0x20, 0x20, 0x24, 0x24, 0x7C, 0, 0, 0,
     0, 0xEE, 0x6C, 0x6C, 0x54, 0x54, 0x44, 0x44, 0xEE, 0, 0, 0,
     0, 0xEE, 0x64, 0x64, 0x54, 0x54, 0x54, 0x4C, 0xEC, 0, 0, 0,
     0, 0x38, 0x44, 0x44, 0x44, 0x44, 0x44, 0x44, 0x38, 0, 0, 0,
     0, 0x78, 0x24, 0x24, 0x24, 0x38, 0x20, 0x20, 0x70, 0, 0, 0,
     0, 0x38, 0x44, 0x44, 0x44, 0x44, 0x44, 0x44, 0x38, 0x1C, 0, 0]"

definition Font12_Table_5 :: "u8 list" where
  "Font12_Table_5 = [
     0, 0xF8, 0x44, 0x44, 0x44, 0x78, 0x48, 0x44, 0xE2, 0, 0, 0,
     0, 0x34, 0x4C, 0x40, 0x38, 0x04, 0x04, 0x64, 0x58, 0, 0, 0,
     0, 0xFE, 0x92, 0x10, 0x10, 0x10, 0x10, 0x10, 0x38, 0, 0, 0,
     0, 0xEE, 0x44, 0x44, 0x44, 0x44, 0x44, 0x44, 0x38, 0, 0, 0,
     0, 0xEE, 0x44, 0x44, 0x28, 0x28, 0x28, 0x10, 0x10, 0, 0, 0,
     0, 0xEE, 0x44, 0x44, 0x54, 0x54, 0x54, 0x54, 0x28, 0, 0, 0,
     0, 0xC6, 0x44, 0x28, 0x10, 0x10, 0x28, 0x44, 0xC6, 0, 0, 0,
     0, 0xEE, 0x44, 0x28, 0x28, 0x10, 0x10, 0x10, 0x38, 0, 0, 0,
     0, 0x7C, 0x44, 0x08, 0x10, 0x10, 0x20, 0x44, 0x7C, 0, 0, 0,
     0, 0x38, 0x20, 0x20, 0x20, 0x20, 0x20, 0x20, 0x20, 0x20, 0x38, 0]"

definition Font12_Table_6 :: "u8 list" where
  "Font12_Table_6 = [
     0, 0x40, 0x20, 0x20, 0x20, 0x10, 0x10, 0x08, 0x08, 0x08, 0, 0,
     0, 0x38, 0x08, 0x08, 0x08, 0x08, 0x08, 0x08, 0x08, 0x08, 0x38, 0,
     0, 0x10, 0x10, 0x28, 0x44, 0, 0, 0, 0, 0, 0, 0,
     0, 0, 0, 0, 0, 0, 0, 0, 0, 0, 0, 0xFE,
     0, 0x10, 0x08, 0, 0, 0, 0, 0, 0, 0, 0, 0,
     0, 0, 0, 0x38, 0x44, 0x3C, 0x44, 0x44, 0x3E, 0, 0, 0,
     0, 0xC0, 0x40, 0x58, 0x64, 0x44, 0x44, 0x44, 0xF8, 0, 0, 0,
     0, 0, 0, 0x3C, 0x44, 0x40, 0x40, 0x44, 0x38, 0, 0, 0,
     0, 0x0C, 0x04, 0x34, 0x4C, 0x44, 0x44, 0x44, 0x3E, 0, 0, 0,
     0, 0, 0, 0x38, 0x44, 0x7C, 0x40, 0x40, 0x3C, 0, 0, 0]"

definition Font12_Table_7 :: "u8 list" where
  "Font12_Table_7 = [
     0, 0x1C, 0x20, 0x7C, 0x20, 0x20, 0x20, 0x20, 0x7C, 0, 0, 0,
     0, 0, 0, 0x36, 0x4C, 0x44, 0x44, 0x44, 0x3C, 0x04, 0x38, 0,
     0, 0xC0, 0x40, 0x58, 0x64, 0x44, 0x44, 0x44, 0xEE, 0, 0, 0,
     0, 0x10, 0, 0x70, 0x10, 0x10, 0x10, 0x10, 0x7C, 0, 0, 0,
     0, 0x10, 0, 0x78, 0x08, 0x08, 0x08, 0x08, 0x08, 0x08, 0x70, 0,
     0, 0xC0, 0x40, 0x5C, 0x48, 0x70, 0x50, 0x48, 0xDC, 0, 0, 0,
     0, 0x30, 0x10, 0x10, 0x10, 0x10, 0x10, 0x10, 0x7C, 0, 0, 0,
     0, 0, 0, 0xE8, 0x54, 0x54, 0x54, 0x54, 0xFE, 0, 0, 0,
     0, 0, 0, 0xD8, 0x64, 0x44, 0x44, 0x44, 0xEE, 0, 0, 0,
     0, 0, 0, 0x38, 0x44, 0x44, 0x44, 0x44, 0x38, 0, 0, 0]"

definition Font12_Table_8 :: "u8 list" where
  "Font12_Table_8 = [
     0, 0, 0, 0xD8, 0x64, 0x44, 0x44, 0x44, 0x78, 0x40, 0xE0, 0,
     0, 0, 0, 0x36, 0x4C, 0x44, 0x44, 0x44, 0x3C, 0x04, 0x0E, 0,
     0, 0, 0, 0x6C, 0x30, 0x20, 0x20, 0x20, 0x7C, 0, 0, 0,
     0, 0, 0, 0x3C, 0x44, 0x38, 0x04, 0x44, 0x78, 0, 0, 0,
     0, 0, 0x20, 0x7C, 0x20, 0x20, 0x20, 0x22, 0x1C, 0, 0, 0,
     0, 0, 0, 0xCC, 0x44, 0x44, 0x44, 0x4C, 0x36, 0, 0, 0,
     0, 0, 0, 0xEE, 0x44, 0x44, 0x28, 0x28, 0x10, 0, 0, 0,
     0, 0, 0, 0xEE, 0x44, 0x54, 0x54, 0x54, 0x28, 0, 0, 0,
     0, 0, 0, 0xCC, 0x48, 0x30, 0x30, 0x48, 0xCC, 0, 0, 0,
     0, 0, 0, 0xEE, 0x44, 0x24, 0x28, 0x18, 0x10, 0x10, 0x78, 0]"

definition Font12_Table_9 :: "u8 list" where
  "Font12_Table_9 = [
     0, 0, 0, 0x7C, 0x48, 0x10, 0x20, 0x44, 0x7C, 0, 0, 0,
     0, 0x08, 0x10, 0x10, 0x10, 0x10, 0x20, 0x10, 0x10, 0x10, 0x08, 0,
     0, 0x10, 0x10, 0x10, 0x10, 0x10, 0x10, 0x10, 0x10, 0x10, 0, 0,
     0, 0x20, 0x10, 0x10, 0x10, 0x10, 0x08, 0x10, 0x10, 0x10, 0x20, 0,
     0, 0, 0, 0, 0, 0x24, 0x58, 0, 0, 0, 0, 0]"

definition Font12_Table :: "u8 list" where
  "Font12_Table = Font12_Table_0 @ Font12_Table_1 @ Font12_Table_2 @ Font12_Table_3 @ Font12_Table_4 @ Font12_Table_5 @ Font12_Table_6 @ Font12_Table_7 @ Font12_Table_8 @ Font12_Table_9"

definition Font12 :: sFONT where
  "Font12 = \<lparr>font_table = Font12_Table, font_Width = 7, font_Height = 12\<rparr>"

lemmas Font12_Table_defs = Font12_Table_def Font12_Table_0_def Font12_Table_1_def Font12_Table_2_def Font12_Table_3_def Font12_Table_4_def Font12_Table_5_def Font12_Table_6_def Font12_Table_7_def Font12_Table_8_def Font12_Table_9_def

section \<open>Shape of the tables\<close>

lemma length_Font8_Table: "length Font8_Table = 95 * 8"
  by (simp add: Font8_Table_defs)

lemma length_Font12_Table: "length Font12_Table = 95 * 12"
  by (simp add: Font12_Table_defs)

lemma Font8_simps [simp]:
  "font_Width Font8 = 5" "font_Height Font8 = 8" "font_table Font8 = Font8_Table" "bytes_per_row Font8 = 1"
  by (simp_all add: Font8_def bytes_per_row_def)

lemma Font12_simps [simp]:
  "font_Width Font12 = 7" "font_Height Font12 = 12" "font_table Font12 = Font12_Table" "bytes_per_row Font12 = 1"
  by (simp_all add: Font12_def bytes_per_row_def)

definition printable :: "u8 \<Rightarrow> bool" where
  "printable ch \<longleftrightarrow> 32 \<le> unat ch \<and> unat ch \<le> 126"

lemma in_font_printable: "in_font Font8 ch \<longleftrightarrow> printable ch" "in_font Font12 ch \<longleftrightarrow> printable ch"
  by (auto simp: in_font_def printable_def length_Font8_Table length_Font12_Table)

end
