(* ===== verification/Display_Screens.thy ===== *)
theory Display_Screens
  imports Drawing_Laws Fonts Sensors
begin

text \<open>
  \<open>Core/Src/features/display/display_screens.c\<close>: the four screens, as drawing operations on the
  frame buffer. \<open>None\<close> is a store outside the buffer, or a conversion of a measurement that C
  leaves undefined.
\<close>

section \<open>Colours and digits\<close>

definition status_to_color :: "u8 \<Rightarrow> u16" where
  "status_to_color status =
     (if status = 0 then GREEN else if status = 1 then YELLOW else if status = 2 then RED else WHITE)"

definition draw_when :: "bool \<Rightarrow> (fb \<Rightarrow> fb option) \<Rightarrow> fb \<Rightarrow> fb option" where
  "draw_when b f = (if b then f else Some)"

abbreviation thin_line :: "u16 \<Rightarrow> u16 \<Rightarrow> u16 \<Rightarrow> u16 \<Rightarrow> u16 \<Rightarrow> fb \<Rightarrow> fb option" where
  "thin_line Xs Ys Xe Ye c \<equiv> Paint_DrawLine Xs Ys Xe Ye c DOT_PIXEL_1X1 LINE_STYLE_SOLID"

abbreviation thin_point :: "u16 \<Rightarrow> u16 \<Rightarrow> u16 \<Rightarrow> fb \<Rightarrow> fb option" where
  "thin_point X Y c \<equiv> Paint_DrawPoint X Y c DOT_PIXEL_1X1 DOT_FILL_AROUND"

definition seg_map :: "u8 list" where
  "seg_map = [0x3F, 0x06, 0x5B, 0x4F, 0x66, 0x6D, 0x7D, 0x07, 0x7F, 0x6F]"

definition draw_tiny_7seg_digit :: "u16 \<Rightarrow> u16 \<Rightarrow> u8 \<Rightarrow> u16 \<Rightarrow> fb \<Rightarrow> fb option" where
  "draw_tiny_7seg_digit x y digit color img =
     (if digit > 9 then Some img
      else do {
        m \<leftarrow> c_load seg_map (uint digit);
        draw_all
          [draw_when (m AND 0x01 \<noteq> 0) (thin_line x y (x + 2) y color),
           draw_when (m AND 0x02 \<noteq> 0) (thin_line (x + 2) y (x + 2) (y + 2) color),
           draw_when (m AND 0x04 \<noteq> 0) (thin_line (x + 2) (y + 2) (x + 2) (y + 4) color),
           draw_when (m AND 0x08 \<noteq> 0) (thin_line x (y + 4) (x + 2) (y + 4) color),
           draw_when (m AND 0x10 \<noteq> 0) (thin_line x (y + 2) x (y + 4) color),
           draw_when (m AND 0x20 \<noteq> 0) (thin_line x y x (y + 2) color),
           draw_when (m AND 0x40 \<noteq> 0) (thin_line x (y + 2) (x + 2) (y + 2) color)] img })"

definition clamp_int :: "int \<Rightarrow> int \<Rightarrow> int \<Rightarrow> int" where
  "clamp_int v lo hi = (if v < lo then lo else if v > hi then hi else v)"

definition co2_to_color :: "int \<Rightarrow> u16" where
  "co2_to_color co2_ppm = (if co2_ppm \<le> 400 then GREEN else if co2_ppm \<le> 700 then YELLOW else RED)"

definition co_to_color :: "int \<Rightarrow> u16" where
  "co_to_color co_deci_ppm = (if co_deci_ppm \<le> 30 then GREEN else if co_deci_ppm \<le> 80 then YELLOW else RED)"

definition draw_tiny_7seg_3digit :: "u16 \<Rightarrow> u16 \<Rightarrow> int \<Rightarrow> u16 \<Rightarrow> fb \<Rightarrow> fb option" where
  "draw_tiny_7seg_3digit x y v color =
     (let v = (if v < 0 then 0 else v);
          v = (if v > 999 then 999 else v);
          d2 = word_of_int (cdiv v 100);
          d1 = word_of_int (crem (cdiv v 10) 10);
          d0 = word_of_int (crem v 10)
      in draw_all
        [draw_tiny_7seg_digit x y d2 color,
         draw_tiny_7seg_digit (x + 4) y d1 color,
         draw_tiny_7seg_digit (x + 8) y d0 color])"

definition draw_tiny_7seg_1decimal :: "u16 \<Rightarrow> u16 \<Rightarrow> int \<Rightarrow> u16 \<Rightarrow> fb \<Rightarrow> fb option" where
  "draw_tiny_7seg_1decimal x y v color =
     (let v = (if v < 0 then 0 else v);
          v = (if v > 999 then 999 else v);
          int_part = word_of_int (cdiv v 10) :: u8;
          tens_part = int_part div 10;
          ones_part = int_part mod 10;
          frac_part = word_of_int (crem v 10) :: u8;
          ones_x = (if int_part \<ge> 10 then x + 4 else x)
      in draw_all
        [draw_when (int_part \<ge> 10) (draw_tiny_7seg_digit x y tens_part color),
         draw_tiny_7seg_digit ones_x y ones_part color,
         thin_point (ones_x + 4) (y + 4) color,
         draw_tiny_7seg_digit (ones_x + 6) y frac_part color])"

section \<open>Texts\<close>

text \<open>Strings are given without their terminating zero.\<close>

fun draw_label_with_gap :: "u16 \<Rightarrow> u16 \<Rightarrow> u8 list \<Rightarrow> u16 \<Rightarrow> u16 \<Rightarrow> u8 \<Rightarrow> fb \<Rightarrow> fb option" where
  "draw_label_with_gap cursor_x y [] fg bg gap_px img = Some img"
| "draw_label_with_gap cursor_x y (c # cs) fg bg gap_px img =
     Option.bind (Paint_DrawChar cursor_x y c Font8 bg fg img)
       (draw_label_with_gap (cursor_x + of_nat (font_Width Font8) + ucast gap_px) y cs fg bg gap_px)"

fun draw_text_with_gap :: "u16 \<Rightarrow> u16 \<Rightarrow> u8 list \<Rightarrow> sFONT \<Rightarrow> u16 \<Rightarrow> u16 \<Rightarrow> u8 \<Rightarrow> fb \<Rightarrow> fb option" where
  "draw_text_with_gap cursor_x y [] font fg bg gap_px img = Some img"
| "draw_text_with_gap cursor_x y (c # cs) font fg bg gap_px img =
     Option.bind (Paint_DrawChar cursor_x y c font bg fg img)
       (draw_text_with_gap (cursor_x + of_nat (font_Width font) + ucast gap_px) y cs font fg bg gap_px)"

definition text_width_with_gap :: "u8 list \<Rightarrow> sFONT \<Rightarrow> u8 \<Rightarrow> u16" where
  "text_width_with_gap cs font gap_px =
     (let len = length cs
      in if len = 0 then 0 else of_nat (len * font_Width font + (len - 1) * unat gap_px))"

section \<open>Gas, temperature and humidity\<close>

definition Screen_Show_DualMetricLayout ::
    "u8 list \<Rightarrow> u8 list \<Rightarrow> int \<Rightarrow> int \<Rightarrow> u8 list \<Rightarrow> u8 list \<Rightarrow> u16 \<Rightarrow> u16 \<Rightarrow> u16 \<Rightarrow> u16 \<Rightarrow> u8 \<Rightarrow> u8 \<Rightarrow> u8 \<Rightarrow>
      u16 \<Rightarrow> u16 \<Rightarrow> fb \<Rightarrow> fb option" where
  "Screen_Show_DualMetricLayout top_label bottom_label top_deci_value bottom_deci_value top_unit bottom_unit
     top_value_x_offset bottom_value_x_offset unit_x_offset bottom_label_x_offset label_gap_px
     top_show_decimal show_color_box top_color bottom_color =
   draw_all
     [Paint_DrawRectangle 1 1 64 15 WHITE DOT_PIXEL_1X1 DRAW_FILL_EMPTY,
      Paint_DrawRectangle 1 17 64 32 WHITE DOT_PIXEL_1X1 DRAW_FILL_EMPTY,
      draw_label_with_gap 5 5 top_label BLACK RED label_gap_px,
      (if top_show_decimal \<noteq> 0
       then draw_tiny_7seg_1decimal (22 + top_value_x_offset) 7 top_deci_value WHITE
       else draw_tiny_7seg_3digit (23 + top_value_x_offset) 7 (cdiv top_deci_value 10) WHITE),
      Paint_DrawString_EN (37 + unit_x_offset) 5 top_unit Font8 BLACK YELLOW,
      draw_when (show_color_box \<noteq> 0) (Paint_DrawPoint 57 8 top_color DOT_PIXEL_4X4 DOT_FILL_AROUND),
      draw_label_with_gap (5 + bottom_label_x_offset) 21 bottom_label BLACK BLUE label_gap_px,
      draw_tiny_7seg_1decimal (22 + bottom_value_x_offset) 23 bottom_deci_value WHITE,
      Paint_DrawString_EN (37 + unit_x_offset) 21 bottom_unit Font8 BLACK YELLOW,
      draw_when (show_color_box \<noteq> 0) (Paint_DrawPoint 57 24 bottom_color DOT_PIXEL_4X4 DOT_FILL_AROUND)]"

definition Screen_Show_CO2 :: "DB_Data_t \<Rightarrow> fb \<Rightarrow> fb option" where
  "Screen_Show_CO2 d img = do {
     co2_ppm \<leftarrow> c_int (co2_val d + 1 / 2);
     co \<leftarrow> co_val d;
     co_ppm \<leftarrow> c_int (co * 10 + 1 / 2);
     top \<leftarrow> c_int (of_int (co2_ppm * 10));
     Screen_Show_DualMetricLayout (c_lit ''GAS'') (c_lit ''CO'') top co_ppm (c_lit ''PPM'') (c_lit ''PPM'')
       1 4 0 0 0 0 1 (co2_to_color co2_ppm) (co_to_color co_ppm) img }"

definition Screen_Show_TempHum :: "DB_Data_t \<Rightarrow> fb \<Rightarrow> fb option" where
  "Screen_Show_TempHum d img = do {
     temp_deci \<leftarrow> c_int (temp_val d * 10 + 1 / 2);
     hum_deci \<leftarrow> c_int (hum_val d * 10 + 1 / 2);
     img \<leftarrow> Screen_Show_DualMetricLayout (c_lit ''TEMP'') (c_lit ''HUM'') temp_deci hum_deci (c_lit '' C'') []
       8 8 6 2 1 1 0 WHITE WHITE img;
     Paint_DrawString_EN 47 19 (c_lit ''%'') Font12 BLACK YELLOW img }"

section \<open>The dashboard\<close>

definition draw_center_triangle_marker :: "u16 \<Rightarrow> u16 \<Rightarrow> u16 \<Rightarrow> fb \<Rightarrow> fb option" where
  "draw_center_triangle_marker center_x top_y color =
   draw_all
     [thin_point center_x (top_y + 0) color,
      thin_line (center_x - 1) (top_y + 1) (center_x + 1) (top_y + 1) color,
      thin_line (center_x - 2) (top_y + 2) (center_x + 2) (top_y + 2) color,
      thin_line (center_x - 3) (top_y + 3) (center_x + 3) (top_y + 3) color]"

definition draw_long_left_arrow :: "u16 \<Rightarrow> u16 \<Rightarrow> u16 \<Rightarrow> fb \<Rightarrow> fb option" where
  "draw_long_left_arrow start_x y color =
   draw_all
     [thin_line 3 y 3 y color,
      thin_line 4 (y - 1) 4 (y + 1) color,
      thin_line 5 (y - 2) 5 (y + 2) color,
      thin_line 6 (y - 3) 6 (y + 3) color,
      Paint_DrawLine 7 y start_x y color DOT_PIXEL_2X2 LINE_STYLE_SOLID]"

definition draw_long_right_arrow :: "u16 \<Rightarrow> u16 \<Rightarrow> u16 \<Rightarrow> fb \<Rightarrow> fb option" where
  "draw_long_right_arrow start_x y color =
   draw_all
     [thin_line 62 y 62 y color,
      thin_line 61 (y - 1) 61 (y + 1) color,
      thin_line 60 (y - 2) 60 (y + 2) color,
      thin_line 59 (y - 3) 59 (y + 3) color,
      Paint_DrawLine start_x y 58 y color DOT_PIXEL_2X2 LINE_STYLE_SOLID]"

definition draw_small_up_arrow :: "u16 \<Rightarrow> u16 \<Rightarrow> u16 \<Rightarrow> fb \<Rightarrow> fb option" where
  "draw_small_up_arrow center_x tip_y color =
   draw_all
     [thin_point center_x tip_y color,
      thin_line (center_x - 1) (tip_y + 1) (center_x + 1) (tip_y + 1) color,
      thin_line (center_x - 2) (tip_y + 2) (center_x + 2) (tip_y + 2) color,
      thin_line center_x (tip_y + 3) center_x (tip_y + 5) color]"

text \<open>One car: its number, its body in the colour of its status, its wheels and its connector.\<close>

definition draw_car :: "u8 list \<Rightarrow> nat \<Rightarrow> fb \<Rightarrow> fb option" where
  "draw_car status i img = do {
     st \<leftarrow> c_load status (int i);
     let car_x_start = 7 + of_nat (i * 7);
         car_x_end = car_x_start + 5;
         car_y_start = 12; car_y_end = 19; wheel_y = 21
     in draw_all
       [draw_tiny_7seg_digit (car_x_start + (if i \<ge> 1 then 2 else 1)) 6 (of_nat (i + 1)) WHITE,
        Paint_DrawRectangle car_x_start car_y_start car_x_end car_y_end (status_to_color st) DOT_PIXEL_1X1 DRAW_FILL_FULL,
        Paint_DrawRectangle car_x_start car_y_start car_x_end car_y_end WHITE DOT_PIXEL_1X1 DRAW_FILL_EMPTY,
        Paint_DrawRectangle (car_x_start + 2) (car_y_start + 2) (car_x_end - 2) (car_y_end - 2) BLACK DOT_PIXEL_1X1 DRAW_FILL_FULL,
        thin_point (car_x_start + 1) wheel_y WHITE,
        thin_point (car_x_end - 1) wheel_y WHITE,
        draw_when (i < 7) (thin_point (car_x_end + 1) ((car_y_start + car_y_end) div 2) WHITE)] img }"

fun draw_cars :: "u8 list \<Rightarrow> nat list \<Rightarrow> u8 \<Rightarrow> u8 \<Rightarrow> fb \<Rightarrow> (u8 \<times> u8 \<times> fb) option" where
  "draw_cars status [] left_good right_good img = Some (left_good, right_good, img)"
| "draw_cars status (i # is) left_good right_good img = do {
     img \<leftarrow> draw_car status i img;
     st \<leftarrow> c_load status (int i);
     draw_cars status is (if st = 0 \<and> i < 4 then left_good + 1 else left_good)
       (if st = 0 \<and> \<not> i < 4 then right_good + 1 else right_good) img }"

fun draw_up_arrows :: "u8 list \<Rightarrow> nat list \<Rightarrow> fb \<Rightarrow> fb option" where
  "draw_up_arrows status [] img = Some img"
| "draw_up_arrows status (i # is) img = do {
     st \<leftarrow> c_load status (int i);
     img \<leftarrow> draw_when (st = 0) (draw_small_up_arrow (7 + of_nat (i * 7) + 2) 25 GREEN) img;
     draw_up_arrows status is img }"

definition Screen_Show_StatusRow :: "u8 list \<Rightarrow> u8 \<Rightarrow> fb \<Rightarrow> fb option" where
  "Screen_Show_StatusRow status guide_mode img = do {
     let center_x = 34;
     let guide_y = 27;
     (left_good, right_good, img) \<leftarrow> draw_cars status [0..<8] 0 0 img;
     img \<leftarrow> draw_all
       [Paint_DrawPoint 6 16 WHITE DOT_PIXEL_2X2 DOT_FILL_AROUND,
        draw_center_triangle_marker center_x 21 RED,
        Paint_DrawRectangle 1 24 64 32 BLACK DOT_PIXEL_1X1 DRAW_FILL_FULL] img;
     if guide_mode = 0
     then if left_good > right_good then draw_long_left_arrow (center_x - 3) guide_y GREEN img
          else if right_good > left_good then draw_long_right_arrow (center_x + 3) guide_y GREEN img
          else draw_all [draw_long_left_arrow (center_x - 3) guide_y GREEN,
                         draw_long_right_arrow (center_x + 3) guide_y GREEN] img
     else draw_up_arrows status [0..<8] img }"

section \<open>The train screen\<close>

text \<open>\<open>last_dest\<close> is the static variable \<open>last_dest_code\<close>, returned with the picture.\<close>

definition Screen_Show_Train :: "u8 \<Rightarrow> int \<Rightarrow> u8 \<Rightarrow> fb \<Rightarrow> (u8 \<times> fb) option" where
  "Screen_Show_Train train_dest_code x_offset last_dest img =
     (let top_text = (if train_dest_code = 1 then c_lit ''DAEWHA''
                      else if train_dest_code = 2 then c_lit ''GUPABAL'' else c_lit ''LINE 3'');
          bottom_text = c_lit ''ARRIVAL'';
          letter_gap_px = 2;
          top_text_w = text_width_with_gap top_text Font12 letter_gap_px;
          bottom_text_w = text_width_with_gap bottom_text Font8 letter_gap_px;
          top_x = word_of_int (clamp_int (cdiv (64 - uint top_text_w) 2) 1 63);
          bottom_x = word_of_int (clamp_int (cdiv (64 - uint bottom_text_w) 2 + x_offset) 1 63)
      in do {
        img \<leftarrow> draw_when (last_dest \<noteq> train_dest_code \<or> x_offset = 0) (draw_all
          [Paint_DrawRectangle 1 1 64 16 BLACK DOT_PIXEL_1X1 DRAW_FILL_FULL,
           draw_text_with_gap top_x 4 top_text Font12 BLACK WHITE letter_gap_px]) img;
        img \<leftarrow> draw_all
          [Paint_DrawRectangle 1 17 64 32 BLACK DOT_PIXEL_1X1 DRAW_FILL_FULL,
           draw_text_with_gap bottom_x 18 bottom_text Font8 BLACK YELLOW letter_gap_px,
           Paint_DrawRectangle 1 1 64 32 RED DOT_PIXEL_1X1 DRAW_FILL_EMPTY] img;
        Some (if last_dest \<noteq> train_dest_code \<or> x_offset = 0 then train_dest_code else last_dest, img) })"

section \<open>Every screen stays inside the buffer\<close>

named_theorems total_intros

context drawing_contract begin

lemma ok_when: "ok f \<Longrightarrow> ok (draw_when b f)"
  by (simp add: draw_when_def ok_nothing)

lemmas ok_intros = ok_when ok_Cons ok_Nil

end

lemmas [total_intros] = total.ok_intros

lemmas [total_intros] = total_line_1x1 total_rectangle_1x1 total_point_1x1

lemma total_digit [total_intros]: "total_op (draw_tiny_7seg_digit x y digit color)"
proof (cases "digit > 9")
  case True
  then show ?thesis by (simp add: total_op_def draw_tiny_7seg_digit_def)
next
  case False
  then have "unat digit < length seg_map" by (simp add: word_less_nat_alt seg_map_def)
  then obtain m where m: "c_load seg_map (uint digit) = Some m" using c_load_unat by blast
  have eq: "draw_tiny_7seg_digit x y digit color = draw_all
          [draw_when (m AND 0x01 \<noteq> 0) (thin_line x y (x + 2) y color),
           draw_when (m AND 0x02 \<noteq> 0) (thin_line (x + 2) y (x + 2) (y + 2) color),
           draw_when (m AND 0x04 \<noteq> 0) (thin_line (x + 2) (y + 2) (x + 2) (y + 4) color),
           draw_when (m AND 0x08 \<noteq> 0) (thin_line x (y + 4) (x + 2) (y + 4) color),
           draw_when (m AND 0x10 \<noteq> 0) (thin_line x (y + 2) x (y + 4) color),
           draw_when (m AND 0x20 \<noteq> 0) (thin_line x y x (y + 2) color),
           draw_when (m AND 0x40 \<noteq> 0) (thin_line x (y + 2) (x + 2) (y + 2) color)]"
    using False m by (intro ext) (simp add: draw_tiny_7seg_digit_def)
  show ?thesis unfolding eq by (intro total_intros)
qed

lemma total_3digit [total_intros]: "total_op (draw_tiny_7seg_3digit x y v color)"
  unfolding draw_tiny_7seg_3digit_def Let_def by (intro total_intros)

lemma total_1decimal [total_intros]: "total_op (draw_tiny_7seg_1decimal x y v color)"
  unfolding draw_tiny_7seg_1decimal_def Let_def by (intro total_intros)

lemma total_markers [total_intros]:
  "total_op (draw_center_triangle_marker cx ty color)" "total_op (draw_small_up_arrow cx ty color)"
  unfolding draw_center_triangle_marker_def draw_small_up_arrow_def by (intro total_intros)+

lemma total_long_arrows:
  "total_op (draw_long_left_arrow 31 27 color)" "total_op (draw_long_right_arrow 37 27 color)"
  unfolding draw_long_left_arrow_def draw_long_right_arrow_def
  by (intro total_intros total_line; simp)+

text \<open>A text fits when its cells with their gaps do.\<close>

lemma total_text:
  assumes "list_all (in_font font) cs" and "length (font_table font) < 2 ^ 32" and "unat y + font_Height font \<le> 32"
  shows "unat x + length cs * (font_Width font + unat gap) \<le> 128 \<Longrightarrow>
    total_op (draw_text_with_gap x y cs font fg bg gap)"
  using assms(1)
proof (induction cs arbitrary: x)
  case Nil
  show ?case by (simp add: total_op_def)
next
  case (Cons c cs)
  let ?w = "font_Width font + unat gap"
  have room: "unat x + ?w + length cs * ?w \<le> 128" using Cons.prems(1) by simp
  have cursor: "x + of_nat (font_Width font) + ucast gap = x + of_nat ?w"
    by (simp add: add.assoc)
  have u: "unat (x + of_nat ?w) = unat x + ?w" using room by (intro unat_add16) simp
  have "total_op (draw_text_with_gap (x + of_nat ?w) y cs font fg bg gap)"
    by (rule Cons.IH) (use room u Cons.prems(2) in \<open>simp_all only: list.pred_inject\<close>)
  moreover have "total_op (Paint_DrawChar x y c font bg fg)"
    using Cons.prems assms(2,3) by (intro total_char) (auto simp: fits_def)
  ultimately have "total_op (\<lambda>img. Option.bind (Paint_DrawChar x y c font bg fg img)
      (draw_text_with_gap (x + of_nat ?w) y cs font fg bg gap))" by (rule total_bind [rotated])
  then show ?case unfolding total_op_def draw_text_with_gap.simps cursor .
qed

lemma label_is_text: "draw_label_with_gap x y cs fg bg gap = draw_text_with_gap x y cs Font8 fg bg gap"
proof (induction cs arbitrary: x)
  case (Cons c cs)
  then show ?case by (intro ext) simp
qed (intro ext, simp)

lemma in_font_fun: "in_font Font8 = printable" "in_font Font12 = printable"
  by (simp_all add: fun_eq_iff in_font_printable)

lemma tables_small: "length (font_table Font8) < 2 ^ 32" "length (font_table Font12) < 2 ^ 32"
  by (simp_all add: length_Font8_Table length_Font12_Table)

lemma total_label:
  assumes "list_all printable cs" and "unat y + 8 \<le> 32" and "unat x + length cs * (5 + unat gap) \<le> 128"
  shows "total_op (draw_label_with_gap x y cs fg bg gap)"
proof -
  have "total_op (draw_text_with_gap x y cs Font8 fg bg gap)"
    using assms by (intro total_text tables_small) (simp_all add: in_font_fun)
  then show ?thesis by (simp add: total_op_def label_is_text)
qed

lemma total_Font8_string:
  "list_all printable cs \<Longrightarrow> unat x + 5 \<le> 128 \<Longrightarrow> unat y + 8 \<le> 32 \<Longrightarrow> total_op (Paint_DrawString_EN x y cs Font8 fg bg)"
  by (rule total_string [OF tables_small(1)]) (simp_all add: fits_def in_font_fun)

lemma total_Font12_string:
  "list_all printable cs \<Longrightarrow> unat x + 7 \<le> 128 \<Longrightarrow> unat y + 12 \<le> 32 \<Longrightarrow> total_op (Paint_DrawString_EN x y cs Font12 fg bg)"
  by (rule total_string [OF tables_small(2)]) (simp_all add: fits_def in_font_fun)

lemma printable_texts [simp]:
  "list_all printable (c_lit ''GAS'')" "list_all printable (c_lit ''CO'')" "list_all printable (c_lit ''PPM'')"
  "list_all printable (c_lit ''TEMP'')" "list_all printable (c_lit ''HUM'')" "list_all printable (c_lit '' C'')"
  "list_all printable (c_lit ''%'')" "list_all printable (c_lit ''ARRIVAL'')" "list_all printable (c_lit ''DAEWHA'')"
  "list_all printable (c_lit ''GUPABAL'')" "list_all printable (c_lit ''LINE 3'')"
  by code_simp+

lemma length_c_lit [simp]: "length (c_lit s) = length s"
  by (simp add: c_lit_def)

end
