(* ===== verification/Rgb_Matrix.thy ===== *)
theory Rgb_Matrix
  imports Gui_Paint
begin

text \<open>
  \<open>Core/Src/drivers/display/rgb_matrix_device.c\<close>: the frame buffer \<open>LED_Buffer\<close>, the scan of the
  panel by the timer interrupt, and the rotations of the picture. The scan is modelled by the list
  of writes to the pins of the panel that it makes, in order. A read or store outside the buffer is
  \<open>None\<close>. The cycle-counter delays of the same file are not modelled.
\<close>

section \<open>The scan\<close>

datatype pin = R1 | G1 | B1 | R2 | G2 | B2 | ROW_A | ROW_B | ROW_C | ROW_D | CLK | LAT | OE

type_synonym trace = "(pin \<times> bool) list"

definition HUB75_Clear :: "fb \<Rightarrow> fb option" where
  "HUB75_Clear img = memset img 0 0 (nat (LED_Width * LED_Height))"

definition HUB75_Init :: "fb \<Rightarrow> (trace \<times> fb) option" where
  "HUB75_Init img = map_option (\<lambda>img. ([(OE, True), (LAT, False), (CLK, False)], img)) (HUB75_Clear img)"

definition shift_pixel :: "u8 \<Rightarrow> u8 \<Rightarrow> trace" where
  "shift_pixel t b =
     [(R1, t AND 0x01 \<noteq> 0), (G1, t AND 0x02 \<noteq> 0), (B1, t AND 0x04 \<noteq> 0),
      (R2, b AND 0x01 \<noteq> 0), (G2, b AND 0x02 \<noteq> 0), (B2, b AND 0x04 \<noteq> 0),
      (CLK, False), (CLK, True)]"

definition load_columns :: "fb \<Rightarrow> int \<Rightarrow> u8 list option" where
  "load_columns img base = those (map (\<lambda>x. c_load img (base + x)) [0..LED_Width - 1])"

text \<open>\<open>row\<close> is the static variable of the interrupt, returned with its next value.\<close>

definition HUB75_RefreshStep_ISR :: "u8 \<Rightarrow> fb \<Rightarrow> (trace \<times> u8) option" where
  "HUB75_RefreshStep_ISR row img = do {
     tops \<leftarrow> load_columns img (uint row * LED_Width);
     bots \<leftarrow> load_columns img ((uint row + LED_Height div 2) * LED_Width);
     let shift = concat (map (\<lambda>(t, b). shift_pixel t b) (zip tops bots));
         address = [(ROW_A, row AND 0x01 \<noteq> 0), (ROW_B, row AND 0x02 \<noteq> 0),
                    (ROW_C, row AND 0x04 \<noteq> 0), (ROW_D, row AND 0x08 \<noteq> 0)];
         row' = (if uint (row + 1) \<ge> LED_Height div 2 then 0 else row + 1)
     in Some ([(OE, True)] @ shift @ address @ [(LAT, True), (LAT, False)] @ [(OE, False)], row') }"

section \<open>Rotating the picture\<close>

definition copy_cell :: "nat \<Rightarrow> nat \<Rightarrow> fb \<Rightarrow> fb option" where
  "copy_cell d s img = Option.bind (c_load img (int s)) (c_store img (int d))"

definition store_cell :: "nat \<Rightarrow> u8 \<Rightarrow> fb \<Rightarrow> fb option" where
  "store_cell d v img = c_store img (int d) v"

definition scrollRight :: "fb \<Rightarrow> fb option" where
  "scrollRight img = do {
     tempBuffer \<leftarrow> those (map (\<lambda>row. c_load img (int (row * 128 + 0))) [0..<32]);
     img \<leftarrow> draw_all (concat (map (\<lambda>col. map (\<lambda>row. copy_cell (row * 128 + col) (row * 128 + (col + 1)))
              [0..<32]) [0..<127])) img;
     draw_all (map (\<lambda>row. store_cell (row * 128 + 127) (tempBuffer ! row)) [0..<32]) img }"

definition scrollLeft :: "fb \<Rightarrow> fb option" where
  "scrollLeft img = do {
     tempBuffer \<leftarrow> those (map (\<lambda>row. c_load img (int (row * 128 + 127))) [0..<32]);
     img \<leftarrow> draw_all (concat (map (\<lambda>col. map (\<lambda>row. copy_cell (row * 128 + col) (row * 128 + (col - 1)))
              [0..<32]) (rev [1..<128]))) img;
     draw_all (map (\<lambda>row. store_cell (row * 128) (tempBuffer ! row)) [0..<32]) img }"

definition scrollDown :: "fb \<Rightarrow> fb option" where
  "scrollDown img = do {
     tempBuffer \<leftarrow> those (map (\<lambda>col. c_load img (int col)) [0..<128]);
     img \<leftarrow> draw_all (concat (map (\<lambda>row. map (\<lambda>col. copy_cell (row * 128 + col) ((row + 1) * 128 + col))
              [0..<128]) [0..<31])) img;
     draw_all (map (\<lambda>col. store_cell (31 * 128 + col) (tempBuffer ! col)) [0..<128]) img }"

definition scrollUp :: "fb \<Rightarrow> fb option" where
  "scrollUp img = do {
     tempBuffer \<leftarrow> those (map (\<lambda>col. c_load img (int (31 * 128 + col))) [0..<128]);
     img \<leftarrow> draw_all (concat (map (\<lambda>row. map (\<lambda>col. copy_cell (row * 128 + col) ((row - 1) * 128 + col))
              [0..<128]) (rev [1..<32]))) img;
     draw_all (map (\<lambda>col. store_cell col (tempBuffer ! col)) [0..<128]) img }"

section \<open>Laws\<close>

lemma those_load:
  assumes "\<And>i. i \<in> set is \<Longrightarrow> f i < length img"
  shows "those (map (\<lambda>i. c_load img (int (f i))) is) = Some (map (\<lambda>i. img ! f i) is)"
  using assms by (induction "is") (simp_all add: c_load_nat)

lemma int_upto: "[0..int n - 1] = map int [0..<n]"
proof (induction n)
  case (Suc n)
  have "[0..int (Suc n) - 1] = [0..int n - 1] @ [int n]"
    using upto_split2 [of 0 "int n" "int n"] upto_rec2 [of 0 "int n"] by simp
  then show ?case using Suc by simp
qed simp

lemma load_columns_eq:
  assumes "length img = 4096" and "r < 32"
  shows "load_columns img (int r * LED_Width) = Some (map (\<lambda>x. img ! (r * 128 + x)) [0..<128])"
proof -
  have "load_columns img (int r * LED_Width) = those (map (\<lambda>x. c_load img (int (r * 128 + x))) [0..<128])"
    using int_upto [of 128] by (simp add: load_columns_def LED_Width_def o_def)
  also have "\<dots> = Some (map (\<lambda>x. img ! (r * 128 + x)) [0..<128])"
    using assms by (intro those_load) auto
  finally show ?thesis .
qed

lemma HUB75_Clear_law: "length img = 4096 \<Longrightarrow> HUB75_Clear img = Some (replicate 4096 0)"
  using memset_all [of img 0] by (simp add: HUB75_Clear_def LED_Width_def LED_Height_def)

lemma total_clear: "total_op HUB75_Clear"
  by (simp add: total_op_def HUB75_Clear_law)

section \<open>What the panel sees\<close>

text \<open>
  The observer of a trace: the six data lines at each rising edge of the clock, the row address at
  each rising edge of the latch, and the output being switched off and on.
\<close>

datatype panel_event = Shift "bool list" | Latch nat | Dark | Light

definition data_lines :: "(pin \<Rightarrow> bool) \<Rightarrow> bool list" where
  "data_lines ps = map ps [R1, G1, B1, R2, G2, B2]"

definition address :: "(pin \<Rightarrow> bool) \<Rightarrow> nat" where
  "address ps = (if ps ROW_A then 1 else 0) + (if ps ROW_B then 2 else 0) + (if ps ROW_C then 4 else 0) + (if ps ROW_D then 8 else 0)"

fun observe :: "(pin \<Rightarrow> bool) \<Rightarrow> trace \<Rightarrow> panel_event list" where
  "observe ps [] = []"
| "observe ps ((p, v) # tr) =
     (if p = CLK \<and> v \<and> \<not> ps CLK then [Shift (data_lines ps)]
      else if p = LAT \<and> v \<and> \<not> ps LAT then [Latch (address ps)]
      else if p = OE then [if v then Dark else Light] else []) @ observe (ps(p := v)) tr"

fun pins_after :: "(pin \<Rightarrow> bool) \<Rightarrow> trace \<Rightarrow> pin \<Rightarrow> bool" where
  "pins_after ps [] = ps"
| "pins_after ps ((p, v) # tr) = pins_after (ps(p := v)) tr"

lemma observe_append: "observe ps (tr @ tr') = observe ps tr @ observe (pins_after ps tr) tr'"
proof (induction tr arbitrary: ps)
  case (Cons a tr)
  then show ?case by (cases a) (simp only: append_Cons observe.simps pins_after.simps append_assoc)
qed simp

lemma pins_after_append: "pins_after ps (tr @ tr') = pins_after (pins_after ps tr) tr'"
proof (induction tr arbitrary: ps)
  case (Cons a tr)
  then show ?case by (cases a) (simp only: append_Cons pins_after.simps)
qed simp

definition colour_bits :: "u8 \<Rightarrow> bool list" where
  "colour_bits b = [bit b 0, bit b 1, bit b 2]"

lemma and_bits: "(b AND 1 \<noteq> 0) = bit b 0" "(b AND 2 \<noteq> 0) = bit b 1" "(b AND 4 \<noteq> 0) = bit b 2"
  "(b AND 8 \<noteq> 0) = bit b 3" for b :: u8
  using and_exp_eq_0_iff_not_bit [of b 0] and_exp_eq_0_iff_not_bit [of b 1]
    and_exp_eq_0_iff_not_bit [of b 2] and_exp_eq_0_iff_not_bit [of b 3] by simp_all

lemma observe_pixel: "observe ps (shift_pixel t b) = [Shift (colour_bits t @ colour_bits b)]"
  by (simp add: shift_pixel_def and_bits data_lines_def colour_bits_def)

lemma pins_after_pixel: "pins_after ps (shift_pixel t b) LAT = ps LAT"
  by (simp add: shift_pixel_def)

lemma observe_pixels:
  "observe ps (concat (map (\<lambda>(t, b). shift_pixel t b) tbs)) = map (\<lambda>(t, b). Shift (colour_bits t @ colour_bits b)) tbs"
  by (induction tbs arbitrary: ps) (simp, simp only: list.map concat.simps observe_append observe_pixel
    case_prod_beta' append.simps)

lemma pins_after_pixels: "pins_after ps (concat (map (\<lambda>(t, b). shift_pixel t b) tbs)) LAT = ps LAT"
  by (induction tbs arbitrary: ps) (simp, simp only: list.map concat.simps pins_after_append pins_after_pixel
    case_prod_beta')

text \<open>What the panel should see for row \<open>r\<close> of its upper half and row \<open>r + 16\<close> of its lower half.\<close>

definition row_shown :: "fb \<Rightarrow> nat \<Rightarrow> panel_event list" where
  "row_shown img r = [Dark]
     @ map (\<lambda>x. Shift (colour_bits (img ! (r * 128 + x)) @ colour_bits (img ! ((r + 16) * 128 + x)))) [0..<128]
     @ [Latch r, Light]"

lemma row_16: "\<forall>r \<in> set [0..<16]. P r \<Longrightarrow> r < 16 \<Longrightarrow> P r"
  by simp

lemma row_bits: "r < 16 \<Longrightarrow>
  (if bit (of_nat r :: u8) 0 then 1 else 0) + (if bit (of_nat r :: u8) 1 then 2 else 0) +
  (if bit (of_nat r :: u8) 2 then 4 else 0) + (if bit (of_nat r :: u8) 3 then 8 else 0) = r"
  by (erule row_16 [rotated]) code_simp

lemma next_row: "r < 16 \<Longrightarrow>
  (if uint (of_nat r + 1 :: u8) \<ge> LED_Height div 2 then 0 else of_nat r + 1) = (of_nat ((r + 1) mod 16) :: u8)"
  by (erule row_16 [rotated]) code_simp

lemma uint_row: "r < 16 \<Longrightarrow> uint (of_nat r :: u8) = int r"
  by (erule row_16 [rotated]) code_simp

lemma refresh_law:
  assumes "length img = 4096" and "r < 16" and "\<not> ps LAT"
  shows "\<exists>tr. HUB75_RefreshStep_ISR (of_nat r) img = Some (tr, of_nat ((r + 1) mod 16)) \<and>
    observe ps tr = row_shown img r \<and> \<not> pins_after ps tr LAT"
proof -
  let ?top = "map (\<lambda>x. img ! (r * 128 + x)) [0..<128]" and ?bot = "map (\<lambda>x. img ! ((r + 16) * 128 + x)) [0..<128]"
  let ?shift = "concat (map (\<lambda>(t, b). shift_pixel t b) (zip ?top ?bot))"
  let ?rest = "[(ROW_A, bit (of_nat r :: u8) 0), (ROW_B, bit (of_nat r :: u8) 1), (ROW_C, bit (of_nat r :: u8) 2),
    (ROW_D, bit (of_nat r :: u8) 3)] @ [(LAT, True), (LAT, False)] @ [(OE, False)]"
  let ?tr = "[(OE, True)] @ ?shift @ ?rest"
  have loads: "load_columns img (int r * LED_Width) = Some ?top" "load_columns img ((int r + LED_Height div 2) * LED_Width) = Some ?bot"
    using load_columns_eq [OF assms(1), of r] load_columns_eq [OF assms(1), of "r + 16"] assms(2)
    by (simp_all add: LED_Height_def)
  have step: "HUB75_RefreshStep_ISR (of_nat r) img = Some (?tr, of_nat ((r + 1) mod 16))"
    unfolding HUB75_RefreshStep_ISR_def uint_row [OF assms(2)] loads and_bits Let_def next_row [OF assms(2)]
    by simp
  define ps' where "ps' = pins_after (ps(OE := True)) ?shift"
  have lat: "\<not> ps' LAT" using assms(3) unfolding ps'_def pins_after_pixels by simp
  have zip: "zip ?top ?bot = map (\<lambda>x. (img ! (r * 128 + x), img ! ((r + 16) * 128 + x))) [0..<128]"
    by (simp only: zip_map_map map_zip_map zip_same_conv_map map_map o_def prod.case)
  have "observe ps ?tr = [Dark] @ observe (ps(OE := True)) ?shift @ observe ps' ?rest"
    unfolding ps'_def observe_append by (simp only: observe.simps pins_after.simps append_Nil append_Nil2) simp
  also have "observe ps' ?rest = [Latch r, Light]"
    using lat row_bits [OF assms(2)] by (simp add: address_def)
  finally have "observe ps ?tr = row_shown img r"
    unfolding observe_pixels row_shown_def zip by (simp only: map_map o_def prod.case)
  moreover have "\<not> pins_after ps ?tr LAT"
    by (simp only: pins_after_append) simp
  ultimately show ?thesis using step by blast
qed

text \<open>The interrupts of a while: \<open>n\<close> steps of the scan.\<close>

fun scan :: "nat \<Rightarrow> u8 \<Rightarrow> fb \<Rightarrow> (trace \<times> u8) option" where
  "scan 0 row img = Some ([], row)"
| "scan (Suc n) row img = do {
     (tr, row) \<leftarrow> HUB75_RefreshStep_ISR row img;
     (tr', row) \<leftarrow> scan n row img;
     Some (tr @ tr', row) }"

lemma scan_law:
  assumes "length img = 4096"
  shows "r < 16 \<Longrightarrow> \<not> ps LAT \<Longrightarrow>
    \<exists>tr. scan n (of_nat r) img = Some (tr, of_nat ((r + n) mod 16)) \<and>
      observe ps tr = concat (map (\<lambda>i. row_shown img ((r + i) mod 16)) [0..<n]) \<and> \<not> pins_after ps tr LAT"
proof (induction n arbitrary: r ps)
  case 0
  then show ?case by simp
next
  case (Suc n)
  obtain tr where tr: "HUB75_RefreshStep_ISR (of_nat r) img = Some (tr, of_nat ((r + 1) mod 16))"
    "observe ps tr = row_shown img r" "\<not> pins_after ps tr LAT"
    using refresh_law [where ps = ps, OF assms Suc.prems] by blast
  have "(r + 1) mod 16 < 16" by simp
  from Suc.IH [where ps = "pins_after ps tr", OF this tr(3)] obtain tr' where tr':
    "scan n (of_nat ((r + 1) mod 16)) img = Some (tr', of_nat (((r + 1) mod 16 + n) mod 16))"
    "observe (pins_after ps tr) tr' = concat (map (\<lambda>i. row_shown img (((r + 1) mod 16 + i) mod 16)) [0..<n])"
    "\<not> pins_after (pins_after ps tr) tr' LAT"
    by blast
  have m: "((r + 1) mod 16 + i) mod 16 = (r + Suc i) mod 16" for i by presburger
  have "scan (Suc n) (of_nat r) img = Some (tr @ tr', of_nat ((r + Suc n) mod 16))"
    by (simp only: scan.simps tr(1) tr'(1) m bind.simps prod.case option.inject)
  moreover have "observe ps (tr @ tr') = concat (map (\<lambda>i. row_shown img ((r + i) mod 16)) [0..<Suc n])"
    using Suc.prems(1) unfolding observe_append tr(2) tr'(2) m
    by (simp add: upt_conv_Cons map_Suc_upt [symmetric] o_def del: upt_Suc)
  ultimately show ?case using tr'(3) unfolding pins_after_append [symmetric] by blast
qed

section \<open>The rotations\<close>

text \<open>
  A list of copies whose targets differ, and where no cell is read after it has been overwritten,
  acts as if all were done at once.
\<close>

fun safe_copies :: "(nat \<times> nat) list \<Rightarrow> bool" where
  "safe_copies [] \<longleftrightarrow> True"
| "safe_copies ((d, s) # ps) \<longleftrightarrow> d \<notin> fst ` set ps \<and> d \<notin> snd ` set ps \<and> safe_copies ps"

definition moved :: "(nat \<times> nat) list \<Rightarrow> u8 list \<Rightarrow> nat \<Rightarrow> u8" where
  "moved ps img j = (case map_of ps j of None \<Rightarrow> img ! j | Some s \<Rightarrow> img ! s)"

lemma copies_law:
  "safe_copies ps \<Longrightarrow> \<forall>(d, s) \<in> set ps. d < length img \<and> s < length img \<Longrightarrow>
    \<exists>img'. draw_all (map (\<lambda>(d, s). copy_cell d s) ps) img = Some img' \<and> length img' = length img \<and>
      (\<forall>j < length img. img' ! j = moved ps img j)"
proof (induction ps arbitrary: img)
  case Nil
  then show ?case by (simp add: moved_def)
next
  case (Cons p ps)
  obtain d s where p: "p = (d, s)" by (cases p)
  then have ds: "d < length img" "s < length img" "d \<notin> fst ` set ps" "d \<notin> snd ` set ps" "safe_copies ps"
    using Cons.prems by auto
  let ?i = "img[d := img ! s]"
  have "\<forall>(d, s) \<in> set ps. d < length ?i \<and> s < length ?i" using Cons.prems(2) by simp
  from Cons.IH [OF ds(5) this] obtain img' where img': "draw_all (map (\<lambda>(d, s). copy_cell d s) ps) ?i = Some img'"
    "length img' = length img" "\<forall>j < length img. img' ! j = moved ps ?i j" by auto
  have "copy_cell d s img = Some ?i" using ds(1,2) by (simp add: copy_cell_def c_load_nat)
  then have "draw_all (map (\<lambda>(d, s). copy_cell d s) (p # ps)) img = Some img'" using img'(1) p by simp
  moreover have "moved ps ?i j = moved (p # ps) img j" if "j < length img" for j
  proof (cases "map_of ps j")
    case None
    then show ?thesis using that p by (simp add: moved_def nth_list_update)
  next
    case (Some t)
    then have "t \<in> snd ` set ps" "j \<in> fst ` set ps" by (force dest: map_of_SomeD)+
    then have "t \<noteq> d" "j \<noteq> d" using ds(3,4) by auto
    then show ?thesis using Some p by (simp add: moved_def nth_list_update)
  qed
  ultimately show ?case using img'(2,3) by auto
qed

lemma stores_law:
  "distinct (map d is) \<Longrightarrow> \<forall>i \<in> set is. d i < length img \<Longrightarrow>
    \<exists>img'. draw_all (map (\<lambda>i. store_cell (d i) (v i)) is) img = Some img' \<and> length img' = length img \<and>
      (\<forall>i \<in> set is. img' ! d i = v i) \<and> (\<forall>j. j \<notin> d ` set is \<longrightarrow> img' ! j = img ! j)"
proof (induction "is" arbitrary: img)
  case Nil
  then show ?case by simp
next
  case (Cons i "is")
  let ?i = "img[d i := v i]"
  have prem: "distinct (map d is)" "\<forall>k \<in> set is. d k < length ?i" "d i < length img" "d i \<notin> d ` set is"
    using Cons.prems by auto
  from Cons.IH [OF prem(1,2)] obtain img' where img': "draw_all (map (\<lambda>i. store_cell (d i) (v i)) is) ?i = Some img'"
    "length img' = length img" "\<forall>k \<in> set is. img' ! d k = v k" "\<forall>j. j \<notin> d ` set is \<longrightarrow> img' ! j = ?i ! j" by auto
  have "store_cell (d i) (v i) img = Some ?i" using prem(3) by (simp add: store_cell_def)
  then have "draw_all (map (\<lambda>i. store_cell (d i) (v i)) (i # is)) img = Some img'" using img'(1) by simp
  moreover have "img' ! d i = v i" using img'(4) prem(3,4) by simp
  moreover have "img' ! j = img ! j" if "j \<notin> d ` set (i # is)" for j using img'(4) that by simp
  ultimately show ?case using img'(2,3) by auto
qed

lemma safe_copies_moved:
  "safe_copies ps \<Longrightarrow> (d, s) \<in> set ps \<Longrightarrow> map_of ps d = Some s"
proof (induction ps rule: safe_copies.induct)
  case (2 e t ps)
  then show ?case by (cases "(d, s) = (e, t)") (auto simp: rev_image_eqI)
qed simp

text \<open>The common form of the four rotations.\<close>

lemma rotate_law:
  assumes img: "length img = 4096" and t: "\<forall>i < n. t i < 4096" and d: "\<forall>i < n. d i < 4096" "inj_on d {..<n}"
    and ps: "safe_copies ps" "\<forall>(a, b) \<in> set ps. a < 4096 \<and> b < 4096" "\<forall>(a, b) \<in> set ps. a \<notin> d ` {..<n}"
  shows "\<exists>img'. do {
      tmp \<leftarrow> those (map (\<lambda>i. c_load img (int (t i))) [0..<n]);
      img \<leftarrow> draw_all (map (\<lambda>(a, b). copy_cell a b) ps) img;
      draw_all (map (\<lambda>i. store_cell (d i) (tmp ! i)) [0..<n]) img } = Some img' \<and>
    length img' = 4096 \<and> (\<forall>i < n. img' ! d i = img ! t i) \<and> (\<forall>(a, b) \<in> set ps. img' ! a = img ! b)"
proof -
  let ?tmp = "map (\<lambda>i. img ! t i) [0..<n]"
  have tmp: "those (map (\<lambda>i. c_load img (int (t i))) [0..<n]) = Some ?tmp"
    using t img by (intro those_load) simp
  obtain i1 where i1: "draw_all (map (\<lambda>(a, b). copy_cell a b) ps) img = Some i1" "length i1 = 4096"
    "\<forall>j < 4096. i1 ! j = moved ps img j"
    using copies_law [OF ps(1), of img] ps(2) img by auto
  have "distinct (map d [0..<n])" using d(2) by (simp add: distinct_map lessThan_atLeast0)
  then obtain i2 where i2: "draw_all (map (\<lambda>i. store_cell (d i) (?tmp ! i)) [0..<n]) i1 = Some i2" "length i2 = 4096"
    "\<forall>i \<in> set [0..<n]. i2 ! d i = ?tmp ! i" "\<forall>j. j \<notin> d ` set [0..<n] \<longrightarrow> i2 ! j = i1 ! j"
    using stores_law [of d "[0..<n]" i1 "\<lambda>i. ?tmp ! i"] d(1) i1(2) by auto
  have "i2 ! a = img ! b" if ab: "(a, b) \<in> set ps" for a b
  proof -
    have a: "a < 4096" "a \<notin> d ` set [0..<n]" using ab ps(2,3) by (auto simp: lessThan_atLeast0)
    then have "i2 ! a = moved ps img a" using i1(3) i2(4) by metis
    then show ?thesis using safe_copies_moved [OF ps(1) ab] by (simp add: moved_def)
  qed
  then show ?thesis using tmp i1(1) i2 by (intro exI [of _ i2]) auto
qed

lemma safe_copies_append:
  "safe_copies (ps @ qs) \<longleftrightarrow> safe_copies ps \<and> safe_copies qs \<and>
    (\<forall>d \<in> fst ` set ps. d \<notin> fst ` set qs \<and> d \<notin> snd ` set qs)"
  by (induction ps rule: safe_copies.induct) (auto simp: image_Un)

text \<open>Copies that a nested loop makes are safe when each round is, and every later round is apart.\<close>

lemma safe_rounds:
  "(\<And>k. k \<in> set ks \<Longrightarrow> safe_copies (f k)) \<Longrightarrow>
    sorted_wrt (\<lambda>k l. \<forall>d \<in> fst ` set (f k). d \<notin> fst ` set (f l) \<and> d \<notin> snd ` set (f l)) ks \<Longrightarrow>
    safe_copies (concat (map f ks))"
proof (induction ks)
  case (Cons k ks)
  then show ?case by (fastforce simp: safe_copies_append)
qed simp

lemma safe_round:
  "sorted_wrt (\<lambda>k l. d k \<noteq> d l \<and> d k \<noteq> s l) ks \<Longrightarrow> safe_copies (map (\<lambda>k. (d k, s k)) ks)"
  by (induction ks) auto

lemma cell_inj: "c < 128 \<Longrightarrow> c' < 128 \<Longrightarrow> r * 128 + c = r' * 128 + c' \<longleftrightarrow> r = r' \<and> c = c'" for r c r' c' :: nat
proof
  assume c: "c < 128" "c' < 128" and eq: "r * 128 + c = r' * 128 + c'"
  have "(r * 128 + c) div 128 = r" "(r' * 128 + c') div 128 = r'"
    "(r * 128 + c) mod 128 = c" "(r' * 128 + c') mod 128 = c'" using c by simp_all
  then show "r = r' \<and> c = c'" unfolding eq by metis
qed simp

text \<open>The rotations as nested loops: \<open>D k l\<close> is overwritten with \<open>S k l\<close>.\<close>

definition apart :: "(nat \<Rightarrow> nat \<Rightarrow> nat) \<Rightarrow> (nat \<Rightarrow> nat \<Rightarrow> nat) \<Rightarrow> nat list \<Rightarrow> nat \<Rightarrow> nat \<Rightarrow> bool" where
  "apart D S ls k k' \<longleftrightarrow> (\<forall>l \<in> set ls. \<forall>l' \<in> set ls. D k l \<noteq> D k' l' \<and> D k l \<noteq> S k' l')"

lemma nested_rotate:
  assumes img: "length img = 4096" and t: "\<And>i. i < n \<Longrightarrow> t i < 4096" and d: "\<And>i. i < n \<Longrightarrow> d i < 4096" "inj d"
    and bounds: "\<And>k l. k \<in> set ks \<Longrightarrow> l \<in> set ls \<Longrightarrow> D k l < 4096 \<and> S k l < 4096"
    and d_free: "\<And>i k l. i < n \<Longrightarrow> k \<in> set ks \<Longrightarrow> l \<in> set ls \<Longrightarrow> D k l \<noteq> d i"
    and rounds: "sorted_wrt (apart D S ls) ks"
    and round: "\<And>k. k \<in> set ks \<Longrightarrow> sorted_wrt (\<lambda>l l'. D k l \<noteq> D k l' \<and> D k l \<noteq> S k l') ls"
  shows "\<exists>img'. do {
      tmp \<leftarrow> those (map (\<lambda>i. c_load img (int (t i))) [0..<n]);
      img \<leftarrow> draw_all (concat (map (\<lambda>k. map (\<lambda>l. copy_cell (D k l) (S k l)) ls) ks)) img;
      draw_all (map (\<lambda>i. store_cell (d i) (tmp ! i)) [0..<n]) img } = Some img' \<and>
    length img' = 4096 \<and> (\<forall>i < n. img' ! d i = img ! t i) \<and>
    (\<forall>k \<in> set ks. \<forall>l \<in> set ls. img' ! D k l = img ! S k l)"
proof -
  let ?ps = "concat (map (\<lambda>k. map (\<lambda>l. (D k l, S k l)) ls) ks)"
  have ops: "map (\<lambda>(a, b). copy_cell a b) ?ps = concat (map (\<lambda>k. map (\<lambda>l. copy_cell (D k l) (S k l)) ls) ks)"
    by (simp add: map_concat o_def)
  have "safe_copies ?ps"
  proof (rule safe_rounds)
    show "safe_copies (map (\<lambda>l. (D k l, S k l)) ls)" if "k \<in> set ks" for k
      using round [OF that] by (rule safe_round)
    show "sorted_wrt (\<lambda>k k'. \<forall>a \<in> fst ` set (map (\<lambda>l. (D k l, S k l)) ls).
        a \<notin> fst ` set (map (\<lambda>l. (D k' l, S k' l)) ls) \<and> a \<notin> snd ` set (map (\<lambda>l. (D k' l, S k' l)) ls)) ks"
      by (rule sorted_wrt_mono_rel [OF _ rounds]) (auto simp: apart_def)
  qed
  moreover have "\<forall>(a, b) \<in> set ?ps. a < 4096 \<and> b < 4096" "\<forall>(a, b) \<in> set ?ps. a \<notin> d ` {..<n}"
    using bounds d_free by auto
  ultimately have "\<exists>img'. do {
      tmp \<leftarrow> those (map (\<lambda>i. c_load img (int (t i))) [0..<n]);
      img \<leftarrow> draw_all (map (\<lambda>(a, b). copy_cell a b) ?ps) img;
      draw_all (map (\<lambda>i. store_cell (d i) (tmp ! i)) [0..<n]) img } = Some img' \<and>
    length img' = 4096 \<and> (\<forall>i < n. img' ! d i = img ! t i) \<and> (\<forall>(a, b) \<in> set ?ps. img' ! a = img ! b)"
    using img t d by (intro rotate_law) (auto intro: inj_on_subset)
  then show ?thesis unfolding ops by auto
qed

lemma sorted_less: "(\<And>k l. m \<le> k \<Longrightarrow> k < l \<Longrightarrow> l < n \<Longrightarrow> P k l) \<Longrightarrow> sorted_wrt P [m..<n]"
  by (rule sorted_wrt_mono_rel [OF _ sorted_wrt_upt]) auto

lemma sorted_greater: "(\<And>k l. m \<le> l \<Longrightarrow> l < k \<Longrightarrow> k < n \<Longrightarrow> P k l) \<Longrightarrow> sorted_wrt P (rev [m..<n])"
  unfolding sorted_wrt_rev by (rule sorted_less)

lemma cell_eqD:
  assumes "r * 128 + c = r' * 128 + c'" and "c < 128" and "c' < (128 :: nat)"
  shows "r = r'" "c = c'"
  using assms cell_inj by blast+

lemma cell_SucD:
  assumes "r * 128 + c = Suc (r' * 128 + c')" and "c < 128" and "Suc c' < (128 :: nat)"
  shows "r = r'" "c = Suc c'"
  using assms cell_inj [of c "Suc c'" r r'] by simp_all

lemma scrollRight_law:
  assumes "length img = 4096"
  shows "\<exists>img'. scrollRight img = Some img' \<and> length img' = 4096 \<and>
    (\<forall>r < 32. img' ! (r * 128 + 127) = img ! (r * 128 + 0)) \<and>
    (\<forall>c \<in> set [0..<127]. \<forall>r \<in> set [0..<32]. img' ! (r * 128 + c) = img ! (r * 128 + (c + 1)))"
  unfolding scrollRight_def
proof (rule nested_rotate [OF assms])
  show "inj (\<lambda>r :: nat. r * 128 + 127)" by (simp add: inj_on_def)
  show "r * 128 + c \<noteq> i * 128 + 127" if "c \<in> set [0..<127]" for c r i :: nat
    using that cell_eqD(2) [of r c i 127] unfolding set_upt by auto
  show "sorted_wrt (apart (\<lambda>c r. r * 128 + c) (\<lambda>c r. r * 128 + (c + 1)) [0..<32]) [0..<127]"
    unfolding apart_def
    by (intro sorted_less ballI conjI notI) (auto dest!: cell_eqD(2) cell_SucD(2))
  show "sorted_wrt (\<lambda>r r'. r * 128 + c \<noteq> r' * 128 + c \<and> r * 128 + c \<noteq> r' * 128 + (c + 1)) [0..<32]" if "c \<in> set [0..<127]" for c :: nat
    using that unfolding set_upt by (intro sorted_less conjI notI) (auto dest: cell_eqD cell_SucD)
qed (auto simp del: upt_rec_numeral)

lemma scrollLeft_law:
  assumes "length img = 4096"
  shows "\<exists>img'. scrollLeft img = Some img' \<and> length img' = 4096 \<and>
    (\<forall>r < 32. img' ! (r * 128) = img ! (r * 128 + 127)) \<and>
    (\<forall>c \<in> set (rev [1..<128]). \<forall>r \<in> set [0..<32]. img' ! (r * 128 + c) = img ! (r * 128 + (c - 1)))"
  unfolding scrollLeft_def
proof (rule nested_rotate [OF assms])
  show "inj (\<lambda>r :: nat. r * 128)" by (simp add: inj_on_def)
  show "r * 128 + c \<noteq> i * 128" if "c \<in> set (rev [1..<128])" for c r i :: nat
    using that cell_eqD(2) [of r c i 0] unfolding set_upt set_rev by auto
  show "sorted_wrt (apart (\<lambda>c r. r * 128 + c) (\<lambda>c r. r * 128 + (c - 1)) [0..<32]) (rev [1..<128])"
    unfolding apart_def set_upt
    by (intro sorted_greater ballI conjI notI) (drule cell_eqD(2); simp)+
  show "sorted_wrt (\<lambda>r r'. r * 128 + c \<noteq> r' * 128 + c \<and> r * 128 + c \<noteq> r' * 128 + (c - 1)) [0..<32]"
    if "c \<in> set (rev [1..<128])" for c :: nat
    using that unfolding set_upt set_rev by (intro sorted_less conjI notI) (auto dest: cell_eqD)
qed (auto simp del: upt_rec_numeral)

lemma scrollDown_law:
  assumes "length img = 4096"
  shows "\<exists>img'. scrollDown img = Some img' \<and> length img' = 4096 \<and>
    (\<forall>c < 128. img' ! (31 * 128 + c) = img ! c) \<and>
    (\<forall>r \<in> set [0..<31]. \<forall>c \<in> set [0..<128]. img' ! (r * 128 + c) = img ! ((r + 1) * 128 + c))"
  unfolding scrollDown_def
proof (rule nested_rotate [OF assms])
  show "inj (\<lambda>c :: nat. 31 * 128 + c)" by (simp add: inj_on_def)
  show "r * 128 + c \<noteq> 31 * 128 + i" if "r \<in> set [0..<31]" "c \<in> set [0..<128]" for c r i :: nat
    using that unfolding set_upt by simp
  show "sorted_wrt (apart (\<lambda>r c. r * 128 + c) (\<lambda>r c. (r + 1) * 128 + c) [0..<128]) [0..<31]"
    unfolding apart_def set_upt
    by (intro sorted_less ballI conjI notI) (drule cell_eqD(1); simp)+
  show "sorted_wrt (\<lambda>c c'. r * 128 + c \<noteq> r * 128 + c' \<and> r * 128 + c \<noteq> (r + 1) * 128 + c') [0..<128]" for r :: nat
    by (intro sorted_less conjI notI) (drule cell_eqD, simp, simp, simp)+
qed (auto simp del: upt_rec_numeral)

lemma scrollUp_law:
  assumes "length img = 4096"
  shows "\<exists>img'. scrollUp img = Some img' \<and> length img' = 4096 \<and>
    (\<forall>c < 128. img' ! c = img ! (31 * 128 + c)) \<and>
    (\<forall>r \<in> set (rev [1..<32]). \<forall>c \<in> set [0..<128]. img' ! (r * 128 + c) = img ! ((r - 1) * 128 + c))"
  unfolding scrollUp_def
proof (rule nested_rotate [OF assms])
  show "inj (\<lambda>c :: nat. c)" by simp
  show "r * 128 + c \<noteq> i" if "i < 128" "r \<in> set (rev [1..<32])" "c \<in> set [0..<128]" for c r i :: nat
    using that unfolding set_upt set_rev by simp
  show "sorted_wrt (apart (\<lambda>r c. r * 128 + c) (\<lambda>r c. (r - 1) * 128 + c) [0..<128]) (rev [1..<32])"
    unfolding apart_def set_upt
    by (intro sorted_greater ballI conjI notI) (drule cell_eqD(1); simp)+
  show "sorted_wrt (\<lambda>c c'. r * 128 + c \<noteq> r * 128 + c' \<and> r * 128 + c \<noteq> (r - 1) * 128 + c') [0..<128]"
     if "r \<in> set (rev [1..<32])" for r :: nat
    using that unfolding set_upt set_rev by (intro sorted_less conjI notI) (drule cell_eqD, simp, simp, simp)+
qed (auto simp del: upt_rec_numeral)

text \<open>All four in one form: the pixel each cell receives.\<close>

definition turned :: "nat \<Rightarrow> nat \<Rightarrow> fb \<Rightarrow> fb \<Rightarrow> bool" where
  "turned dr dc img img' \<longleftrightarrow> length img' = 4096 \<and>
     (\<forall>r < 32. \<forall>c < 128. img' ! (r * 128 + c) = img ! ((r + dr) mod 32 * 128 + (c + dc) mod 128))"

definition turns_by :: "nat \<Rightarrow> nat \<Rightarrow> (fb \<Rightarrow> fb option) \<Rightarrow> bool" where
  "turns_by dr dc f \<longleftrightarrow> (\<forall>img. length img = 4096 \<longrightarrow> (\<exists>img'. f img = Some img' \<and> turned dr dc img img'))"

lemma turns_byI:
  assumes "\<And>img. length img = 4096 \<Longrightarrow> \<exists>img'. f img = Some img' \<and> length img' = 4096 \<and> P img img'"
    and "\<And>img img' r c. P img img' \<Longrightarrow> r < 32 \<Longrightarrow> c < 128 \<Longrightarrow>
      img' ! (r * 128 + c) = img ! ((r + dr) mod 32 * 128 + (c + dc) mod 128)"
  shows "turns_by dr dc f"
  unfolding turns_by_def turned_def using assms by meson

lemma scrollRight_turns: "turns_by 0 1 scrollRight"
proof (rule turns_byI, erule scrollRight_law, elim conjE)
  fix img img' :: fb and r c :: nat
  assume "\<forall>r < 32. img' ! (r * 128 + 127) = img ! (r * 128 + 0)"
    "\<forall>c \<in> set [0..<127]. \<forall>r \<in> set [0..<32]. img' ! (r * 128 + c) = img ! (r * 128 + (c + 1))" "r < 32" "c < 128"
  then show "img' ! (r * 128 + c) = img ! ((r + 0) mod 32 * 128 + (c + 1) mod 128)"
    by (cases "c = 127") (simp_all del: upt_rec_numeral)
qed

lemma mod_back: "0 < c \<Longrightarrow> c < n \<Longrightarrow> (c + (n - 1)) mod n = c - 1" for c n :: nat
  by (simp add: mod_if)

lemma scrollLeft_turns: "turns_by 0 127 scrollLeft"
proof (rule turns_byI, erule scrollLeft_law, elim conjE)
  fix img img' :: fb and r c :: nat
  assume a: "\<forall>r < 32. img' ! (r * 128) = img ! (r * 128 + 127)" and rc: "r < 32" "c < 128"
    and b: "\<forall>c \<in> set (rev [1..<128]). \<forall>r \<in> set [0..<32]. img' ! (r * 128 + c) = img ! (r * 128 + (c - 1))"
  show "img' ! (r * 128 + c) = img ! ((r + 0) mod 32 * 128 + (c + 127) mod 128)"
  proof (cases "c = 0")
    case False
    then have "img' ! (r * 128 + c) = img ! (r * 128 + (c - 1))"
      using rc by (intro b [THEN bspec, THEN bspec]) (simp_all only: set_rev set_upt atLeastLessThan_iff, auto)
    then show ?thesis using mod_back [of c 128] False rc by simp
  qed (use a rc in simp)
qed

lemma scrollDown_turns: "turns_by 1 0 scrollDown"
proof (rule turns_byI, erule scrollDown_law, elim conjE)
  fix img img' :: fb and r c :: nat
  assume "\<forall>c < 128. img' ! (31 * 128 + c) = img ! c" "r < 32" "c < 128"
    "\<forall>r \<in> set [0..<31]. \<forall>c \<in> set [0..<128]. img' ! (r * 128 + c) = img ! ((r + 1) * 128 + c)"
  then show "img' ! (r * 128 + c) = img ! ((r + 1) mod 32 * 128 + (c + 0) mod 128)"
    by (cases "r = 31") (simp_all del: upt_rec_numeral)
qed

lemma scrollUp_turns: "turns_by 31 0 scrollUp"
proof (rule turns_byI, erule scrollUp_law, elim conjE)
  fix img img' :: fb and r c :: nat
  assume a: "\<forall>c < 128. img' ! c = img ! (31 * 128 + c)" and rc: "r < 32" "c < 128"
    and b: "\<forall>r \<in> set (rev [1..<32]). \<forall>c \<in> set [0..<128]. img' ! (r * 128 + c) = img ! ((r - 1) * 128 + c)"
  show "img' ! (r * 128 + c) = img ! ((r + 31) mod 32 * 128 + (c + 0) mod 128)"
  proof (cases "r = 0")
    case False
    then have "img' ! (r * 128 + c) = img ! ((r - 1) * 128 + c)"
      using rc by (intro b [THEN bspec, THEN bspec]) (simp_all only: set_rev set_upt atLeastLessThan_iff, auto)
    then show ?thesis using mod_back [of r 32] False rc by simp
  qed (use a rc in simp)
qed

lemma turned_comp:
  assumes "turned dr dc img i" and "turned er ec i j" and "dr + er = 0 \<or> dr + er = 32" and "dc + ec = 0 \<or> dc + ec = 128"
    and len: "length img = 4096"
  shows "j = img"
proof (rule nth_equalityI)
  show "length j = length img" using assms(2) len by (simp add: turned_def)
  have cell: "j ! (r * 128 + c) = img ! (r * 128 + c)" if rc: "r < 32" "c < 128" for r c
  proof -
    have "((r + er) mod 32 + dr) mod 32 = r" "((c + ec) mod 128 + dc) mod 128 = c"
      using assms(3,4) rc by (auto simp: mod_simps add.assoc add.commute [of er] add.commute [of ec])
    moreover have "j ! (r * 128 + c) = i ! ((r + er) mod 32 * 128 + (c + ec) mod 128)"
      using assms(2) rc by (simp add: turned_def)
    moreover have "i ! ((r + er) mod 32 * 128 + (c + ec) mod 128)
        = img ! (((r + er) mod 32 + dr) mod 32 * 128 + ((c + ec) mod 128 + dc) mod 128)"
      using assms(1) by (simp add: turned_def)
    ultimately show ?thesis by simp
  qed
  show "j ! n = img ! n" if "n < length j" for n
    using cell [of "n div 128" "n mod 128"] that assms(2) by (simp add: turned_def)
qed

lemma turns_back:
  assumes "turns_by dr dc f" and "turns_by er ec g" and "dr + er = 0 \<or> dr + er = 32" and "dc + ec = 0 \<or> dc + ec = 128"
    and "length img = 4096"
  shows "Option.bind (f img) g = Some img"
proof -
  obtain i where i: "f img = Some i" "turned dr dc img i" using assms(1,5) unfolding turns_by_def by blast
  moreover obtain j where "g i = Some j" "turned er ec i j"
    using assms(2) i(2) unfolding turns_by_def turned_def by blast
  ultimately show ?thesis using turned_comp [OF i(2) _ assms(3-5)] by simp
qed

section \<open>Properties\<close>

text \<open>
  Every interrupt of the scan shows one row of the upper and one of the lower half: with the
  output dark it clocks in the 128 columns, each with the three colour bits of the buffer for both
  rows, then latches them under the right row address and lights the output; \<open>n\<close> interrupts show
  \<open>n\<close> consecutive rows, so any 16 show the whole frame buffer, each row once. No read leaves the buffer.
\<close>

lemma scan_shows_frame:
  assumes "length img = 4096" and "r < 16" and "\<not> ps LAT"
  shows "\<exists>tr. scan n (of_nat r) img = Some (tr, of_nat ((r + n) mod 16)) \<and>
    observe ps tr = concat (map (\<lambda>i. row_shown img ((r + i) mod 16)) [0..<n])"
  using scan_law [where ps = ps, OF assms] by blast

lemma scan_shows_frame_witness:
  "\<exists>tr. scan 16 (of_nat 0) (replicate 4096 5) = Some (tr, of_nat ((0 + 16) mod 16)) \<and>
    observe (\<lambda>_. False) tr = concat (map (\<lambda>i. row_shown (replicate 4096 5) ((0 + i) mod 16)) [0..<16])"
  by (rule scan_shows_frame) simp_all

text \<open>
  The rotations lose nothing: left undoes right, up undoes down, and the other way round.
\<close>

lemma scrolls_inverse:
  assumes "length img = 4096"
  shows "Option.bind (scrollRight img) scrollLeft = Some img \<and> Option.bind (scrollLeft img) scrollRight = Some img \<and>
    Option.bind (scrollDown img) scrollUp = Some img \<and> Option.bind (scrollUp img) scrollDown = Some img"
  using turns_back [OF scrollRight_turns scrollLeft_turns _ _ assms]
    turns_back [OF scrollLeft_turns scrollRight_turns _ _ assms]
    turns_back [OF scrollDown_turns scrollUp_turns _ _ assms]
    turns_back [OF scrollUp_turns scrollDown_turns _ _ assms] by simp

lemma scrolls_inverse_witness:
  "Option.bind (scrollRight (7 # replicate 4095 0)) scrollLeft = Some (7 # replicate 4095 0)"
  using scrolls_inverse [of "7 # replicate 4095 0"] by simp

end
