(* ===== verification/Screen_Contents.thy ===== *)
theory Screen_Contents
  imports Display_Screens Rgb_Matrix Matrix_Run
begin

text \<open>
  What the screens show and that they are safe: every screen of \<open>display_screens.c\<close> stays inside the
  frame buffer; the dashboard shows the status colour of each car, and its guidance the side, or
  the platforms, with room. Columns and rows count from 1.
\<close>

section \<open>Safety\<close>

text \<open>Measurements small enough for the conversions to \<open>int\<close>, and for ten times their value.\<close>

definition measurable :: "DB_Data_t \<Rightarrow> bool" where
  "measurable d \<longleftrightarrow> (\<exists>co. co_val d = Some co \<and> \<bar>co\<bar> \<le> 100000000) \<and> \<bar>co2_val d\<bar> \<le> 100000000 \<and>
     \<bar>temp_val d\<bar> \<le> 100000000 \<and> \<bar>hum_val d\<bar> \<le> 100000000"

lemma c_int_small: "\<bar>r\<bar> < 2147483648 \<Longrightarrow> c_int r = Some (c_trunc r)"
  using c_trunc_less [of r 2147483648] by (auto simp: c_int_def Let_def)

lemma total_dual_layout:
  assumes "list_all printable upper" "list_all printable lower" "list_all printable tu" "list_all printable bu"
    and "5 + length upper * (5 + unat gap) \<le> 128"
    and "unat (5 + blo) + length lower * (5 + unat gap) \<le> 128" and "unat (37 + uo) + 5 \<le> 128"
  shows "total_op (Screen_Show_DualMetricLayout upper lower tv bv tu bu tvo bvo uo blo gap dec bx tc bc)"
proof -
  have if_total: "total_op (if b then f else g)" if "total_op f" "total_op g" for b f g using that by simp
  show ?thesis unfolding Screen_Show_DualMetricLayout_def
    by (intro total_intros total_label total_Font8_string total_point if_total)
      (use assms in \<open>simp_all\<close>)
qed

lemma total_CO2:
  assumes "measurable d"
  shows "total_op (Screen_Show_CO2 d)"
proof -
  obtain c where c: "co_val d = Some c" "\<bar>c\<bar> \<le> 100000000" using assms by (auto simp: measurable_def)
  have co2: "\<bar>co2_val d + 1 / 2\<bar> < rat_of_int 100000002" and co: "\<bar>c * 10 + 1 / 2\<bar> < 2147483648"
    using assms c(2) by (simp_all add: measurable_def abs_le_iff abs_less_iff)
  define v where "v = c_trunc (co2_val d + 1 / 2)"
  have "\<bar>v\<bar> < 100000002" unfolding v_def by (rule c_trunc_less [OF co2])
  then have "\<bar>rat_of_int (v * 10)\<bar> < 2147483648"
    unfolding abs_less_iff by (auto simp: abs_less_iff simp flip: of_int_minus of_int_mult)
  then obtain w where w: "c_int (of_int (v * 10)) = Some w" using c_int_small by blast
  have v: "c_int (co2_val d + 1 / 2) = Some v" using co2 c_int_small [of "co2_val d + 1 / 2"] by (simp add: v_def)
  obtain u where u: "c_int (c * 10 + 1 / 2) = Some u" using c_int_small [OF co] by blast
  have "total_op (Screen_Show_DualMetricLayout (c_lit ''GAS'') (c_lit ''CO'') w u (c_lit ''PPM'') (c_lit ''PPM'')
       1 4 0 0 0 0 1 (co2_to_color v) (co_to_color u))"
    by (rule total_dual_layout) simp_all
  then show ?thesis unfolding Screen_Show_CO2_def v c(1) total_op_def using w u by simp
qed

lemma total_TempHum:
  assumes "measurable d"
  shows "total_op (Screen_Show_TempHum d)"
proof -
  have t: "\<bar>temp_val d * 10 + 1 / 2\<bar> < 2147483648" and h: "\<bar>hum_val d * 10 + 1 / 2\<bar> < 2147483648"
    using assms by (simp_all add: measurable_def abs_le_iff abs_less_iff)
  obtain v u where vu: "c_int (temp_val d * 10 + 1 / 2) = Some v" "c_int (hum_val d * 10 + 1 / 2) = Some u"
    using c_int_small [OF t] c_int_small [OF h] by blast
  have l: "total_op (Screen_Show_DualMetricLayout (c_lit ''TEMP'') (c_lit ''HUM'') v u (c_lit '' C'') []
       8 8 6 2 1 1 0 WHITE WHITE)"
    by (rule total_dual_layout) simp_all
  have p: "total_op (Paint_DrawString_EN 47 19 (c_lit ''%'') Font12 BLACK YELLOW)"
    by (rule total_Font12_string) simp_all
  show ?thesis using total_bind [OF l p] unfolding Screen_Show_TempHum_def vu total_op_def by simp
qed

section \<open>The dashboard as a list of operations\<close>

definition car_x :: "nat \<Rightarrow> u16" where
  "car_x i = 7 + of_nat (i * 7)"

definition car_ops :: "u8 list \<Rightarrow> nat \<Rightarrow> (fb \<Rightarrow> fb option) list" where
  "car_ops status i =
     [draw_tiny_7seg_digit (car_x i + (if i \<ge> 1 then 2 else 1)) 6 (of_nat (i + 1)) WHITE,
      Paint_DrawRectangle (car_x i) 12 (car_x i + 5) 19 (status_to_color (status ! i)) DOT_PIXEL_1X1 DRAW_FILL_FULL,
      Paint_DrawRectangle (car_x i) 12 (car_x i + 5) 19 WHITE DOT_PIXEL_1X1 DRAW_FILL_EMPTY,
      Paint_DrawRectangle (car_x i + 2) (12 + 2) (car_x i + 5 - 2) (19 - 2) BLACK DOT_PIXEL_1X1 DRAW_FILL_FULL,
      thin_point (car_x i + 1) 21 WHITE,
      thin_point (car_x i + 5 - 1) 21 WHITE,
      draw_when (i < 7) (thin_point (car_x i + 5 + 1) ((12 + 19) div 2) WHITE)]"

lemma draw_car_ops: "length status = 8 \<Longrightarrow> i < 8 \<Longrightarrow> draw_car status i = draw_all (car_ops status i)"
  by (intro ext) (simp only: draw_car_def c_load_nat bind.simps Let_def car_ops_def car_x_def)

text \<open>The green cars of each half, counted as the loop does.\<close>

definition left_green :: "u8 list \<Rightarrow> nat" where
  "left_green status = length (filter (\<lambda>i. status ! i = 0) [0..<4])"

definition right_green :: "u8 list \<Rightarrow> nat" where
  "right_green status = length (filter (\<lambda>i. status ! i = 0) [4..<8])"

lemma draw_cars_ops:
  assumes "length status = 8"
  shows "\<forall>i \<in> set is. i < 8 \<Longrightarrow> draw_cars status is l r img
    = map_option (\<lambda>img. (l + of_nat (length (filter (\<lambda>i. status ! i = 0 \<and> i < 4) is)),
        r + of_nat (length (filter (\<lambda>i. status ! i = 0 \<and> \<not> i < 4) is)), img))
      (draw_all (map (draw_car status) is) img)"
proof (induction "is" arbitrary: l r img)
  case (Cons i "is")
  then have i: "i < 8" by simp
  then have ld: "c_load status (int i) = Some (status ! i)" using assms by (simp add: c_load_nat)
  show ?case using Cons.prems
    by (cases "draw_car status i img") (simp_all add: ld Cons.IH add.assoc)
qed simp

definition guidance :: "u8 list \<Rightarrow> u8 \<Rightarrow> (fb \<Rightarrow> fb option) list" where
  "guidance status mode =
     (if mode = 0
      then if left_green status > right_green status then [draw_long_left_arrow 31 27 GREEN]
           else if right_green status > left_green status then [draw_long_right_arrow 37 27 GREEN]
           else [draw_long_left_arrow 31 27 GREEN, draw_long_right_arrow 37 27 GREEN]
      else map (\<lambda>i. draw_when (status ! i = 0) (draw_small_up_arrow (car_x i + 2) 25 GREEN)) [0..<8])"

lemma draw_up_arrows_ops:
  assumes "length status = 8"
  shows "\<forall>i \<in> set is. i < 8 \<Longrightarrow> draw_up_arrows status is img
    = draw_all (map (\<lambda>i. draw_when (status ! i = 0) (draw_small_up_arrow (car_x i + 2) 25 GREEN)) is) img"
proof (induction "is" arbitrary: img)
  case (Cons i "is")
  then have "c_load status (int i) = Some (status ! i)" using assms by (simp add: c_load_nat)
  then show ?case using Cons
    by (cases "draw_when (status ! i = 0) (draw_small_up_arrow (car_x i + 2) 25 GREEN) img") (simp_all add: car_x_def)
qed simp

definition dashboard_ops :: "u8 list \<Rightarrow> u8 \<Rightarrow> (fb \<Rightarrow> fb option) list" where
  "dashboard_ops status mode = map (draw_car status) [0..<8] @
     [Paint_DrawPoint 6 16 WHITE DOT_PIXEL_2X2 DOT_FILL_AROUND,
      draw_center_triangle_marker 34 21 RED,
      Paint_DrawRectangle 1 24 64 32 BLACK DOT_PIXEL_1X1 DRAW_FILL_FULL] @ guidance status mode"

lemma green_counts:
  "length (filter (\<lambda>i. status ! i = 0 \<and> i < 4) [0..<8]) = left_green status"
  "length (filter (\<lambda>i. status ! i = 0 \<and> \<not> i < 4) [0..<8]) = right_green status"
proof -
  have "[0..<8] = [0, 1, 2, 3, 4, 5, 6, 7 :: nat]" "[0..<4] = [0, 1, 2, 3 :: nat]" "[4..<8] = [4, 5, 6, 7 :: nat]"
    by code_simp+
  then show "length (filter (\<lambda>i. status ! i = 0 \<and> i < 4) [0..<8]) = left_green status"
    "length (filter (\<lambda>i. status ! i = 0 \<and> \<not> i < 4) [0..<8]) = right_green status"
    by (simp_all add: left_green_def right_green_def)
qed

lemma green_bound: "left_green status \<le> 4" "right_green status \<le> 4"
  using length_filter_le [of "\<lambda>i. status ! i = 0" "[0..<4]"] length_filter_le [of "\<lambda>i. status ! i = 0" "[4..<8]"]
  by (simp_all add: left_green_def right_green_def)

lemma StatusRow_ops:
  assumes "length status = 8"
  shows "Screen_Show_StatusRow status mode img = draw_all (dashboard_ops status mode) img"
proof -
  let ?mid = "[Paint_DrawPoint 6 16 WHITE DOT_PIXEL_2X2 DOT_FILL_AROUND,
      draw_center_triangle_marker 34 21 RED,
      Paint_DrawRectangle 1 24 64 32 BLACK DOT_PIXEL_1X1 DRAW_FILL_FULL]"
  let ?L = "of_nat (left_green status) :: u8" and ?R = "of_nat (right_green status) :: u8"
  have cars: "draw_cars status [0..<8] 0 0 img = map_option (\<lambda>img. (?L, ?R, img)) (draw_all (map (draw_car status) [0..<8]) img)"
    using draw_cars_ops [OF assms, of "[0..<8]" 0 0 img] unfolding green_counts by (simp del: upt_rec_numeral)
  have cmp: "?L > ?R \<longleftrightarrow> left_green status > right_green status" "?R > ?L \<longleftrightarrow> right_green status > left_green status"
    using green_bound [of status] by (simp_all add: word_less_nat_alt)
  have guide: "(\<lambda>img. if mode = 0
     then if ?L > ?R then draw_long_left_arrow (34 - 3) 27 GREEN img
          else if ?R > ?L then draw_long_right_arrow (34 + 3) 27 GREEN img
          else draw_all [draw_long_left_arrow (34 - 3) 27 GREEN, draw_long_right_arrow (34 + 3) 27 GREEN] img
     else draw_up_arrows status [0..<8] img) = draw_all (guidance status mode)"
    using draw_up_arrows_ops [OF assms, of "[0..<8]"] unfolding cmp guidance_def by (intro ext) simp
  show ?thesis
    unfolding Screen_Show_StatusRow_def Let_def cars dashboard_ops_def draw_all_append guide
    by (cases "draw_all (map (draw_car status) [0..<8]) img") (simp_all only: option.map bind.simps prod.case guide)
qed

section \<open>Where they draw\<close>

lemma within_thin_line: "box 0 Xs Ys Xe Ye \<subseteq> R \<Longrightarrow> stays_in R (thin_line Xs Ys Xe Ye c)"
  by (rule within_mono [OF within_line_1x1])

lemma within_thin_point: "(uint X, uint Y) \<in> R \<Longrightarrow> stays_in R (thin_point X Y c)"
  by (rule within_mono [OF within_point_1x1]) simp

lemma within_fill:
  "between Xs Xe \<times> {uint Ys..<uint Ye} \<subseteq> R \<Longrightarrow> stays_in R (Paint_DrawRectangle Xs Ys Xe Ye c DOT_PIXEL_1X1 DRAW_FILL_FULL)"
  by (rule within_mono [OF within_filled])

lemma within_frame:
  "frame_cells Xs Ys Xe Ye \<subseteq> R \<Longrightarrow> stays_in R (Paint_DrawRectangle Xs Ys Xe Ye c DOT_PIXEL_1X1 DRAW_FILL_EMPTY)"
  by (rule within_mono [OF within_outline])

lemma within_thick_line:
  assumes "uint Xs + dot_size w \<le> 129" "uint Xe + dot_size w \<le> 129"
    and "uint Ys + dot_size w \<le> 33" "uint Ye + dot_size w \<le> 33" "box (dot_size w - 1) Xs Ys Xe Ye \<subseteq> R"
  shows "stays_in R (Paint_DrawLine Xs Ys Xe Ye c w LINE_STYLE_SOLID)"
  by (rule within_mono [OF within_line]) (use assms in auto)

lemmas within_ops = region.ok_intros within_thin_line within_thin_point within_fill within_frame

lemmas region_defs = box_def between_def frame_cells_def

lemma uint_add16: "uint (x :: u16) + uint k < 65536 \<Longrightarrow> uint (x + k) = uint x + uint k"
  using uint_add_lem [of x k] by simp

lemma within_digit:
  assumes "uint x \<le> 128" and "uint y \<le> 128" and "{uint x..uint x + 2} \<times> {uint y..uint y + 4} \<subseteq> R"
  shows "stays_in R (draw_tiny_7seg_digit x y digit color)"
proof (cases "digit > 9")
  case True
  then show ?thesis by (simp add: stays_in_def draw_tiny_7seg_digit_def)
next
  case False
  then have "unat digit < length seg_map" by (simp add: word_less_nat_alt seg_map_def)
  then obtain m where m: "c_load seg_map (uint digit) = Some m" using c_load_unat by blast
  have u: "uint (x + 2) = uint x + 2" "uint (y + 2) = uint y + 2" "uint (y + 4) = uint y + 4"
    using assms(1,2) by (simp_all add: uint_add16)
  have eq: "draw_tiny_7seg_digit x y digit color = draw_all
          [draw_when (m AND 0x01 \<noteq> 0) (thin_line x y (x + 2) y color),
           draw_when (m AND 0x02 \<noteq> 0) (thin_line (x + 2) y (x + 2) (y + 2) color),
           draw_when (m AND 0x04 \<noteq> 0) (thin_line (x + 2) (y + 2) (x + 2) (y + 4) color),
           draw_when (m AND 0x08 \<noteq> 0) (thin_line x (y + 4) (x + 2) (y + 4) color),
           draw_when (m AND 0x10 \<noteq> 0) (thin_line x (y + 2) x (y + 4) color),
           draw_when (m AND 0x20 \<noteq> 0) (thin_line x y x (y + 2) color),
           draw_when (m AND 0x40 \<noteq> 0) (thin_line x (y + 2) (x + 2) (y + 2) color)]"
    using False m by (intro ext) (simp add: draw_tiny_7seg_digit_def)
  have "box 0 X Y X' Y' \<subseteq> R" if "uint X \<in> {uint x, uint x + 2}" "uint X' \<in> {uint x, uint x + 2}"
    "uint Y \<in> {uint y, uint y + 2, uint y + 4}" "uint Y' \<in> {uint y, uint y + 2, uint y + 4}" for X Y X' Y'
    by (rule order_trans [OF _ assms(3)]) (use that in \<open>auto simp: box_def\<close>)
  then show ?thesis unfolding eq by (intro within_ops) (simp_all add: u)
qed

lemma below_8: "i < 8 \<Longrightarrow> (\<And>k. k \<in> {0, 1, 2, 3, 4, 5, 6, 7} \<Longrightarrow> P k) \<Longrightarrow> P i" for i :: nat
  by (simp add: less_eq_Suc_le numeral_eq_Suc le_Suc_eq)

lemma car_x_eq: "i < 8 \<Longrightarrow> uint (car_x i) = 7 + 7 * int i"
  by (erule below_8) (auto simp: car_x_def)

lemma car_x_add: "i < 8 \<Longrightarrow> uint k < 1000 \<Longrightarrow> uint (car_x i + k) = 7 + 7 * int i + uint k"
  using uint_add16 [of "car_x i" k] car_x_eq [of i] by simp

lemma car_x_add': "i < 8 \<Longrightarrow> uint k < 1000 \<Longrightarrow> uint (k + car_x i) = 7 + 7 * int i + uint k"
  using car_x_add [of i k] by (simp add: add.commute)

lemma car_x_sub: "i < 8 \<Longrightarrow> uint (car_x i + 5 - 2) = 10 + 7 * int i" "i < 8 \<Longrightarrow> uint (car_x i + 5 - 1) = 11 + 7 * int i"
  using car_x_add [of i 3] car_x_add [of i 4] by (simp_all add: add_diff_eq [symmetric])

lemma within_car:
  assumes "length status = 8" and "i < 8"
  shows "stays_in ({7 + 7 * int i..13 + 7 * int i} \<times> {6..21}) (draw_car status i)"
proof -
  note x = car_x_eq [OF assms(2)] car_x_add [OF assms(2)] car_x_add' [OF assms(2)] car_x_sub [OF assms(2)]
  show ?thesis unfolding draw_car_ops [OF assms] car_ops_def
    by (intro within_ops within_digit) (use assms(2) in \<open>auto simp: x region_defs\<close>)
qed

lemma within_left_arrow: "stays_in ({3..32} \<times> {24..30}) (draw_long_left_arrow 31 27 color)"
  unfolding draw_long_left_arrow_def by (intro within_ops within_thick_line) (auto simp: region_defs)

lemma within_right_arrow: "stays_in ({36..62} \<times> {24..30}) (draw_long_right_arrow 37 27 color)"
  unfolding draw_long_right_arrow_def by (intro within_ops within_thick_line) (auto simp: region_defs)

lemma car_x_minus: "i < 8 \<Longrightarrow> uint (car_x i + 2 - 1) = 8 + 7 * int i" "i < 8 \<Longrightarrow> uint (car_x i + 2 - 2) = 7 + 7 * int i"
  using car_x_add [of i 1] car_x_eq [of i] by (simp_all add: add_diff_eq [symmetric])

lemma within_up_arrow:
  assumes "i < 8"
  shows "stays_in ({7 + 7 * int i..11 + 7 * int i} \<times> {25..30}) (draw_small_up_arrow (car_x i + 2) 25 color)"
proof -
  note x = car_x_eq [OF assms] car_x_add [OF assms] car_x_add' [OF assms] car_x_minus [OF assms]
  show ?thesis unfolding draw_small_up_arrow_def
    by (intro within_ops) (use assms in \<open>auto simp: x region_defs\<close>)
qed

lemma within_marker: "stays_in ({31..37} \<times> {21..24}) (draw_center_triangle_marker 34 21 color)"
  unfolding draw_center_triangle_marker_def by (intro within_ops) (auto simp: region_defs)

lemma within_guidance: "list_all (stays_in (UNIV \<times> {24..30})) (guidance status mode)"
proof -
  have "stays_in (UNIV \<times> {24..30}) (draw_long_left_arrow 31 27 GREEN)"
    by (rule within_mono [OF within_left_arrow]) auto
  moreover have "stays_in (UNIV \<times> {24..30}) (draw_long_right_arrow 37 27 GREEN)"
    by (rule within_mono [OF within_right_arrow]) auto
  moreover have "stays_in (UNIV \<times> {24..30}) (draw_when b (draw_small_up_arrow (car_x i + 2) 25 GREEN))" if "i < 8" for i b
    by (intro region.ok_when within_mono [OF within_up_arrow [OF that]]) auto
  ultimately show ?thesis unfolding guidance_def by (auto simp: list_all_iff simp del: upt_rec_numeral)
qed

lemma within_dot: "stays_in ({5..7} \<times> {15..17}) (Paint_DrawPoint 6 16 c DOT_PIXEL_2X2 DOT_FILL_AROUND)"
  by (rule within_mono [OF within_point]) auto

lemma within_clear: "stays_in ({1..64} \<times> {24..31}) (Paint_DrawRectangle 1 24 64 32 c DOT_PIXEL_1X1 DRAW_FILL_FULL)"
  by (rule within_mono [OF within_filled]) (auto simp: between_def)

section \<open>What they show\<close>

text \<open>
  The body of a car inside its white outline: a dark window, and around it the bar in the colour of the status.
\<close>

definition car_window :: "nat \<Rightarrow> (int \<times> int) set" where
  "car_window i = {9 + 7 * int i..10 + 7 * int i} \<times> {14..16}"

definition car_bar :: "nat \<Rightarrow> (int \<times> int) set" where
  "car_bar i = {8 + 7 * int i..11 + 7 * int i} \<times> {13..18} - car_window i"

definition shows_cars :: "u8 list \<Rightarrow> fb \<Rightarrow> bool" where
  "shows_cars status img \<longleftrightarrow> (\<forall>i < 8. (\<forall>(x, y) \<in> car_bar i. pixel img x y = ucast (status_to_color (status ! i))) \<and>
     (\<forall>(x, y) \<in> car_window i. pixel img x y = ucast BLACK))"

lemma body_visible: "i < 8 \<Longrightarrow> p \<in> car_bar i \<union> car_window i \<Longrightarrow> visible (fst p) (snd p)"
  by (auto simp: car_bar_def car_window_def visible_def)

lemma car_bar_coloured:
  assumes "length status = 8" and "i < 8" and p: "p \<in> car_bar i"
  shows "sets_to p (status_to_color (status ! i)) (draw_car status i)"
proof -
  note x = car_x_eq [OF assms(2)] car_x_add [OF assms(2)] car_x_add' [OF assms(2)] car_x_sub [OF assms(2)]
  let ?gs = "drop 2 (car_ops status i)"
  have vis: "visible (fst p) (snd p)" using body_visible [OF assms(2)] p by simp
  obtain X Y where XY: "p = (X, Y)" by (cases p)
  have fill: "sets_to p (status_to_color (status ! i))
        (Paint_DrawRectangle (car_x i) 12 (car_x i + 5) 19 (status_to_color (status ! i)) DOT_PIXEL_1X1 DRAW_FILL_FULL)"
    by (rule sets_filled [OF _ _ _ _ _ vis])
      (use assms(2) p in \<open>auto simp: XY car_bar_def on_matrix_def between_def x\<close>)
  have "list_all (stays_in (- {p})) ?gs"
    unfolding car_ops_def
    by (simp, intro conjI within_ops) (use assms(2) p in \<open>auto simp: XY car_bar_def car_window_def x region_defs\<close>)
  then have rest: "list_all (keeps p) ?gs" unfolding keeps_def .
  have "sets_to p (status_to_color (status ! i)) (draw_all
      ([draw_tiny_7seg_digit (car_x i + (if i \<ge> 1 then 2 else 1)) 6 (of_nat (i + 1)) WHITE] @
       Paint_DrawRectangle (car_x i) 12 (car_x i + 5) 19 (status_to_color (status ! i)) DOT_PIXEL_1X1 DRAW_FILL_FULL # ?gs))"
    by (rule sets_sequence [OF _ fill rest vis]) (simp add: total_digit)
  then show ?thesis unfolding draw_car_ops [OF assms(1,2)] by (simp add: car_ops_def)
qed

lemma car_window_dark:
  assumes "length status = 8" and "i < 8" and p: "p \<in> car_window i"
  shows "sets_to p BLACK (draw_car status i)"
proof -
  note x = car_x_eq [OF assms(2)] car_x_add [OF assms(2)] car_x_add' [OF assms(2)] car_x_sub [OF assms(2)]
  let ?fs = "take 3 (car_ops status i)" and ?gs = "drop 4 (car_ops status i)"
  have vis: "visible (fst p) (snd p)" using body_visible [OF assms(2)] p by simp
  obtain X Y where XY: "p = (X, Y)" by (cases p)
  have fill: "sets_to p BLACK
        (Paint_DrawRectangle (car_x i + 2) (12 + 2) (car_x i + 5 - 2) (19 - 2) BLACK DOT_PIXEL_1X1 DRAW_FILL_FULL)"
    by (rule sets_filled [OF _ _ _ _ _ vis])
      (use assms(2) p in \<open>auto simp: XY car_window_def on_matrix_def between_def x\<close>)
  have "list_all (stays_in (- {p})) ?gs"
    unfolding car_ops_def
    by (simp, intro conjI within_ops) (use assms(2) p in \<open>auto simp: XY car_window_def x region_defs\<close>)
  then have rest: "list_all (keeps p) ?gs" unfolding keeps_def .
  have "list_all total_op ?fs" by (simp add: car_ops_def total_digit total_rectangle_1x1)
  then have "sets_to p BLACK (draw_all (?fs @
       Paint_DrawRectangle (car_x i + 2) (12 + 2) (car_x i + 5 - 2) (19 - 2) BLACK DOT_PIXEL_1X1 DRAW_FILL_FULL # ?gs))"
    by (rule sets_sequence [OF _ fill rest vis])
  then show ?thesis unfolding draw_car_ops [OF assms(1,2)] by (simp add: car_ops_def)
qed

lemma split_upto: "i < n \<Longrightarrow> map f [0..<n] = map f [0..<i] @ f i # map f [i + 1..<n]"
proof -
  assume "i < n"
  then have "[0..<n] = [0..<i] @ [i..<n]" using upt_add_eq_append [of 0 i "n - i"] by simp
  also have "[i..<n] = i # [i + 1..<n]" using \<open>i < n\<close> by (simp add: upt_conv_Cons)
  finally show ?thesis by simp
qed

lemma cars_total: "length status = 8 \<Longrightarrow> set is \<subseteq> {..<8} \<Longrightarrow> list_all total_op (map (draw_car status) is)"
  using within_total [OF within_car] by (auto simp: list_all_iff)

lemma dashboard_car:
  assumes "length status = 8" and "i < 8" and p: "p \<in> car_bar i \<union> car_window i" and "sets_to p c (draw_car status i)"
  shows "sets_to p c (draw_all (dashboard_ops status mode))"
proof -
  let ?rest = "map (draw_car status) [i + 1..<8] @
     [Paint_DrawPoint 6 16 WHITE DOT_PIXEL_2X2 DOT_FILL_AROUND,
      draw_center_triangle_marker 34 21 RED,
      Paint_DrawRectangle 1 24 64 32 BLACK DOT_PIXEL_1X1 DRAW_FILL_FULL] @ guidance status mode"
  have vis: "visible (fst p) (snd p)" using body_visible [OF assms(2) p] .
  have body: "fst p \<in> {8 + 7 * int i..11 + 7 * int i}" "snd p \<in> {13..18}" using p by (auto simp: car_bar_def car_window_def)
  have "keeps p (draw_car status k)" if "i < k" "k < 8" for k
    by (rule keeps_within [OF within_car [OF assms(1) that(2)]]) (use that body in auto)
  moreover have "list_all (keeps p) (guidance status mode)"
    using within_guidance [of status mode] body by (auto simp: list_all_iff intro!: keeps_within)
  moreover have "keeps p (Paint_DrawPoint 6 16 WHITE DOT_PIXEL_2X2 DOT_FILL_AROUND)"
    by (rule keeps_within [OF within_dot]) (use body in auto)
  moreover have "keeps p (draw_center_triangle_marker 34 21 RED)"
    by (rule keeps_within [OF within_marker]) (use body in auto)
  moreover have "keeps p (Paint_DrawRectangle 1 24 64 32 BLACK DOT_PIXEL_1X1 DRAW_FILL_FULL)"
    by (rule keeps_within [OF within_clear]) (use body in auto)
  ultimately have "list_all (keeps p) ?rest" by (auto simp: list_all_iff)
  then have "sets_to p c (draw_all (map (draw_car status) [0..<i] @ draw_car status i # ?rest))"
    using assms(2,4) by (intro sets_sequence vis cars_total assms(1)) auto
  then show ?thesis unfolding dashboard_ops_def split_upto [OF assms(2)] by simp
qed

text \<open>All cars, also after an operation that leaves their bodies alone.\<close>

lemma cars_shown:
  assumes "length status = 8" and "length img = 4096" and "draw_all (dashboard_ops status mode) img = Some mid"
    and "g mid = Some img'" and g: "\<And>i p. i < 8 \<Longrightarrow> p \<in> car_bar i \<union> car_window i \<Longrightarrow> keeps p g"
  shows "shows_cars status img'"
proof -
  have "pixel img' (fst p) (snd p) = ucast c" if "i < 8" "p \<in> car_bar i \<union> car_window i" "sets_to p c (draw_car status i)" for i p c
  proof -
    have "sets_to p c (\<lambda>img. Option.bind (draw_all (dashboard_ops status mode) img) g)"
      by (rule sets_then_keeps [OF dashboard_car [OF assms(1) that] g [OF that(1,2)] body_visible [OF that(1,2)]])
    then show ?thesis using assms(2-4) by (auto simp: sets_to_def)
  qed
  then show ?thesis
    using car_bar_coloured [OF assms(1)] car_window_dark [OF assms(1)] unfolding shows_cars_def by fastforce
qed

text \<open>The guidance area is cleared before the guidance is drawn.\<close>

lemma before_clear_total:
  assumes "length status = 8"
  shows "list_all total_op (map (draw_car status) [0..<8] @
    [Paint_DrawPoint 6 16 WHITE DOT_PIXEL_2X2 DOT_FILL_AROUND, draw_center_triangle_marker 34 21 RED])"
  using cars_total [OF assms, of "[0..<8]"] within_total [OF within_dot] within_total [OF within_marker]
  by (simp add: atLeast0LessThan)

lemma dashboard_split:
  "dashboard_ops status mode = (map (draw_car status) [0..<8] @
    [Paint_DrawPoint 6 16 WHITE DOT_PIXEL_2X2 DOT_FILL_AROUND, draw_center_triangle_marker 34 21 RED]) @
    Paint_DrawRectangle 1 24 64 32 BLACK DOT_PIXEL_1X1 DRAW_FILL_FULL # guidance status mode"
  by (simp add: dashboard_ops_def)

lemma dashboard_black:
  assumes "length status = 8" and "list_all (keeps p) (guidance status mode)"
    and "1 \<le> fst p" "fst p \<le> 64" "24 \<le> snd p" "snd p \<le> 31"
  shows "sets_to p BLACK (draw_all (dashboard_ops status mode))"
proof -
  have vis: "visible (fst p) (snd p)" using assms by (simp add: visible_def)
  have "sets_to p BLACK (Paint_DrawRectangle 1 24 64 32 BLACK DOT_PIXEL_1X1 DRAW_FILL_FULL)"
    by (rule sets_filled [OF _ _ _ _ _ vis]) (use assms in \<open>auto simp: on_matrix_def between_def\<close>)
  then show ?thesis unfolding dashboard_split
    by (rule sets_sequence [OF before_clear_total [OF assms(1)] _ assms(2) vis])
qed

lemma dashboard_green:
  assumes "length status = 8" and g: "guidance status mode = xs @ f # ys" and "sets_to p GREEN f"
    and "list_all (keeps p) ys" and "visible (fst p) (snd p)"
  shows "sets_to p GREEN (draw_all (dashboard_ops status mode))"
proof -
  let ?fs = "(map (draw_car status) [0..<8] @
    [Paint_DrawPoint 6 16 WHITE DOT_PIXEL_2X2 DOT_FILL_AROUND, draw_center_triangle_marker 34 21 RED]) @
    [Paint_DrawRectangle 1 24 64 32 BLACK DOT_PIXEL_1X1 DRAW_FILL_FULL] @ xs"
  have "list_all total_op xs"
    using within_guidance [of status mode] unfolding g by (auto simp: list_all_iff intro: within_total)
  then have "list_all total_op ?fs"
    using before_clear_total [OF assms(1)] within_total [OF within_clear] by simp
  from sets_sequence [OF this assms(3-5)] show ?thesis unfolding dashboard_split g by simp
qed

lemma sets_line_dot:
  assumes "visible (uint X) (uint Y)"
  shows "sets_to (uint X, uint Y) c (thin_line X Y X Y c)"
proof -
  have "(uint X, uint Y) \<in> points_of (line_points X Y X Y)"
    unfolding horizontal_points by (simp add: between_def)
  moreover have "on_matrix X Y" using assms by (simp add: visible_def on_matrix_def)
  ultimately show ?thesis using line_1x1_draws [of _ X Y X Y c] assms unfolding sets_to_def by fastforce
qed

lemma left_tip: "sets_to (3, 27) GREEN (draw_long_left_arrow 31 27 GREEN)"
proof -
  have "sets_to (3, 27) GREEN (draw_all ([] @ thin_line 3 27 3 27 GREEN #
     [thin_line 4 (27 - 1) 4 (27 + 1) GREEN, thin_line 5 (27 - 2) 5 (27 + 2) GREEN, thin_line 6 (27 - 3) 6 (27 + 3) GREEN,
      Paint_DrawLine 7 27 31 27 GREEN DOT_PIXEL_2X2 LINE_STYLE_SOLID]))"
  proof (rule sets_sequence)
    show "sets_to (3, 27) GREEN (thin_line 3 27 3 27 GREEN)"
      using sets_line_dot [of 3 27 GREEN] by (simp add: visible_def)
  qed (auto simp: visible_def keeps_def region_defs intro!: within_thin_line within_thick_line)
  then show ?thesis by (simp add: draw_long_left_arrow_def)
qed

lemma right_tip: "sets_to (62, 27) GREEN (draw_long_right_arrow 37 27 GREEN)"
proof -
  have "sets_to (62, 27) GREEN (draw_all ([] @ thin_line 62 27 62 27 GREEN #
     [thin_line 61 (27 - 1) 61 (27 + 1) GREEN, thin_line 60 (27 - 2) 60 (27 + 2) GREEN, thin_line 59 (27 - 3) 59 (27 + 3) GREEN,
      Paint_DrawLine 37 27 58 27 GREEN DOT_PIXEL_2X2 LINE_STYLE_SOLID]))"
  proof (rule sets_sequence)
    show "sets_to (62, 27) GREEN (thin_line 62 27 62 27 GREEN)"
      using sets_line_dot [of 62 27 GREEN] by (simp add: visible_def)
  qed (auto simp: visible_def keeps_def region_defs intro!: within_thin_line within_thick_line)
  then show ?thesis by (simp add: draw_long_right_arrow_def)
qed

lemma tips_apart: "keeps (3, 27) (draw_long_right_arrow 37 27 c)" "keeps (62, 27) (draw_long_left_arrow 31 27 c)"
  by (rule keeps_within [OF within_right_arrow] keeps_within [OF within_left_arrow]; simp)+

lemma up_arrow_tip:
  assumes "i < 8"
  shows "sets_to (9 + 7 * int i, 25) GREEN (draw_small_up_arrow (car_x i + 2) 25 GREEN)"
proof -
  note x = car_x_eq [OF assms] car_x_add [OF assms] car_x_add' [OF assms] car_x_minus [OF assms]
  let ?X = "car_x i + 2"
  have vis: "visible (9 + 7 * int i) 25" using assms by (simp add: visible_def)
  have "sets_to (9 + 7 * int i, 25) GREEN (draw_all ([] @ thin_point ?X 25 GREEN #
     [thin_line (?X - 1) (25 + 1) (?X + 1) (25 + 1) GREEN, thin_line (?X - 2) (25 + 2) (?X + 2) (25 + 2) GREEN,
      thin_line ?X (25 + 3) ?X (25 + 5) GREEN]))"
  proof (rule sets_sequence)
    show "sets_to (9 + 7 * int i, 25) GREEN (thin_point ?X 25 GREEN)"
      using vis assms by (intro sets_point) (simp_all add: x)
  qed (use vis in \<open>auto simp: keeps_def region_defs intro!: within_thin_line\<close>)
  then show ?thesis by (simp add: draw_small_up_arrow_def)
qed

lemma StatusRow_total:
  assumes "length status = 8"
  shows "total_op (Screen_Show_StatusRow status mode)"
proof -
  have "list_all total_op (guidance status mode)"
    using within_guidance [of status mode] by (auto simp: list_all_iff intro: within_total)
  then have "total_op (draw_all (dashboard_ops status mode))" unfolding dashboard_split
    using before_clear_total [OF assms] within_total [OF within_clear] by (intro total.ok_draw_all) simp
  then show ?thesis by (simp add: total_op_def StatusRow_ops [OF assms])
qed

lemma unat_clamped: "unat (word_of_int (clamp_int v 1 63) :: u16) \<le> 63"
proof -
  have "0 \<le> clamp_int v 1 63" "clamp_int v 1 63 \<le> 63" by (auto simp: clamp_int_def)
  then show ?thesis by (simp add: unat_word_of_int16)
qed

lemma train_total:
  "total_op (\<lambda>img. map_option snd (Screen_Show_Train code off last_dest img))"
proof -
  let ?top = "if code = 1 then c_lit ''DAEWHA'' else if code = 2 then c_lit ''GUPABAL'' else c_lit ''LINE 3''"
  have pt: "list_all printable ?top" "length ?top \<le> 7" by simp_all
  have top_text: "total_op (draw_text_with_gap (word_of_int (clamp_int v 1 63)) 4 ?top Font12 BLACK WHITE 2)" for v
  proof (rule total_text [OF _ tables_small(2)])
    have "length ?top * 9 \<le> 63" using pt(2) by simp
    then show "unat (word_of_int (clamp_int v 1 63) :: u16) + length ?top * (font_Width Font12 + unat (2 :: u8)) \<le> 128"
      using unat_clamped [of v] by (simp del: length_c_lit)
  qed (use pt in \<open>simp_all add: in_font_fun\<close>)
  have bottom_text: "total_op (draw_text_with_gap (word_of_int (clamp_int v 1 63)) 18 (c_lit ''ARRIVAL'') Font8 BLACK YELLOW 2)" for v
    by (rule total_text [OF _ tables_small(1)]) (use unat_clamped [of v] in \<open>simp_all add: in_font_fun\<close>)
  let ?f = "\<lambda>v. draw_when (last_dest \<noteq> code \<or> off = 0) (draw_all
          [Paint_DrawRectangle 1 1 64 16 BLACK DOT_PIXEL_1X1 DRAW_FILL_FULL,
           draw_text_with_gap (word_of_int (clamp_int v 1 63)) 4 ?top Font12 BLACK WHITE 2])"
  let ?g = "\<lambda>v. draw_all
          [Paint_DrawRectangle 1 17 64 32 BLACK DOT_PIXEL_1X1 DRAW_FILL_FULL,
           draw_text_with_gap (word_of_int (clamp_int v 1 63)) 18 (c_lit ''ARRIVAL'') Font8 BLACK YELLOW 2,
           Paint_DrawRectangle 1 1 64 32 RED DOT_PIXEL_1X1 DRAW_FILL_EMPTY]"
  have "total_op (?f v)" for v by (intro total_intros top_text)
  moreover have "total_op (?g v)" for v by (intro total_intros bottom_text)
  ultimately have fg: "total_op (\<lambda>img. Option.bind (?f v img) (?g w))" for v w by (rule total_bind)
  show ?thesis
    unfolding total_op_def
  proof (intro allI impI)
    fix img :: fb assume len: "length img = 4096"
    let ?v = "cdiv (64 - uint (text_width_with_gap ?top Font12 2)) 2"
    let ?w = "cdiv (64 - uint (text_width_with_gap (c_lit ''ARRIVAL'') Font8 2)) 2 + off"
    obtain img' where "Option.bind (?f ?v img) (?g ?w) = Some img'" "length img' = 4096"
      using fg [of ?v ?w] len by (rule total_opE)
    then show "\<exists>img'. map_option snd (Screen_Show_Train code off last_dest img) = Some img' \<and> length img' = 4096"
      unfolding Screen_Show_Train_def Let_def by (auto simp: bind_eq_Some_conv simp del: draw_all.simps)
  qed
qed

text \<open>The tips of the arrows, in each mode.\<close>

lemma side_tips:
  assumes "length status = 8" and "mode = 0"
  shows "sets_to (3, 27) (if left_green status \<ge> right_green status then GREEN else BLACK) (draw_all (dashboard_ops status mode))"
    and "sets_to (62, 27) (if right_green status \<ge> left_green status then GREEN else BLACK) (draw_all (dashboard_ops status mode))"
proof -
  let ?l = "left_green status" and ?r = "right_green status"
  consider "?l > ?r" | "?r > ?l" | "?l = ?r" by linarith
  note g = guidance_def
  have vis: "visible (fst (3, 27)) (snd (3, 27))" "visible (fst (62, 27)) (snd (62, 27))" by (simp_all add: visible_def)
  show "sets_to (3, 27) (if ?l \<ge> ?r then GREEN else BLACK) (draw_all (dashboard_ops status mode))"
  proof (cases "?l \<ge> ?r")
    case True
    then obtain ys where "guidance status mode = [] @ draw_long_left_arrow 31 27 GREEN # ys" "list_all (keeps (3, 27)) ys"
      using assms(2) tips_apart that [of "[]"] that [of "[draw_long_right_arrow 37 27 GREEN]"]
      by (cases "?l = ?r") (simp_all add: g)
    from dashboard_green [OF assms(1) this(1) left_tip this(2) vis(1)] True show ?thesis by simp
  next
    case False
    then show ?thesis using assms(2) tips_apart by (auto simp: g intro!: dashboard_black [OF assms(1)])
  qed
  show "sets_to (62, 27) (if ?r \<ge> ?l then GREEN else BLACK) (draw_all (dashboard_ops status mode))"
  proof (cases "?r \<ge> ?l")
    case True
    then obtain xs where "guidance status mode = xs @ draw_long_right_arrow 37 27 GREEN # []"
      using assms(2) that [of "[]"] that [of "[draw_long_left_arrow 31 27 GREEN]"]
      by (cases "?l = ?r") (simp_all add: g)
    from dashboard_green [OF assms(1) this right_tip _ vis(2)] True show ?thesis by simp
  next
    case False
    then show ?thesis using assms(2) tips_apart by (auto simp: g intro!: dashboard_black [OF assms(1)])
  qed
qed

lemma platform_tip:
  assumes "length status = 8" and "mode \<noteq> 0" and "i < 8"
  shows "sets_to (9 + 7 * int i, 25) (if status ! i = 0 then GREEN else BLACK) (draw_all (dashboard_ops status mode))"
proof -
  let ?p = "(9 + 7 * int i, 25) :: int \<times> int"
  let ?a = "\<lambda>i. draw_when (status ! i = 0) (draw_small_up_arrow (car_x i + 2) 25 GREEN)"
  have vis: "visible (fst ?p) (snd ?p)" using assms(3) by (simp add: visible_def)
  have g: "guidance status mode = map ?a [0..<i] @ ?a i # map ?a [i + 1..<8]"
    using assms(2) split_upto [OF assms(3), of ?a] by (simp add: guidance_def)
  have others: "keeps ?p (?a k)" if "k < 8" "k \<noteq> i" for k
    by (rule keeps_within [OF region.ok_when [OF within_up_arrow [OF that(1)]]]) (use that in auto)
  show ?thesis
  proof (cases "status ! i = 0")
    case True
    then have "sets_to ?p GREEN (?a i)" using up_arrow_tip [OF assms(3)] by (simp add: draw_when_def)
    moreover have "list_all (keeps ?p) (map ?a [i + 1..<8])" using others by (auto simp: list_all_iff)
    ultimately show ?thesis using dashboard_green [OF assms(1) g _ _ vis] True by simp
  next
    case False
    then have "keeps ?p (?a i)" by (simp add: draw_when_def keeps_def within_Some)
    then have "list_all (keeps ?p) (guidance status mode)" unfolding g using others assms(3) by (auto simp: list_all_iff)
    then show ?thesis using False assms(3) by (auto intro!: dashboard_black [OF assms(1)])
  qed
qed

section \<open>The calls of the scheduler\<close>

text \<open>
  A call of \<open>matrix_run.c\<close>, carried out on the last train destination drawn and the frame buffer.
  An announcement draws nothing.
\<close>

definition do_call :: "DB_Data_t \<Rightarrow> call \<Rightarrow> u8 \<times> fb \<Rightarrow> (u8 \<times> fb) option" where
  "do_call d c st = (case st of (last_dest, img) \<Rightarrow>
     (case c of
        Call_Clear \<Rightarrow> map_option (Pair last_dest) (HUB75_Clear img)
      | Call_StatusRow status mode \<Rightarrow> map_option (Pair last_dest) (Screen_Show_StatusRow status mode img)
      | Call_Border \<Rightarrow> map_option (Pair last_dest) (Paint_DrawRectangle 1 1 64 32 RED DOT_PIXEL_1X1 DRAW_FILL_EMPTY img)
      | Call_CO2 \<Rightarrow> map_option (Pair last_dest) (Screen_Show_CO2 d img)
      | Call_TempHum \<Rightarrow> map_option (Pair last_dest) (Screen_Show_TempHum d img)
      | Call_Train code off \<Rightarrow> Screen_Show_Train code off last_dest img
      | Call_Guide status \<Rightarrow> Some (last_dest, img)))"

fun do_calls :: "DB_Data_t \<Rightarrow> call list \<Rightarrow> u8 \<times> fb \<Rightarrow> (u8 \<times> fb) option" where
  "do_calls d [] st = Some st"
| "do_calls d (c # cs) st = Option.bind (do_call d c st) (do_calls d cs)"

lemma do_call_safe:
  assumes "measurable d" and "call_ok c" and "length img = 4096"
  shows "\<exists>last' img'. do_call d c (last_dest, img) = Some (last', img') \<and> length img' = 4096"
proof -
  have lift: "\<exists>img'. f img = Some img' \<and> length img' = 4096" if "total_op f" for f
    using that assms(3) by (simp add: total_op_def)
  show ?thesis
  proof (cases c)
    case (Call_Train code off)
    obtain img' where "map_option snd (Screen_Show_Train code off last_dest img) = Some img'" "length img' = 4096"
      using train_total assms(3) by (rule total_opE)
    then show ?thesis using Call_Train by (auto simp: do_call_def)
  qed (use assms in \<open>auto simp: do_call_def intro: lift total_clear StatusRow_total total_rectangle_1x1 total_CO2 total_TempHum\<close>)
qed

lemma do_calls_safe:
  "list_all call_ok cs \<Longrightarrow> measurable d \<Longrightarrow> length (snd st) = 4096 \<Longrightarrow>
    \<exists>st'. do_calls d cs st = Some st' \<and> length (snd st') = 4096"
proof (induction cs arbitrary: st)
  case (Cons c cs)
  obtain last' img' where "do_call d c st = Some (last', img')" "length img' = 4096"
    using do_call_safe [of d c "snd st" "fst st"] Cons.prems by auto
  then show ?case using Cons.IH [of "(last', img')"] Cons.prems by simp
qed simp

section \<open>Properties\<close>

text \<open>
  C23: Whatever the scheduler of the screens decides to draw in any state it can reach, carrying out
  its calls in order never stores outside the frame buffer and never reads outside a font table, for
  every measurement up to a hundred million.
\<close>

lemma screens_never_leave_buffer:
  assumes "matrix_reachable s" and "matrix_step s cs t" and "measurable d" and "length img = 4096"
  shows "\<exists>last' img'. do_calls d cs (last_dest, img) = Some (last', img') \<and> length img' = 4096"
proof -
  have "list_all call_ok cs" using matrix_step_inv [OF assms(2) matrix_machine.reached_inv [OF assms(1)]] by blast
  then show ?thesis using do_calls_safe [of cs d "(last_dest, img)"] assms(3,4) by auto
qed

lemma screens_never_leave_buffer_witness:
  "\<exists>last' img'. do_calls Data_Manager_Init (fst (MatrixRun_Run 10000 (snd (MatrixRun_Init 0 0 0 matrix_power_on))))
    (0xFF, replicate 4096 0) = Some (last', img') \<and> length img' = 4096"
  by (rule screens_never_leave_buffer [OF matrix_reachable_init [of 0 0 0]
        matrix_step.run [of 10000, OF prod.collapse [symmetric]]])
    (simp_all add: measurable_def Data_Manager_Init_def)

text \<open>
  C24: The dashboard shows for each of the eight cars the colour of its status: green, yellow, red, or white for
  an unknown one. Inside the outline of the car, columns 8 to 11 and rows 13 to 18, moved by 7 columns from car to
  car, every point has this colour, but for the window of two columns and three rows in the middle, which is black.
  Nothing that is drawn afterwards covers any of these points.
\<close>

theorem dashboard_shows_congestion:
  assumes "length status = 8" and "length img = 4096"
  shows "\<exists>img'. Screen_Show_StatusRow status mode img = Some img' \<and> length img' = 4096 \<and>
    (\<forall>i < 8. (\<forall>(x, y) \<in> car_bar i. pixel img' x y = ucast (status_to_color (status ! i))) \<and>
      (\<forall>(x, y) \<in> car_window i. pixel img' x y = ucast BLACK))"
proof -
  obtain img' where i: "Screen_Show_StatusRow status mode img = Some img'" "length img' = 4096"
    using StatusRow_total [OF assms(1)] assms(2) by (rule total_opE)
  then have "shows_cars status img'"
    using cars_shown [OF assms, of mode img' Some] StatusRow_ops [OF assms(1)] by (simp add: spared.ok_nothing)
  then show ?thesis using i unfolding shows_cars_def by blast
qed

lemma dashboard_shows_congestion_witness:
  "\<exists>img'. Screen_Show_StatusRow [2, 0, 1, 1, 0, 2, 1, 0] 0 (replicate 4096 0) = Some img' \<and> length img' = 4096 \<and>
    (\<forall>i < 8. (\<forall>(x, y) \<in> car_bar i. pixel img' x y = ucast (status_to_color ([2, 0, 1, 1, 0, 2, 1, 0] ! i))) \<and>
      (\<forall>(x, y) \<in> car_window i. pixel img' x y = ucast BLACK))"
  by (rule dashboard_shows_congestion) simp_all

text \<open>
  C25: The guidance points to room. In the side mode the tip of the left arrow is green exactly when
  the left half has at least as many green cars as the right one, and the tip of the right arrow in
  the mirror case, so that at a tie both are shown; otherwise the place is black. In the platform
  mode the tip of the arrow at each car is green exactly when its status is, and black otherwise.
\<close>

lemma guidance_points_to_room:
  assumes "length status = 8" and "length img = 4096"
  shows "\<exists>img'. Screen_Show_StatusRow status mode img = Some img' \<and>
    (if mode = 0
     then pixel img' 3 27 = ucast (if left_green status \<ge> right_green status then GREEN else BLACK) \<and>
          pixel img' 62 27 = ucast (if right_green status \<ge> left_green status then GREEN else BLACK)
     else (\<forall>i < 8. pixel img' (9 + 7 * int i) 25 = ucast (if status ! i = 0 then GREEN else BLACK)))"
proof -
  obtain img' where i: "Screen_Show_StatusRow status mode img = Some img'"
    using StatusRow_total [OF assms(1)] assms(2) by (rule total_opE)
  have shown: "pixel img' (fst p) (snd p) = ucast c" if "sets_to p c (draw_all (dashboard_ops status mode))" for p c
    using that assms(2) i by (auto simp: sets_to_def StatusRow_ops [OF assms(1)])
  note tips = side_tips [OF assms(1), THEN shown]
  show ?thesis using i tips platform_tip [OF assms(1), THEN shown] by (intro exI [of _ img']) auto
qed

lemma guidance_points_to_room_witness:
  "\<exists>img'. Screen_Show_StatusRow [2, 0, 1, 1, 0, 2, 1, 0] 1 (replicate 4096 0) = Some img' \<and>
    (\<forall>i < 8. pixel img' (9 + 7 * int i) 25 = ucast (if [2, 0, 1, 1, 0, 2, 1, 0] ! i = (0 :: u8) then GREEN else BLACK))"
  using guidance_points_to_room [of "[2, 0, 1, 1, 0, 2, 1, 0]" "replicate 4096 0" 1] by simp

end
