(* ===== verification/Main_Loop.thy ===== *)
theory Main_Loop
  imports Uart_Handler Screen_Contents
begin

text \<open>
  The main loop: \<open>Core/Src/app/app_task.c\<close> and the initialisation and loop of \<open>main\<close> in
  \<open>Core/Src/main.c\<close>, on the state of the whole system: the device, the screen (the last train
  destination drawn and the frame buffer) and the time of the last sensor reading. Interrupts come
  between the passes of the loop.
\<close>

record 'f system =
  sys_device :: "'f device"
  sys_screen :: "u8 \<times> fb"
  s_sensor_tick :: u32

text \<open>What one pass of the loop meets: readings of the clock and of the converters, and what the
  dispatcher meets.\<close>

record 'f pass =
  meets :: "'f surroundings"
  co_conversions :: "u32 option list"
  co2_conversions :: "u32 option list"
  sensor_now :: u32
  display_now :: u32
  audio_now1 :: u32
  audio_now2 :: u32
  audio_now3 :: u32

definition SENSOR_READ_INTERVAL_MS :: u32 where "SENSOR_READ_INTERVAL_MS = 10000"
definition SENSOR_EMA_ALPHA :: rat where "SENSOR_EMA_ALPHA = 1 / 10"

section \<open>Calls of the display scheduler\<close>

text \<open>Drawing goes to the screen, an announcement to the player.\<close>

definition carry_out_call :: "'f fatfs \<Rightarrow> bool \<Rightarrow> call \<Rightarrow> 'f system \<Rightarrow> 'f system option" where
  "carry_out_call fs hal c s = do {
     screen \<leftarrow> do_call (dev_data (sys_device s)) c (sys_screen s);
     let s = s\<lparr>sys_screen := screen\<rparr>;
     case c of
       Call_Guide status \<Rightarrow> do {
         a \<leftarrow> Audio_Guide fs hal status (dev_audio (sys_device s));
         Some (s\<lparr>sys_device := (sys_device s)\<lparr>dev_audio := a\<rparr>\<rparr>) }
     | _ \<Rightarrow> Some s }"

fun carry_out :: "'f fatfs \<Rightarrow> bool \<Rightarrow> call list \<Rightarrow> 'f system \<Rightarrow> 'f system option" where
  "carry_out fs hal [] s = Some s"
| "carry_out fs hal (c # cs) s = Option.bind (carry_out_call fs hal c s) (carry_out fs hal cs)"

section \<open>The task\<close>

text \<open>The conversions to \<open>int\<close> are made although nothing uses their results.\<close>

definition AppTask_UpdateGasSensors :: "'f pass \<Rightarrow> 'f system \<Rightarrow> 'f system option" where
  "AppTask_UpdateGasSensors p s =
     (if sensor_now p - s_sensor_tick s < SENSOR_READ_INTERVAL_MS then Some s
      else
       (let s = s\<lparr>s_sensor_tick := sensor_now p\<rparr>;
            d = sys_device s;
            (co, g7) = MQ7_ReadCO (powf (meets p)) (co_conversions p) SENSOR_EMA_ALPHA (dev_mq7 d);
            (co2, g135) = MQ135_ReadCO2 (powf (meets p)) (co2_conversions p) SENSOR_EMA_ALPHA (dev_mq135 d)
        in do {
          co \<leftarrow> co;
          co2 \<leftarrow> co2;
          co_i \<leftarrow> c_int co;
          co_f \<leftarrow> c_int ((co - of_int co_i) * 100);
          co2_i \<leftarrow> c_int co2;
          co2_f \<leftarrow> c_int ((co2 - of_int co2_i) * 100);
          Some (s\<lparr>sys_device := d\<lparr>dev_mq7 := g7, dev_mq135 := g135,
            dev_data := Data_Manager_SetSensorValues (Some co) co2 (dev_data d)\<rparr>\<rparr>) }))"

definition AppTask_Init :: "'f pass \<Rightarrow> u32 \<times> u32 \<times> u32 \<Rightarrow> 'f system \<Rightarrow> 'f system option" where
  "AppTask_Init p ticks s =
     (case ticks of (t1, t2, t3) \<Rightarrow> do {
        (pins, img) \<leftarrow> HUB75_Init (snd (sys_screen s));
        let d = sys_device s;
        let (co, g7) = MQ7_ReadCO (powf (meets p)) (co_conversions p) SENSOR_EMA_ALPHA (dev_mq7 d);
        let (co2, g135) = MQ135_ReadCO2 (powf (meets p)) (co2_conversions p) SENSOR_EMA_ALPHA (dev_mq135 d);
        co2 \<leftarrow> co2;
        let data = Data_Manager_SetTempHumValues (245 / 10) 51 (Data_Manager_SetSensorValues co co2 Data_Manager_Init);
        let (calls, m) = MatrixRun_Init t1 t2 t3 (dev_matrix d);
        let d = d\<lparr>dev_mq7 := g7, dev_mq135 := g135, dev_data := data, dev_matrix := m\<rparr>;
        carry_out (card (meets p)) (hal_ok (meets p)) calls
          (s\<lparr>sys_device := d, sys_screen := (fst (sys_screen s), img), s_sensor_tick := sensor_now p\<rparr>) })"

definition run_display :: "'f pass \<Rightarrow> 'f system \<Rightarrow> 'f system option" where
  "run_display p s =
     (case MatrixRun_Run (display_now p) (dev_matrix (sys_device s)) of (calls, m) \<Rightarrow>
        carry_out (card (meets p)) (hal_ok (meets p)) calls
          (s\<lparr>sys_device := (sys_device s)\<lparr>dev_matrix := m\<rparr>\<rparr>))"

definition AppTask_Run :: "'f pass \<Rightarrow> 'f system \<Rightarrow> 'f system option" where
  "AppTask_Run p s = Option.bind (AppTask_UpdateGasSensors p s) (run_display p)"

section \<open>The program\<close>

definition system_power_on :: "'f system" where
  "system_power_on = \<lparr>sys_device = \<lparr>dev_uart = uart_power_on, dev_matrix = matrix_power_on,
       dev_audio = audio_power_on, dev_data = Data_Manager_Init, dev_mq7 = gas_power_on, dev_mq135 = gas_power_on\<rparr>,
     sys_screen = (0xFF, replicate 4096 0), s_sensor_tick = 0\<rparr>"

text \<open>Before the loop: the task is initialised twice, the sensors' filters in between. Between these calls \<open>main\<close>
  starts the timer and the serial reception and initialises the card; that changes no part of this state. The
  timer is in \<open>Panel_Scan\<close>, the reception in \<open>Uart_Line\<close>, \<open>sd_init\<close>, whose return is taken for granted here, in \<open>Sd_Spi\<close>.
 \<close>

definition main_init :: "'f pass \<Rightarrow> u32 \<times> u32 \<times> u32 \<Rightarrow> 'f pass \<Rightarrow> u32 \<times> u32 \<times> u32 \<Rightarrow> 'f system option" where
  "main_init p1 ticks1 p2 ticks2 = do {
     s \<leftarrow> AppTask_Init p1 ticks1 system_power_on;
     let d = sys_device s;
     let d = d\<lparr>dev_mq135 := MQ135_Init (dev_mq135 d), dev_mq7 := MQ7_Init (dev_mq7 d)\<rparr>;
     s \<leftarrow> AppTask_Init p2 ticks2 (s\<lparr>sys_device := d\<rparr>);
     let d = sys_device s;
     let a = Audio_Init (dev_audio d);
     let a = a\<lparr>rx := AudioStreamRx_Start (hal_ok (meets p2)) (AudioStreamRx_Init (rx a))\<rparr>;
     Some (s\<lparr>sys_device := d\<lparr>dev_audio := a\<rparr>\<rparr>) }"

text \<open>One pass: the dispatcher, the task, the player. The result has what was transmitted.\<close>

definition main_pass :: "'f pass \<Rightarrow> 'f system \<Rightarrow> (u8 list list \<times> 'f system) option" where
  "main_pass p s = do {
     (tx, calls, d) \<leftarrow> UART_Handler_Process (meets p) (sys_device s);
     s \<leftarrow> carry_out (card (meets p)) (hal_ok (meets p)) calls (s\<lparr>sys_device := d\<rparr>);
     s \<leftarrow> AppTask_Run p s;
     a \<leftarrow> Audio_Process (card (meets p)) (hal_ok (meets p)) (audio_now1 p) (audio_now2 p) (audio_now3 p)
            (dev_audio (sys_device s));
     Some (tx, s\<lparr>sys_device := (sys_device s)\<lparr>dev_audio := a\<rparr>\<rparr>) }"

text \<open>An interrupt: bytes from the serial line, a half of the sound buffer sent, a block of samples received.\<close>

inductive interrupt :: "'f system \<Rightarrow> 'f system \<Rightarrow> bool" where
  uart: "HAL_UARTEx_RxEventCallback rx_buf sz (dev_uart (sys_device s)) = Some u \<Longrightarrow>
     interrupt s (s\<lparr>sys_device := (sys_device s)\<lparr>dev_uart := u\<rparr>\<rparr>)"
| i2s_half: "interrupt s (s\<lparr>sys_device := (sys_device s)\<lparr>dev_audio := HAL_I2S_TxHalfCpltCallback (dev_audio (sys_device s))\<rparr>\<rparr>)"
| i2s_full: "interrupt s (s\<lparr>sys_device := (sys_device s)\<lparr>dev_audio := HAL_I2S_TxCpltCallback (dev_audio (sys_device s))\<rparr>\<rparr>)"
| spi_block: "length blk = 1920 \<Longrightarrow> a = dev_audio (sys_device s) \<Longrightarrow>
     interrupt s (s\<lparr>sys_device := (sys_device s)\<lparr>dev_audio := a\<lparr>rx := dma_complete blk hal (rx a)\<rparr>\<rparr>\<rparr>)"
| spi_error: "a = dev_audio (sys_device s) \<Longrightarrow>
     interrupt s (s\<lparr>sys_device := (sys_device s)\<lparr>dev_audio := a\<lparr>rx := HAL_SPI_ErrorCallback hal (rx a)\<rparr>\<rparr>\<rparr>)"

section \<open>Invariant\<close>

text \<open>The carbon monoxide filter has no clamp: it stays moderate while what it is fed does.\<close>

definition co_inv :: "gas_sensor \<Rightarrow> bool" where
  "co_inv g \<longleftrightarrow> (\<exists>e. ema g = Some e \<and> \<bar>e\<bar> \<le> 100000000)"

definition co_moderate :: "(rat \<Rightarrow> rat \<Rightarrow> rat option) \<Rightarrow> u32 option list \<Rightarrow> bool" where
  "co_moderate pw conv \<longleftrightarrow> (case ADC_to_CO pw (adc_sum conv div 32) of None \<Rightarrow> False | Some c \<Rightarrow> \<bar>c\<bar> \<le> 100000000)"

definition system_ok :: "'f system \<Rightarrow> bool" where
  "system_ok s \<longleftrightarrow> device_ok (sys_device s) \<and> length (snd (sys_screen s)) = 4096 \<and>
     measurable (dev_data (sys_device s)) \<and> co_inv (dev_mq7 (sys_device s)) \<and> co2_inv (dev_mq135 (sys_device s))"

lemma system_ok_parts:
  assumes "system_ok s"
  shows "device_ok (sys_device s)" "uart_inv (dev_uart (sys_device s))" "matrix_inv (dev_matrix (sys_device s))"
    "player_inv (dev_audio (sys_device s))" "length (snd (sys_screen s)) = 4096"
    "measurable (dev_data (sys_device s))" "co_inv (dev_mq7 (sys_device s))" "co2_inv (dev_mq135 (sys_device s))"
  using assms by (simp_all add: system_ok_def device_ok_def)

lemma system_ok_audio:
  "system_ok s \<Longrightarrow> player_inv a \<Longrightarrow> system_ok (s\<lparr>sys_device := (sys_device s)\<lparr>dev_audio := a\<rparr>\<rparr>)"
  by (simp add: system_ok_def device_ok_def)

lemma system_ok_matrix:
  "system_ok s \<Longrightarrow> matrix_inv m \<Longrightarrow> system_ok (s\<lparr>sys_device := (sys_device s)\<lparr>dev_matrix := m\<rparr>\<rparr>)"
  by (simp add: system_ok_def device_ok_def)

lemma system_ok_uart:
  "system_ok s \<Longrightarrow> uart_inv u \<Longrightarrow> system_ok (s\<lparr>sys_device := (sys_device s)\<lparr>dev_uart := u\<rparr>\<rparr>)"
  by (simp add: system_ok_def device_ok_def)

lemma carry_out_call_safe:
  assumes ok: "system_ok s" and c: "call_ok c" and fs: "fatfs_ok fs"
  shows "\<exists>t. carry_out_call fs hal c s = Some t \<and> system_ok t"
proof -
  obtain last' img' where d: "do_call (dev_data (sys_device s)) c (sys_screen s) = Some (last', img')" "length img' = 4096"
    using do_call_safe [of "dev_data (sys_device s)" c "snd (sys_screen s)" "fst (sys_screen s)"] system_ok_parts [OF ok] c
    by auto
  then have ok': "system_ok (s\<lparr>sys_screen := (last', img')\<rparr>)" using ok by (simp add: system_ok_def)
  have guide: "\<exists>t. Option.bind (Audio_Guide fs hal st (dev_audio (sys_device s)))
      (\<lambda>a. Some (s\<lparr>sys_screen := (last', img'), sys_device := (sys_device s)\<lparr>dev_audio := a\<rparr>\<rparr>)) = Some t \<and> system_ok t"
    if len: "length st = 8" for st
  proof -
    obtain a where "Audio_Guide fs hal st (dev_audio (sys_device s)) = Some a" "player_inv a"
      by (rule Guide_inv [OF fs system_ok_parts(4) [OF ok], where cs = st and hal_ok = hal]) (use len in simp_all)
    then show ?thesis using system_ok_audio [OF ok', of a] by simp
  qed
  show ?thesis using d ok' guide c by (cases c) (simp_all add: carry_out_call_def)
qed

lemma carry_out_safe:
  "list_all call_ok cs \<Longrightarrow> fatfs_ok fs \<Longrightarrow> system_ok s \<Longrightarrow> \<exists>t. carry_out fs hal cs s = Some t \<and> system_ok t"
proof (induction cs arbitrary: s)
  case (Cons c cs)
  obtain u where "carry_out_call fs hal c s = Some u" "system_ok u"
    using carry_out_call_safe [of s c fs hal] Cons.prems by auto
  then show ?case using Cons by simp
qed simp

subsection \<open>Sensors\<close>

lemma co_read_inv:
  assumes "co_inv g" and "co_moderate pw conv"
  obtains v g' where "MQ7_ReadCO pw conv (1 / 10) g = (Some v, g')" "\<bar>v\<bar> \<le> 100000000" "co_inv g'"
proof -
  obtain c where "ADC_to_CO pw (adc_sum conv div 32) = Some c" "\<bar>c\<bar> \<le> 100000000"
    using assms(2) by (auto simp: co_moderate_def split: option.splits)
  moreover obtain e where "ema g = Some e" "\<bar>e\<bar> \<le> 100000000" using assms(1) by (auto simp: co_inv_def)
  ultimately obtain v g' where "MQ7_ReadCO pw conv (1 / 10) g = (Some v, g')" "ema g' = Some v"
    "- 100000000 \<le> v" "v \<le> 100000000"
    by (elim co.reading_between [of g e "- 100000000" 100000000 pw conv c "1 / 10"]) auto
  then show ?thesis by (intro that) (auto simp: co_inv_def)
qed

lemma co2_read:
  assumes "co2_inv g"
  obtains v g' where "MQ135_ReadCO2 pw conv (1 / 10) g = (Some v, g')" "0 \<le> v" "v \<le> 5000" "co2_inv g'"
  using co2_read_inv [OF assms, of "1 / 10" pw conv] that
  by (cases "MQ135_ReadCO2 pw conv (1 / 10) g") auto

lemma c_int_hundredths:
  assumes "\<bar>r\<bar> \<le> 100000000"
  shows "\<exists>i f. c_int r = Some i \<and> c_int ((r - of_int i) * 100) = Some f"
proof -
  have i: "c_int r = Some (c_trunc r)" using assms by (intro c_int_small) simp
  have "\<bar>r - of_int (c_trunc r)\<bar> \<le> 1"
    by (cases "0 \<le> r") (simp_all add: c_trunc_def abs_le_iff, linarith+)
  then have "\<bar>(r - of_int (c_trunc r)) * 100\<bar> < 2147483648" by (simp add: abs_mult)
  then show ?thesis using i c_int_small by blast
qed

lemma UpdateGasSensors_safe:
  assumes ok: "system_ok s" and co: "co_moderate (powf (meets p)) (co_conversions p)"
  shows "\<exists>t. AppTask_UpdateGasSensors p s = Some t \<and> system_ok t"
proof -
  obtain v g7 where v: "MQ7_ReadCO (powf (meets p)) (co_conversions p) (1 / 10) (dev_mq7 (sys_device s)) = (Some v, g7)"
    "\<bar>v\<bar> \<le> 100000000" "co_inv g7" using co_read_inv [OF system_ok_parts(7) [OF ok] co] by blast
  obtain w g135 where w: "MQ135_ReadCO2 (powf (meets p)) (co2_conversions p) (1 / 10) (dev_mq135 (sys_device s)) = (Some w, g135)"
    "0 \<le> w" "w \<le> 5000" "co2_inv g135" using co2_read [OF system_ok_parts(8) [OF ok]] by blast
  have "\<bar>w\<bar> \<le> 100000000" using w(2,3) by simp
  then obtain i f i2 f2 where "c_int v = Some i" "c_int ((v - of_int i) * 100) = Some f"
    "c_int w = Some i2" "c_int ((w - of_int i2) * 100) = Some f2"
    using c_int_hundredths [OF v(2)] c_int_hundredths [of w] by blast
  moreover have "measurable (Data_Manager_SetSensorValues (Some v) w (dev_data (sys_device s)))"
    using v(2) w(2,3) system_ok_parts(6) [OF ok] by (simp add: measurable_def Data_Manager_SetSensorValues_def)
  ultimately show ?thesis using v w ok
    by (simp add: AppTask_UpdateGasSensors_def SENSOR_EMA_ALPHA_def system_ok_def device_ok_def Let_def)
qed

subsection \<open>The dispatcher\<close>

lemma sint16: "\<bar>rat_of_int (sint t) / 100\<bar> \<le> 100000000" for t :: u16
proof -
  have "- 32768 \<le> sint t" "sint t < 32768" using sint_range_size [of t] by (simp_all add: word_size)
  then have "rat_of_int (- 32768) \<le> rat_of_int (sint t)" "rat_of_int (sint t) < rat_of_int 32768"
    by (simp_all only: of_int_le_iff of_int_less_iff)
  then show ?thesis by (simp add: abs_le_iff)
qed

lemma measurable_temp_hum:
  "measurable d \<Longrightarrow> \<bar>t\<bar> \<le> 100000000 \<Longrightarrow> \<bar>h\<bar> \<le> 100000000 \<Longrightarrow> measurable (Data_Manager_SetTempHumValues t h d)"
  by (simp add: measurable_def Data_Manager_SetTempHumValues_def)

lemma handle_packet_fields:
  assumes "handle_packet e pkt d = Some (tx, calls, d')"
  shows "measurable (dev_data d) \<Longrightarrow> measurable (dev_data d')"
    and "dev_mq7 d' = dev_mq7 d \<or> dev_mq7 d' = snd (MQ7_ReadCO (powf e) (conversions e) (1 / 10) (dev_mq7 d))"
    and "dev_mq135 d' = dev_mq135 d \<or> dev_mq135 d' = snd (MQ135_ReadCO2 (powf e) (conversions e) (1 / 10) (dev_mq135 d))"
  using assms unfolding handle_defs
  by (auto simp: answer_shape Let_def sint16 [simplified] intro!: measurable_temp_hum
      split: if_splits prod.splits bind_splits option.splits)

lemma Process_safe:
  assumes ok: "system_ok s" and e: "surroundings_ok e"
    and a: "pktReady (dev_uart (sys_device s)) \<noteq> 0 \<Longrightarrow> answerable e (sys_device s)"
    and co: "co_moderate (powf e) (conversions e)"
  obtains tx calls d where "UART_Handler_Process e (sys_device s) = Some (tx, calls, d)"
    "system_ok (s\<lparr>sys_device := d\<rparr>)" "list_all call_ok calls"
proof (cases "pktReady (dev_uart (sys_device s)) = 0")
  case True
  then show ?thesis using ok by (intro that [of "[]" "[]" "sys_device s"]) (simp_all add: UART_Handler_Process_def)
next
  case False
  let ?d = "(sys_device s)\<lparr>dev_uart := (dev_uart (sys_device s))\<lparr>pktReady := 0\<rparr>\<rparr>"
  let ?pkt = "pendingPkt (dev_uart (sys_device s))"
  have "good (handle_packet e ?pkt ?d)"
    using device_ok_packet [of "sys_device s"] e device_ok_taken [of "sys_device s"] a [OF False] ok
    by (intro handle_packet_good) (simp_all add: answerable_def Let_def system_ok_def)
  then obtain tx calls d where r: "handle_packet e ?pkt ?d = Some (tx, calls, d)" "device_ok d" "list_all call_ok calls"
    by (auto simp: good_def)
  note f = handle_packet_fields [OF r(1), simplified]
  have "co_inv (snd (MQ7_ReadCO (powf e) (conversions e) (1 / 10) (dev_mq7 (sys_device s))))"
    using co_read_inv [OF system_ok_parts(7) [OF ok] co] by (metis snd_conv)
  moreover have "co2_inv (snd (MQ135_ReadCO2 (powf e) (conversions e) (1 / 10) (dev_mq135 (sys_device s))))"
    using co2_read [OF system_ok_parts(8) [OF ok]] by (metis snd_conv)
  moreover have "measurable (dev_data d)"
    using f(1) system_ok_parts(6) [OF ok] by simp
  ultimately have "system_ok (s\<lparr>sys_device := d\<rparr>)"
    using r(2) f(2,3) ok by (auto simp: system_ok_def)
  then show ?thesis using r False by (intro that [of tx calls d]) (simp_all add: UART_Handler_Process_def)
qed

subsection \<open>A pass of the loop\<close>

definition environment_ok :: "'f pass \<Rightarrow> bool" where
  "environment_ok p \<longleftrightarrow> surroundings_ok (meets p) \<and> co_moderate (powf (meets p)) (conversions (meets p)) \<and>
     co_moderate (powf (meets p)) (co_conversions p)"

definition pass_ok :: "'f pass \<Rightarrow> 'f system \<Rightarrow> bool" where
  "pass_ok p s \<longleftrightarrow> environment_ok p \<and> (pktReady (dev_uart (sys_device s)) \<noteq> 0 \<longrightarrow> answerable (meets p) (sys_device s))"

lemma run_display_safe:
  assumes ok: "system_ok s" and fs: "fatfs_ok (card (meets p))"
  shows "\<exists>t. run_display p s = Some t \<and> system_ok t"
proof -
  obtain calls m where r: "MatrixRun_Run (display_now p) (dev_matrix (sys_device s)) = (calls, m)" by fastforce
  then have "matrix_inv m" "list_all call_ok calls"
    using matrix_step_inv [OF matrix_step.run [OF r] system_ok_parts(3) [OF ok]] by simp_all
  then show ?thesis using carry_out_safe [OF _ fs system_ok_matrix [OF ok]] r by (simp add: run_display_def)
qed

lemma main_pass_safe:
  assumes ok: "system_ok s" and p: "pass_ok p s"
  obtains tx t where "main_pass p s = Some (tx, t)" "system_ok t"
proof -
  have fs: "fatfs_ok (card (meets p))" using p by (simp add: pass_ok_def environment_ok_def surroundings_ok_def)
  obtain tx calls d where 1: "UART_Handler_Process (meets p) (sys_device s) = Some (tx, calls, d)"
    "system_ok (s\<lparr>sys_device := d\<rparr>)" "list_all call_ok calls"
    using Process_safe [OF ok, of "meets p"] p unfolding pass_ok_def environment_ok_def by metis
  obtain u where 2: "carry_out (card (meets p)) (hal_ok (meets p)) calls (s\<lparr>sys_device := d\<rparr>) = Some u" "system_ok u"
    using carry_out_safe [OF 1(3) fs 1(2)] by blast
  obtain v where 3: "AppTask_UpdateGasSensors p u = Some v" "system_ok v"
    using UpdateGasSensors_safe [OF 2(2)] p unfolding pass_ok_def environment_ok_def by blast
  obtain w where 4: "run_display p v = Some w" "system_ok w" using run_display_safe [OF 3(2) fs] by blast
  obtain a where 5: "Audio_Process (card (meets p)) (hal_ok (meets p)) (audio_now1 p) (audio_now2 p) (audio_now3 p)
      (dev_audio (sys_device w)) = Some a" "player_inv a"
    using Process_inv [OF fs system_ok_parts(4) [OF 4(2)]] by blast
  show ?thesis
    by (rule that [of tx "w\<lparr>sys_device := (sys_device w)\<lparr>dev_audio := a\<rparr>\<rparr>"])
      (use 1 2 3 4 5 in \<open>simp_all add: main_pass_def AppTask_Run_def system_ok_audio\<close>)
qed

inductive_cases interruptE: "interrupt s t"

lemma interrupt_safe: "interrupt s t \<Longrightarrow> system_ok s \<Longrightarrow> system_ok t"
proof (induction rule: interrupt.induct)
  case (uart rx_buf sz s u)
  then show ?case using events_inv [OF system_ok_parts(2), of s] callback_receives [OF uart(1)]
    by (metis option.inject system_ok_uart)
next
  case (spi_block blk a s hal)
  then have "player_inv a" "rx_inv (rx a)" using system_ok_parts(4) by (auto simp: player_inv_def buf_inv_def)
  then show ?case using spi_block by (auto intro!: system_ok_audio player_rx dma_complete_inv)
next
  case (spi_error a s hal)
  then have "player_inv a" "rx_inv (rx a)" using system_ok_parts(4) by (auto simp: player_inv_def buf_inv_def)
  then show ?case using spi_error by (auto intro!: system_ok_audio player_rx ErrorCallback_inv)
qed (auto intro!: system_ok_audio dest: system_ok_parts simp: HAL_I2S_TxHalfCpltCallback_def HAL_I2S_TxCpltCallback_def)

subsection \<open>The initialisation\<close>

text \<open>Calls that only draw change the screen and nothing else.\<close>

definition draws_only :: "call list \<Rightarrow> bool" where
  "draws_only cs \<longleftrightarrow> list_all (\<lambda>c. case c of Call_Guide _ \<Rightarrow> False | _ \<Rightarrow> True) cs"

lemma carry_out_draws:
  "draws_only cs \<Longrightarrow> carry_out fs hal cs s =
    map_option (\<lambda>screen. s\<lparr>sys_screen := screen\<rparr>) (do_calls (dev_data (sys_device s)) cs (sys_screen s))"
proof (induction cs arbitrary: s)
  case (Cons c cs)
  have "carry_out_call fs hal c s = map_option (\<lambda>screen. s\<lparr>sys_screen := screen\<rparr>)
      (do_call (dev_data (sys_device s)) c (sys_screen s))"
    using Cons.prems by (cases "do_call (dev_data (sys_device s)) c (sys_screen s)"; cases c)
      (simp_all add: carry_out_call_def draws_only_def)
  then show ?case using Cons.IH Cons.prems
    by (cases "do_call (dev_data (sys_device s)) c (sys_screen s)") (simp_all add: draws_only_def)
qed (simp add: draws_only_def)

definition started :: "u32 \<times> u32 \<times> u32 \<Rightarrow> matrix \<Rightarrow> matrix" where
  "started ticks m = (case ticks of (t1, t2, t3) \<Rightarrow> snd (MatrixRun_Init t1 t2 t3 m))"

lemma AppTask_Init_safe:
  assumes ok: "system_ok s" and co: "co_moderate (powf (meets p)) (co_conversions p)"
  obtains d screen where "AppTask_Init p ticks s = Some (s\<lparr>sys_device := d, sys_screen := screen, s_sensor_tick := sensor_now p\<rparr>)"
    "system_ok (s\<lparr>sys_device := d, sys_screen := screen, s_sensor_tick := sensor_now p\<rparr>)"
    "dev_audio d = dev_audio (sys_device s)" "dev_uart d = dev_uart (sys_device s)"
    "dev_matrix d = started ticks (dev_matrix (sys_device s))"
proof -
  obtain t1 t2 t3 where ticks: "ticks = (t1, t2, t3)" by (cases ticks)
  obtain v g7 where v: "MQ7_ReadCO (powf (meets p)) (co_conversions p) (1 / 10) (dev_mq7 (sys_device s)) = (Some v, g7)"
    "\<bar>v\<bar> \<le> 100000000" "co_inv g7" using co_read_inv [OF system_ok_parts(7) [OF ok] co] by blast
  obtain w g135 where w: "MQ135_ReadCO2 (powf (meets p)) (co2_conversions p) (1 / 10) (dev_mq135 (sys_device s)) = (Some w, g135)"
    "0 \<le> w" "w \<le> 5000" "co2_inv g135" using co2_read [OF system_ok_parts(8) [OF ok]] by blast
  define data where "data = Data_Manager_SetTempHumValues (245 / 10) 51 (Data_Manager_SetSensorValues (Some v) w Data_Manager_Init)"
  have data: "measurable data"
    using v(2) w(2,3) by (simp add: data_def measurable_def Data_Manager_SetTempHumValues_def
        Data_Manager_SetSensorValues_def Data_Manager_Init_def)
  define m where "m = snd (MatrixRun_Init t1 t2 t3 (dev_matrix (sys_device s)))"
  define calls where "calls = MatrixRun_ShowDashboard (dev_matrix (sys_device s))"
  have m: "matrix_inv m" and calls: "list_all call_ok calls" "draws_only calls"
    using system_ok_parts(3) [OF ok]
    by (simp_all add: m_def calls_def MatrixRun_Init_def MatrixRun_ShowDashboard_def matrix_inv_def draws_only_def)
  obtain screen where screen: "do_calls data calls (fst (sys_screen s), replicate 4096 0) = Some screen" "length (snd screen) = 4096"
    using do_calls_safe [OF calls(1) data, of "(fst (sys_screen s), replicate 4096 0)"] by auto
  let ?d = "(sys_device s)\<lparr>dev_mq7 := g7, dev_mq135 := g135, dev_data := data, dev_matrix := m\<rparr>"
  have "AppTask_Init p ticks s = Some (s\<lparr>sys_device := ?d, sys_screen := screen, s_sensor_tick := sensor_now p\<rparr>)"
    using system_ok_parts(5) [OF ok] v(1) w(1) screen(1) [unfolded data_def] calls(2) unfolding m_def data_def
    by (simp add: AppTask_Init_def ticks SENSOR_EMA_ALPHA_def HUB75_Init_def HUB75_Clear_law carry_out_draws
        MatrixRun_Init_def Let_def flip: calls_def)
  then show ?thesis
    by (rule that) (use ok m data v w screen in \<open>simp_all add: system_ok_def device_ok_def started_def ticks m_def\<close>)
qed

lemma system_power_on_ok: "system_ok (system_power_on :: 'f system)"
proof -
  have "player_inv (audio_power_on :: 'f audio)"
    by (simp add: player_inv_def buf_inv_def queue_inv_def audio_power_on_def Init_inv rx_power_on_def)
  then show ?thesis
    by (simp add: system_ok_def device_ok_def system_power_on_def uart_inv_power_on matrix_inv_def matrix_power_on_def
        measurable_def Data_Manager_Init_def co_inv_def co2_inv_def gas_power_on_def)
qed

lemma MQ_Init_inv: "co_inv (MQ7_Init g)" "co2_inv (MQ135_Init g)"
  by (simp_all add: co_inv_def MQ7_Init_def co2_inv_def MQ135_Init_def)

lemma main_init_safe:
  assumes "co_moderate (powf (meets p1)) (co_conversions p1)" and "co_moderate (powf (meets p2)) (co_conversions p2)"
  obtains s :: "'f system" where "main_init p1 k1 p2 k2 = Some s" "system_ok s"
    "dev_uart (sys_device s) = uart_power_on" "dev_matrix (sys_device s) = started k2 (started k1 matrix_power_on)"
    "dev_audio (sys_device s) = audio_boot (hal_ok (meets p2))"
proof -
  obtain d1 sc1 where 1: "AppTask_Init p1 k1 (system_power_on :: 'f system)
      = Some (system_power_on\<lparr>sys_device := d1, sys_screen := sc1, s_sensor_tick := sensor_now p1\<rparr>)"
    "system_ok (system_power_on\<lparr>sys_device := d1, sys_screen := sc1, s_sensor_tick := sensor_now p1\<rparr> :: 'f system)"
    "dev_audio d1 = dev_audio (sys_device (system_power_on :: 'f system))"
    "dev_uart d1 = dev_uart (sys_device (system_power_on :: 'f system))"
    "dev_matrix d1 = started k1 (dev_matrix (sys_device (system_power_on :: 'f system)))"
    using system_power_on_ok assms(1) by (rule AppTask_Init_safe)
  let ?s = "(system_power_on :: 'f system)\<lparr>sys_screen := sc1, s_sensor_tick := sensor_now p1,
      sys_device := d1\<lparr>dev_mq135 := MQ135_Init (dev_mq135 d1), dev_mq7 := MQ7_Init (dev_mq7 d1)\<rparr>\<rparr>"
  have "system_ok ?s" using 1(2) by (simp add: system_ok_def device_ok_def MQ_Init_inv)
  then obtain d2 sc2 where 2: "AppTask_Init p2 k2 ?s = Some (?s\<lparr>sys_device := d2, sys_screen := sc2, s_sensor_tick := sensor_now p2\<rparr>)"
    "system_ok (?s\<lparr>sys_device := d2, sys_screen := sc2, s_sensor_tick := sensor_now p2\<rparr>)"
    "dev_audio d2 = dev_audio (sys_device ?s)" "dev_uart d2 = dev_uart (sys_device ?s)"
    "dev_matrix d2 = started k2 (dev_matrix (sys_device ?s))"
    using assms(2) by (rule AppTask_Init_safe)
  have a: "dev_audio d2 = audio_power_on" using 1(3) 2(3) by (simp add: system_power_on_def)
  let ?a = "(Audio_Init audio_power_on)\<lparr>rx := AudioStreamRx_Start (hal_ok (meets p2))
      (AudioStreamRx_Init (rx (Audio_Init (audio_power_on :: 'f audio))))\<rparr>"
  have "?a = audio_boot (hal_ok (meets p2))" "player_inv (audio_boot (hal_ok (meets p2)) :: 'f audio)"
    by (simp add: audio_boot_def Init_rx AudioStreamRx_Init_def Let_def, rule player_boot_inv)
  moreover have "dev_uart d2 = uart_power_on" "dev_matrix d2 = started k2 (started k1 matrix_power_on)"
    using 1(4,5) 2(4,5) by (simp_all add: system_power_on_def)
  ultimately show ?thesis using 1(1) 2(1,2) a
    by (intro that [of "?s\<lparr>sys_screen := sc2, s_sensor_tick := sensor_now p2, sys_device := d2\<lparr>dev_audio := ?a\<rparr>\<rparr>"])
      (simp_all add: main_init_def Let_def system_ok_def device_ok_def)
qed

text \<open>Everything that can happen: the initialisation, passes of the loop, interrupts.\<close>

definition system_start :: "'f system \<Rightarrow> bool" where
  "system_start s \<longleftrightarrow> (\<exists>p1 k1 p2 k2. main_init p1 k1 p2 k2 = Some s \<and>
     co_moderate (powf (meets p1)) (co_conversions p1) \<and> co_moderate (powf (meets p2)) (co_conversions p2))"

inductive system_step :: "'f system \<Rightarrow> 'f system \<Rightarrow> bool" where
  pass: "pass_ok p s \<Longrightarrow> main_pass p s = Some (tx, t) \<Longrightarrow> system_step s t"
| interrupt: "interrupt s t \<Longrightarrow> system_step s t"

inductive_cases system_stepE: "system_step s t"

abbreviation system_reachable :: "'f system \<Rightarrow> bool" where
  "system_reachable \<equiv> reached system_start system_step"

lemma system_start_ok: "system_start s \<Longrightarrow> system_ok s"
  unfolding system_start_def using main_init_safe by (metis option.inject)

lemma system_step_ok: "system_step s t \<Longrightarrow> system_ok s \<Longrightarrow> system_ok t"
proof (induction rule: system_step.induct)
  case (pass p s tx t)
  then show ?case using main_pass_safe [of s p] by (metis option.inject prod.inject)
qed (simp add: interrupt_safe)

interpretation system_machine: machine system_start system_step system_ok
  by unfold_locales (auto intro: system_start_ok system_step_ok)

section \<open>From the serial line to the screen\<close>

text \<open>A pass while the dashboard is shown and nothing takes the screen away.\<close>

definition dashboard_stays :: "u32 \<Rightarrow> matrix \<Rightarrow> bool" where
  "dashboard_stays now m \<longleftrightarrow> current_screen m = SCREEN_DASHBOARD \<and> train_event_active m = 0 \<and>
     (auto_cycle_enabled m = 0 \<or> now - last_switch_tick m < DASHBOARD_SHOW_MS)"

lemma dirty_dashboard_drawn:
  assumes "dashboard_stays now m" and "dashboard_dirty m \<noteq> 0"
  shows "\<exists>mode m'. MatrixRun_Run now m = ([Call_StatusRow (congestion_status m) mode, Call_Border], m') \<and>
    congestion_status m' = congestion_status m"
proof -
  have d: "current_screen m = SCREEN_DASHBOARD" "train_event_active m = 0"
    "\<not> (auto_cycle_enabled m \<noteq> 0 \<and> DASHBOARD_SHOW_MS \<le> now - last_switch_tick m)"
    using assms(1) by (auto simp: dashboard_stays_def not_le)
  have t: "train_takes_screen now m = ([], False, m)" "train_gives_back now False m = ([], False, m)"
    using d by (simp_all add: train_takes_screen_def train_gives_back_def)
  have a: "auto_cycle now False m = ([], False, m)" using d by (auto simp: auto_cycle_def stay_ms_def)
  have n: "need_refresh now False (toggle_guide now m)" using d assms(2) by (auto simp: need_refresh_def toggle_guide_def)
  have s: "current_screen (toggle_guide now m) = SCREEN_DASHBOARD"
    "congestion_status (toggle_guide now m) = congestion_status m" using d by (auto simp: toggle_guide_def)
  show ?thesis using n s by (simp add: MatrixRun_Run_def t a redraw_def MatrixRun_ShowDashboard_def Let_def)
qed

text \<open>The border of the dashboard leaves the cars alone.\<close>

lemma dashboard_calls:
  assumes "length status = 8" and "length (snd screen) = 4096"
  obtains img where "do_calls d [Call_StatusRow status mode, Call_Border] screen = Some (fst screen, img)"
    "length img = 4096" "shows_cars status img"
proof -
  let ?row = "draw_all (dashboard_ops status mode)"
  let ?border = "Paint_DrawRectangle 1 1 64 32 RED DOT_PIXEL_1X1 DRAW_FILL_EMPTY"
  obtain mid where mid: "?row (snd screen) = Some mid" "length mid = 4096"
    using StatusRow_total [OF assms(1), of mode] assms(2) unfolding StatusRow_ops [OF assms(1)] by (rule total_opE)
  obtain img where img: "?border mid = Some img" "length img = 4096"
    using total_rectangle_1x1 mid(2) by (rule total_opE)
  have "keeps p ?border" if "i < 8" "p \<in> car_bar i \<union> car_window i" for i p
    by (rule keeps_within [OF within_outline]) (use that in \<open>auto simp: car_bar_def car_window_def frame_cells_def box_def\<close>)
  with assms mid(1) img(1) have "shows_cars status img" by (rule cars_shown)
  then show ?thesis using mid img
    by (intro that [of img]) (simp_all add: do_call_def StatusRow_ops [OF assms(1)] case_prod_beta')
qed

lemma UpdateGasSensors_keeps:
  "AppTask_UpdateGasSensors p s = Some t \<Longrightarrow> dev_matrix (sys_device t) = dev_matrix (sys_device s) \<and> sys_screen t = sys_screen s"
  by (auto simp: AppTask_UpdateGasSensors_def Let_def split: if_splits prod.splits bind_splits)

lemma pass_draws_dashboard:
  assumes ok: "system_ok s" and p: "environment_ok p"
    and d: "UART_Handler_Process (meets p) (sys_device s) = Some (tx, [], d)" "system_ok (s\<lparr>sys_device := d\<rparr>)"
    and m: "dashboard_stays (display_now p) (dev_matrix d)" "dashboard_dirty (dev_matrix d) \<noteq> 0"
  obtains t where "main_pass p s = Some (tx, t)" "system_ok t"
    "congestion_status (dev_matrix (sys_device t)) = congestion_status (dev_matrix d)"
    "shows_cars (congestion_status (dev_matrix d)) (snd (sys_screen t))"
proof -
  have fs: "fatfs_ok (card (meets p))" using p by (simp add: environment_ok_def surroundings_ok_def)
  obtain v where v: "AppTask_UpdateGasSensors p (s\<lparr>sys_device := d\<rparr>) = Some v" "system_ok v"
    using UpdateGasSensors_safe [OF d(2)] p unfolding environment_ok_def by blast
  have same: "dev_matrix (sys_device v) = dev_matrix d" using UpdateGasSensors_keeps [OF v(1)] by simp
  obtain mode m' where run: "MatrixRun_Run (display_now p) (dev_matrix d)
      = ([Call_StatusRow (congestion_status (dev_matrix d)) mode, Call_Border], m')"
    "congestion_status m' = congestion_status (dev_matrix d)" using dirty_dashboard_drawn [OF m] by blast
  have len: "length (congestion_status (dev_matrix d)) = 8"
    using system_ok_parts(3) [OF v(2)] same by (simp add: matrix_inv_def)
  obtain img where img: "do_calls (dev_data (sys_device v)) [Call_StatusRow (congestion_status (dev_matrix d)) mode, Call_Border]
      (sys_screen v) = Some (fst (sys_screen v), img)" "length img = 4096"
    "shows_cars (congestion_status (dev_matrix d)) img"
    using len system_ok_parts(5) [OF v(2)] by (rule dashboard_calls)
  define w where "w = v\<lparr>sys_device := (sys_device v)\<lparr>dev_matrix := m'\<rparr>, sys_screen := (fst (sys_screen v), img)\<rparr>"
  have "run_display p v = Some w"
    using img(1) same run(1) by (simp add: run_display_def carry_out_draws draws_only_def w_def del: do_calls.simps carry_out.simps)
  moreover have w: "system_ok w" using run_display_safe [OF v(2) fs] calculation by simp
  moreover obtain a where a: "Audio_Process (card (meets p)) (hal_ok (meets p)) (audio_now1 p) (audio_now2 p) (audio_now3 p)
      (dev_audio (sys_device w)) = Some a" "player_inv a"
    using Process_inv [OF fs system_ok_parts(4) [OF w]] by blast
  ultimately have "main_pass p s = Some (tx, w\<lparr>sys_device := (sys_device w)\<lparr>dev_audio := a\<rparr>\<rparr>)"
    using d(1) v(1) by (simp add: main_pass_def AppTask_Run_def)
  then show ?thesis
    by (rule that) (use system_ok_audio [OF w a(2)] img run in \<open>simp_all add: w_def\<close>)
qed

section \<open>Properties\<close>

text \<open>
  C1: The whole program is safe. After the initialisation of \<open>main\<close> and any sequence of passes of its loop
  and of interrupts between them, the next pass is carried out to its end without any access outside an
  array and without any undefined conversion, from the dispatcher through the sensors and the screens to
  the player, and every part is again in a state that satisfies its invariant. The pass may meet any card,
  any packet the dispatcher can answer, and any readings that leave the carbon monoxide value below a
  hundred million.
\<close>

theorem main_loop_safe:
  assumes "system_reachable s" and "pass_ok p s"
  shows "\<exists>tx t. main_pass p s = Some (tx, t) \<and> system_ok t"
  using main_pass_safe [OF system_machine.reached_inv [OF assms(1)] assms(2)] by blast

text \<open>
  From the frame to the frame buffer: the next pass acknowledges the congestion values and draws them, as long
  as the dashboard keeps the screen. What the panel then shows is in \<open>Panel_Scan\<close>.
\<close>

lemma congestion_reaches_screen:
  assumes "system_reachable s" and "environment_ok p" and "rx_idle (dev_uart (sys_device s))"
    and "length ls = 8" and "list_all (\<lambda>b. b \<le> 2) ls"
    and "ls \<noteq> congestion_status (dev_matrix (sys_device s)) \<or> dashboard_dirty (dev_matrix (sys_device s)) \<noteq> 0"
    and "dashboard_stays (display_now p) (dev_matrix (sys_device s))"
  shows "\<exists>u t. HAL_UARTEx_RxEventCallback (frame CMD_SET_LED ls @ rest) 13 (dev_uart (sys_device s)) = Some u \<and>
    main_pass p (s\<lparr>sys_device := (sys_device s)\<lparr>dev_uart := u\<rparr>\<rparr>) = Some ([frame CMD_ACK [CMD_SET_LED]], t) \<and>
    system_ok t \<and> congestion_status (dev_matrix (sys_device t)) = ls \<and>
    shows_cars ls (snd (sys_screen t))"
proof -
  let ?d = "sys_device s"
  have ok: "system_ok s" using assms(1) by (rule system_machine.reached_inv)
  have stk: "length (stack (meets p)) = 262" using assms(2) by (simp add: environment_ok_def surroundings_ok_def)
  define m where "m = (dev_matrix ?d)\<lparr>congestion_status := ls, dashboard_dirty :=
      (if ls \<noteq> congestion_status (dev_matrix ?d) then 1 else dashboard_dirty (dev_matrix ?d))\<rparr>"
  have "receive_bytes (frame CMD_SET_LED ls) = HAL_UARTEx_RxEventCallback (frame CMD_SET_LED ls @ rest) 13"
    using assms(4) callback_bytes [of "frame CMD_SET_LED ls" rest] by (simp add: fun_eq_iff)
  then obtain u where u: "HAL_UARTEx_RxEventCallback (frame CMD_SET_LED ls @ rest) 13 (dev_uart ?d) = Some u"
    "UART_Handler_Process (meets p) (?d\<lparr>dev_uart := u\<rparr>) = Some ([frame CMD_ACK [CMD_SET_LED]], [],
      ?d\<lparr>dev_uart := u\<lparr>pktReady := 0\<rparr>, dev_matrix := m\<rparr>)"
    unfolding m_def using set_led_applied [OF stk assms(3) system_ok_parts(3) [OF ok] assms(4,5)] by metis
  let ?s = "s\<lparr>sys_device := ?d\<lparr>dev_uart := u\<rparr>\<rparr>" and ?d' = "?d\<lparr>dev_uart := u\<lparr>pktReady := 0\<rparr>, dev_matrix := m\<rparr>"
  have s1: "system_ok ?s" using interrupt_safe [OF interrupt.uart [OF u(1)] ok] .
  have m: "matrix_inv m" "congestion_status m = ls" "dashboard_dirty m \<noteq> 0" "dashboard_stays (display_now p) m"
    using system_ok_parts(3) [OF ok] assms(4,6,7) by (auto simp: m_def matrix_inv_def dashboard_stays_def)
  have d: "system_ok (?s\<lparr>sys_device := ?d'\<rparr>)"
    using s1 m(1) by (simp add: system_ok_def device_ok_def uart_inv_def)
  have p: "UART_Handler_Process (meets p) (sys_device ?s) = Some ([frame CMD_ACK [CMD_SET_LED]], [], ?d')" using u(2) by simp
  have stays: "dashboard_stays (display_now p) (dev_matrix ?d')" "dashboard_dirty (dev_matrix ?d') \<noteq> 0"
    using m by simp_all
  obtain t where t: "main_pass p ?s = Some ([frame CMD_ACK [CMD_SET_LED]], t)" "system_ok t"
    "congestion_status (dev_matrix (sys_device t)) = congestion_status (dev_matrix ?d')"
    "shows_cars (congestion_status (dev_matrix ?d')) (snd (sys_screen t))"
    using s1 assms(2) p d stays by (rule pass_draws_dashboard)
  have "congestion_status (dev_matrix ?d') = ls" using m(2) by simp
  then show ?thesis using u(1) t by (intro exI [of _ u] exI [of _ t]) simp
qed

section \<open>Witnesses\<close>

text \<open>A pass with an empty card, quiet clocks and converters that time out.\<close>

definition quiet_pass :: "u8 list pass" where
  "quiet_pass = \<lparr>meets = \<lparr>stack = replicate 262 0, list_data = replicate 255 0, list_len = 0,
       conversions = replicate 32 None, powf = (\<lambda>_ _. None), tick1 = 5, tick2 = 5, card = mem_fatfs [],
       directory = Inr [], hal_ok = True\<rparr>,
     co_conversions = replicate 32 None, co2_conversions = replicate 32 None,
     sensor_now = 0, display_now = 0, audio_now1 = 0, audio_now2 = 0, audio_now3 = 0\<rparr>"

lemma quiet_now: "display_now quiet_pass = 0" by (simp add: quiet_pass_def)

lemma quiet_moderate: "co_moderate pw (replicate 32 None)"
  by (simp add: co_moderate_def ADC_to_CO_def numeral_eq_Suc)

lemma quiet_ok: "environment_ok quiet_pass"
  by (simp add: environment_ok_def quiet_pass_def surroundings_ok_def mem_fatfs_ok short_names_def quiet_moderate)

definition booted :: "u8 list system" where
  "booted = the (main_init quiet_pass (0, 0, 0) quiet_pass (0, 0, 0))"

lemma booted_facts:
  "system_start booted" "system_reachable booted" "dev_uart (sys_device booted) = uart_power_on"
  "dev_matrix (sys_device booted) = matrix_power_on\<lparr>dashboard_dirty := 0\<rparr>"
proof -
  have co: "co_moderate (powf (meets quiet_pass)) (co_conversions quiet_pass)" by (simp add: quiet_pass_def quiet_moderate)
  obtain s where s: "main_init quiet_pass (0, 0, 0) quiet_pass (0, 0, 0) = Some s" "dev_uart (sys_device s) = uart_power_on"
    "dev_matrix (sys_device s) = started (0, 0, 0) (started (0, 0, 0) matrix_power_on)"
    using co co by (rule main_init_safe)
  then have b: "booted = s" by (simp add: booted_def)
  show "system_start booted" unfolding b system_start_def using s(1) co by blast
  then show "system_reachable booted" by (rule reached.start)
  show "dev_uart (sys_device booted) = uart_power_on"
    "dev_matrix (sys_device booted) = matrix_power_on\<lparr>dashboard_dirty := 0\<rparr>"
    by (simp_all add: b s started_def MatrixRun_Init_def matrix_power_on_def SCREEN_DASHBOARD_def)
qed

lemma main_loop_safe_witness: "\<exists>tx t. main_pass quiet_pass booted = Some (tx, t) \<and> system_ok t"
  by (rule main_loop_safe) (simp_all add: booted_facts pass_ok_def quiet_ok uart_power_on_def)

text \<open>A converter at full scale makes the carbon monoxide value infinite, and its conversion to \<open>int\<close> undefined.\<close>

lemma full_scale_undefined:
  assumes "ADC_to_CO (powf (meets p)) (adc_sum (co_conversions p) div 32) = None"
    and "\<not> sensor_now p - s_sensor_tick s < SENSOR_READ_INTERVAL_MS"
  shows "AppTask_UpdateGasSensors p s = None"
  using assms by (simp add: AppTask_UpdateGasSensors_def MQ7_ReadCO_def ema_filter_def Let_def split: prod.split)

end
