(* ===== verification/System_Parts.thy ===== *)
theory System_Parts
  imports Main_Loop
begin

text \<open>
  The components inside the whole program: in every state the program reaches, the player, the receiver of
  samples inside the player and the screen scheduler are in states that they reach on their own. What is
  proved of a component alone thus holds of it in the program.
\<close>

section \<open>The receiver of samples inside the player\<close>

text \<open>Seen from the receiver, an operation of the player is a sequence of the receiver's steps.\<close>

definition feeds :: "'f audio \<Rightarrow> 'f audio \<Rightarrow> bool" where
  "feeds s t \<longleftrightarrow> (length (s_monoBuf s) = 8192 \<longrightarrow> length (s_monoBuf t) = 8192 \<and> rx_step\<^sup>*\<^sup>* (rx s) (rx t))"

lemma feeds_same: "rx t = rx s \<Longrightarrow> length (s_monoBuf t) = length (s_monoBuf s) \<Longrightarrow> feeds s t"
  by (simp add: feeds_def)

lemma feeds_trans [trans]: "feeds s t \<Longrightarrow> feeds t u \<Longrightarrow> feeds s u"
  by (auto simp: feeds_def)

lemma Read_keeps_length: "AudioStreamRx_Read r dst len = Some (m, dst', r') \<Longrightarrow> length dst' = length dst"
  by (auto simp: AudioStreamRx_Read_def Let_def bind_eq_Some_conv dest!: length_memcpy split: if_splits)

lemma ReadMonoPcm_feeds:
  assumes "AudioSource_ReadMonoPcm fs 8192 s = Some (n, t)"
  shows "feeds s t"
proof (cases "s_audioSource s = AUDIO_SOURCE_STREAM")
  case True
  then obtain k where k: "AudioStreamRx_Read (rx s) (s_monoBuf s) 8192 = Some (k, s_monoBuf t, rx t)"
    using assms by (auto simp: AudioSource_ReadMonoPcm_def bind_eq_Some_conv)
  then have "rx_step (rx s) (rx t)" if "length (s_monoBuf s) = 8192"
    using that by (intro rx_step.read [OF _ k]) simp
  then show ?thesis using Read_keeps_length [OF k] by (auto simp: feeds_def)
next
  case False
  then show ?thesis using assms
    by (cases "s_audioSource s")
      (auto simp: AudioSource_ReadMonoPcm_def bind_eq_Some_conv dest!: length_memcpy
        split: option.splits prod.splits intro!: feeds_same)
qed

lemma FillHalfBuffer_feeds:
  assumes "AudioPlayer_FillHalfBuffer fs off s = Some t"
  shows "feeds s t"
proof (cases "s_audioSource s = AUDIO_SOURCE_WAV \<and> s_wavEof s \<noteq> 0")
  case True
  then show ?thesis using assms
    by (auto simp: AudioPlayer_FillHalfBuffer_def bind_eq_Some_conv intro!: feeds_same)
next
  case False
  then obtain n u where u: "AudioSource_ReadMonoPcm fs 8192 s = Some (n, u)"
    using assms by (cases "AudioSource_ReadMonoPcm fs 8192 s")
      (auto simp: AudioPlayer_FillHalfBuffer_def AUDIO_PLAYER_MONO_SAMPLES_def)
  then have "rx t = rx u \<and> s_monoBuf t = s_monoBuf u"
    using False assms
    by (auto simp: AudioPlayer_FillHalfBuffer_def AUDIO_PLAYER_MONO_SAMPLES_def bind_eq_Some_conv Let_def split: if_splits)
  then show ?thesis using ReadMonoPcm_feeds [OF u] by (simp add: feeds_def)
qed

lemma prefill_feeds: "prefill fs s = Some t \<Longrightarrow> feeds s t"
proof -
  assume "prefill fs s = Some t"
  then obtain u where "AudioPlayer_FillHalfBuffer fs 0 (clear_buffers s) = Some u"
      "AudioPlayer_FillHalfBuffer fs (AUDIO_PLAYER_MONO_SAMPLES * 2) u = Some t"
    by (auto simp: prefill_def bind_eq_Some_conv)
  moreover have "feeds s (clear_buffers s)" by (simp add: feeds_def clear_buffers_def player_consts)
  ultimately show ?thesis by (meson FillHalfBuffer_feeds feeds_trans)
qed

text \<open>Updates of the other fields do not matter: the rules with \<open>feeds\<close> unfolded.\<close>

lemmas fed = prefill_feeds [unfolded feeds_def] FillHalfBuffer_feeds [unfolded feeds_def]

lemma StartWav_feeds: "Audio_StartWav fs hal name s = Some (r, t) \<Longrightarrow> feeds s t"
  by (auto simp: Audio_StartWav_def Let_def bind_eq_Some_conv feeds_def split: if_splits option.splits dest!: fed)

lemma StartStream_feeds: "Audio_StartStream fs hal tick s = Some (r, t) \<Longrightarrow> feeds s t"
  by (auto simp: Audio_StartStream_def bind_eq_Some_conv feeds_def split: if_splits dest!: fed)

lemma Stop_feeds: "feeds s (Audio_Stop s)"
  by (simp add: Audio_Stop_def feeds_def Let_def)

lemma Enqueue_feeds: "AudioPlayer_Enqueue name s = Some (r, t) \<Longrightarrow> feeds s t"
  by (auto simp: AudioPlayer_Enqueue_def Let_def bind_eq_Some_conv split: if_splits intro!: feeds_same)

lemma Dequeue_feeds: "AudioPlayer_Dequeue s = Some (r, t) \<Longrightarrow> feeds s t"
  by (auto simp: AudioPlayer_Dequeue_def Let_def bind_eq_Some_conv split: if_splits intro!: feeds_same)

lemma PlayNext_feeds: "AudioPlayer_PlayNextFromQueue fs hal s = Some t \<Longrightarrow> feeds s t"
  by (auto simp: AudioPlayer_PlayNextFromQueue_def bind_eq_Some_conv split: if_splits option.splits
      intro: feeds_same feeds_trans dest!: Dequeue_feeds StartWav_feeds)

lemma guide_loop_feeds: "guide_loop cs i fl s = Some (fl', t) \<Longrightarrow> feeds s t"
proof (induction cs arbitrary: i fl s)
  case (Cons c cs)
  obtain z a where fl: "fl = (z, a)" by (cases fl)
  obtain z' u where first: "(if c = 0
        then do {
          s \<leftarrow> (if \<not> z then map_option snd (AudioPlayer_Enqueue (c_lit ''guide_start.wav'') s) else Some s);
          s \<leftarrow> map_option snd (AudioPlayer_Enqueue (guide_name (i + 1)) s);
          Some (True, s)
        }
        else Some (z, s)) = Some (z', u)"
    and rest: "guide_loop cs (i + 1) (z', if c \<noteq> 2 then False else a) u = Some (fl', t)"
    using Cons.prems unfolding fl guide_loop.simps bind_eq_Some_conv by auto
  have "feeds s u" using first
    by (auto simp: bind_eq_Some_conv split: if_splits intro: feeds_trans feeds_same dest!: Enqueue_feeds)
  then show ?case using Cons.IH [OF rest] by (rule feeds_trans)
qed (auto intro: feeds_same)

lemma Guide_feeds: "Audio_Guide fs hal cs s = Some t \<Longrightarrow> feeds s t"
proof -
  assume "Audio_Guide fs hal cs s = Some t"
  then obtain z a u v where "guide_loop (take 8 cs) 0 (False, True) s = Some ((z, a), u)"
    and v: "(if z then map_option snd (AudioPlayer_Enqueue (c_lit ''guide_end.wav'') u)
      else if a then map_option snd (AudioPlayer_Enqueue (c_lit ''warning.wav'') u) else Some u) = Some v"
    and "AudioPlayer_PlayNextFromQueue fs hal v = Some t"
    by (auto simp: Audio_Guide_def bind_eq_Some_conv split: if_split_asm)
  moreover have "feeds u v" using v by (auto split: if_splits intro: Enqueue_feeds feeds_same)
  ultimately show ?thesis by (meson guide_loop_feeds PlayNext_feeds feeds_trans)
qed

lemma serve_half_feeds:
  assumes "serve_half fs ev off s = Some t"
  shows "feeds s t"
proof (cases "s_bufferEvent s AND ev \<noteq> 0")
  case True
  then obtain u where u: "AudioPlayer_FillHalfBuffer fs off (s\<lparr>s_bufferEvent := s_bufferEvent s AND NOT ev\<rparr>) = Some u"
    and t: "t = (if s_audioSource u = AUDIO_SOURCE_WAV \<and> s_wavEof u \<noteq> 0 then u\<lparr>s_stopPending := 1\<rparr> else u)"
    using assms by (auto simp: serve_half_def bind_eq_Some_conv)
  show ?thesis using FillHalfBuffer_feeds [OF u] by (simp add: feeds_def t)
next
  case False
  then show ?thesis using assms by (simp add: serve_half_def feeds_same)
qed

lemma process_playing_feeds: "process_playing fs now s = Some t \<Longrightarrow> feeds s t"
proof -
  assume "process_playing fs now s = Some t"
  then obtain u v where "serve_half fs 1 0 s = Some u" "serve_half fs 2 (AUDIO_PLAYER_MONO_SAMPLES * 2) u = Some v"
      "t = end_stream now (end_wav v)"
    by (auto simp: process_playing_def bind_eq_Some_conv)
  moreover have "feeds v (end_wav v)" "feeds (end_wav v) (end_stream now (end_wav v))"
    by (simp_all add: end_wav_def end_stream_def Stop_feeds feeds_same)
  ultimately show ?thesis by (meson serve_half_feeds feeds_trans)
qed

lemma process_stream_rx_feeds:
  assumes "process_stream_rx now s = Some t"
  shows "feeds s t"
proof -
  obtain r where "AudioStreamRx_Process (rx s) = Some r" "rx t = r" "s_monoBuf t = s_monoBuf s"
    using assms by (auto simp: process_stream_rx_def bind_eq_Some_conv Let_def split: if_splits)
  then show ?thesis using rx_step.process [of "rx s" r] by (auto simp: feeds_def)
qed

lemma Process_feeds: "Audio_Process fs hal t1 t2 t3 s = Some t \<Longrightarrow> feeds s t"
proof -
  assume "Audio_Process fs hal t1 t2 t3 s = Some t"
  then obtain u v where "process_stream_rx t1 s = Some u"
    and v: "(if s_isPlaying u \<noteq> 0 then process_playing fs t2 u else Some u) = Some v"
    and t: "(if s_isPlaying v = 0
       then (if \<not> AudioPlayer_IsQueueEmpty v then AudioPlayer_PlayNextFromQueue fs hal v
             else map_option snd (Audio_StartStream fs hal t3 v)) else Some v) = Some t"
    by (auto simp: Audio_Process_def bind_eq_Some_conv)
  moreover have "feeds u v" using v by (auto split: if_splits intro: process_playing_feeds feeds_same)
  moreover have "feeds v t" using t by (auto split: if_splits intro: PlayNext_feeds StartStream_feeds feeds_same)
  ultimately show ?thesis by (meson process_stream_rx_feeds feeds_trans)
qed

lemma player_step_feeds:
  assumes "player_step fs s t" and "player_inv s"
  shows "rx_step\<^sup>*\<^sup>* (rx s) (rx t)"
proof -
  from assms(1) have "feeds s t"
  proof cases
    case process
    then show ?thesis by (rule Process_feeds)
  next
    case guide
    then show ?thesis by (rule Guide_feeds)
  next
    case start_wav
    then show ?thesis by (rule StartWav_feeds)
  next
    case start_stream
    then show ?thesis by (rule StartStream_feeds)
  next
    case stop
    then show ?thesis by (simp add: Stop_feeds)
  next
    case rx_block
    then show ?thesis by (auto simp: feeds_def intro: rx_step.complete)
  next
    case rx_error
    then show ?thesis by (auto simp: feeds_def intro: rx_step.error)
  qed (simp_all add: feeds_def Audio_RequestStopStream_def HAL_I2S_TxHalfCpltCallback_def HAL_I2S_TxCpltCallback_def)
  then show ?thesis using assms(2) by (simp add: feeds_def player_inv_def buf_inv_def)
qed

lemma boot_rx_reachable: "rx_reachable (rx (audio_boot hal))"
proof -
  have "rx_reachable (AudioStreamRx_Init rx_power_on)" by (rule rx_reachable_init) (simp add: rx_power_on_def)
  moreover have "rx_step (AudioStreamRx_Init rx_power_on) (AudioStreamRx_Start hal (AudioStreamRx_Init rx_power_on))"
    by (rule rx_step.start) (simp add: AudioStreamRx_Init_def rx_power_on_def)
  ultimately show ?thesis by (simp add: audio_boot_def Init_rx reached.step Let_def)
qed

interpretation rx_in_player: machine_part player_start player_move player_inv rx_start rx_step rx_inv rx
  by unfold_locales (auto simp: player_start_def player_move_def boot_rx_reachable player_step_feeds)

section \<open>The parts of the program\<close>

abbreviation sys_audio :: "'f system \<Rightarrow> 'f audio" where "sys_audio s \<equiv> dev_audio (sys_device s)"
abbreviation sys_matrix :: "'f system \<Rightarrow> matrix" where "sys_matrix s \<equiv> dev_matrix (sys_device s)"
abbreviation sys_uart :: "'f system \<Rightarrow> uart_rx" where "sys_uart s \<equiv> dev_uart (sys_device s)"

text \<open>Seen from its parts, an operation of the device is a sequence of their steps.\<close>

definition plays :: "'f device \<Rightarrow> 'f device \<Rightarrow> bool" where
  "plays d d' \<longleftrightarrow> player_move\<^sup>*\<^sup>* (dev_audio d) (dev_audio d') \<and> matrix_move\<^sup>*\<^sup>* (dev_matrix d) (dev_matrix d') \<and>
     uart_step\<^sup>*\<^sup>* (dev_uart d) (dev_uart d')"

lemma plays_trans: "plays d d' \<Longrightarrow> plays d' d'' \<Longrightarrow> plays d d''"
  by (auto simp: plays_def)

lemma plays_same: "dev_audio d' = dev_audio d \<Longrightarrow> dev_matrix d' = dev_matrix d \<Longrightarrow> dev_uart d' = dev_uart d \<Longrightarrow> plays d d'"
  by (simp add: plays_def)

lemma plays_audio: "player_step fs (dev_audio d) a \<Longrightarrow> fatfs_ok fs \<Longrightarrow> plays d (d\<lparr>dev_audio := a\<rparr>)"
  unfolding plays_def by (auto simp: player_move_def intro!: r_into_rtranclp [of player_move])

lemma plays_matrix: "matrix_step (dev_matrix d) cs m \<Longrightarrow> plays d (d\<lparr>dev_matrix := m\<rparr>)"
  unfolding plays_def by (auto simp: matrix_move_def intro!: r_into_rtranclp [of matrix_move])

lemma plays_uart: "uart_step (dev_uart d) u \<Longrightarrow> plays d (d\<lparr>dev_uart := u\<rparr>)"
  by (auto simp: plays_def)

lemmas handlers = handle_get_co_def handle_get_co2_def handle_temp_hum_def handle_set_led_def
  handle_train_dest_def handle_display_ctrl_def handle_get_wavs_def

lemma answer_plays: "answer tx calls d = Some (tx', calls', d') \<Longrightarrow> d' = d"
  by (auto simp: answer_def)

lemma handle_play_wav_plays:
  assumes "handle_play_wav e pkt d = Some (tx, calls, d')" and "fatfs_ok (card e)"
  shows "plays d d'"
proof -
  have "d' = d \<or> (\<exists>name r a. Audio_StartWav (card e) (hal_ok e) name (dev_audio d) = Some (r, a) \<and> d' = d\<lparr>dev_audio := a\<rparr>)"
    using assms(1) by (auto simp: handle_play_wav_def bind_eq_Some_conv Let_def dest!: answer_plays split: if_splits)
  then show ?thesis using assms(2) by (auto simp: plays_same intro: plays_audio player_step.start_wav)
qed

lemma other_handlers_play:
  "handle_get_co e d = Some (tx, calls, d') \<Longrightarrow> plays d d'"
  "handle_get_co2 e d = Some (tx, calls, d') \<Longrightarrow> plays d d'"
  "handle_temp_hum e pkt d = Some (tx, calls, d') \<Longrightarrow> plays d d'"
  "handle_get_wavs e d = Some (tx, calls, d') \<Longrightarrow> plays d d'"
  by (auto simp: handlers bind_eq_Some_conv Let_def dest!: answer_plays intro!: plays_same split: if_splits prod.splits)

lemma matrix_handlers_play:
  "handle_set_led e pkt d = Some (tx, calls, d') \<Longrightarrow> plays d d'"
  "handle_train_dest e pkt d = Some (tx, calls, d') \<Longrightarrow> plays d d'"
  "handle_display_ctrl e pkt d = Some (tx, calls, d') \<Longrightarrow> plays d d'"
  by (auto simp: handlers bind_eq_Some_conv Let_def dest!: answer_plays
      intro: plays_matrix matrix_step.intros plays_same split: if_splits prod.splits)

lemma Process_plays:
  assumes "UART_Handler_Process e d = Some (tx, calls, d')" and "fatfs_ok (card e)"
  shows "plays d d'"
proof (cases "pktReady (dev_uart d) = 0")
  case True
  then show ?thesis using assms(1) by (simp add: UART_Handler_Process_def plays_same)
next
  case False
  let ?d = "d\<lparr>dev_uart := (dev_uart d)\<lparr>pktReady := 0\<rparr>\<rparr>"
  have "handle_packet e (pendingPkt (dev_uart d)) ?d = Some (tx, calls, d')"
    using False assms(1) by (simp add: UART_Handler_Process_def)
  then have "plays ?d d'"
    using assms(2) unfolding handle_packet_def
    by (auto intro: other_handlers_play matrix_handlers_play handle_play_wav_plays plays_same
        dest!: answer_plays split: if_splits)
  moreover have "plays d ?d" by (intro plays_uart uart_step.taken)
  ultimately show ?thesis by (rule plays_trans [rotated])
qed

lemma carry_out_plays:
  "carry_out fs hal cs s = Some t \<Longrightarrow> fatfs_ok fs \<Longrightarrow> plays (sys_device s) (sys_device t)"
proof (induction cs arbitrary: s)
  case (Cons c cs)
  then obtain u where u: "carry_out_call fs hal c s = Some u" "carry_out fs hal cs u = Some t"
    by (auto simp: bind_eq_Some_conv)
  have "sys_device u = sys_device s \<or> (\<exists>st a. Audio_Guide fs hal st (sys_audio s) = Some a \<and>
      sys_device u = (sys_device s)\<lparr>dev_audio := a\<rparr>)"
    using u(1) by (cases c) (fastforce simp: carry_out_call_def bind_eq_Some_conv Let_def)+
  then have "plays (sys_device s) (sys_device u)"
    using Cons.prems(2) by (auto simp: plays_same intro!: plays_audio [of fs] player_step.guide)
  then show ?case using Cons.IH [OF u(2) Cons.prems(2)] by (rule plays_trans)
qed (simp add: plays_same)

lemma UpdateGasSensors_plays: "AppTask_UpdateGasSensors p s = Some t \<Longrightarrow> plays (sys_device s) (sys_device t)"
  by (auto simp: AppTask_UpdateGasSensors_def bind_eq_Some_conv Let_def intro!: plays_same split: if_splits prod.splits)

lemma run_display_plays:
  assumes "run_display p s = Some t" and "fatfs_ok (card (meets p))"
  shows "plays (sys_device s) (sys_device t)"
proof -
  obtain calls m where m: "MatrixRun_Run (display_now p) (sys_matrix s) = (calls, m)" by fastforce
  then have "carry_out (card (meets p)) (hal_ok (meets p)) calls (s\<lparr>sys_device := (sys_device s)\<lparr>dev_matrix := m\<rparr>\<rparr>) = Some t"
    using assms(1) by (simp add: run_display_def)
  from carry_out_plays [OF this assms(2)] have "plays ((sys_device s)\<lparr>dev_matrix := m\<rparr>) (sys_device t)" by simp
  then show ?thesis using plays_matrix [OF matrix_step.run [OF m]] by (rule plays_trans [rotated])
qed

lemma main_pass_plays:
  assumes "main_pass p s = Some (tx, t)" and fs: "fatfs_ok (card (meets p))"
  shows "plays (sys_device s) (sys_device t)"
proof -
  obtain calls d u v w a where 1: "UART_Handler_Process (meets p) (sys_device s) = Some (tx, calls, d)"
    and 2: "carry_out (card (meets p)) (hal_ok (meets p)) calls (s\<lparr>sys_device := d\<rparr>) = Some u"
    and 3: "AppTask_UpdateGasSensors p u = Some v" and 4: "run_display p v = Some w"
    and 5: "Audio_Process (card (meets p)) (hal_ok (meets p)) (audio_now1 p) (audio_now2 p) (audio_now3 p) (sys_audio w) = Some a"
    and t: "t = w\<lparr>sys_device := (sys_device w)\<lparr>dev_audio := a\<rparr>\<rparr>"
    using assms(1) by (auto simp: main_pass_def AppTask_Run_def bind_eq_Some_conv)
  have "plays d (sys_device u)" using carry_out_plays [OF 2 fs] by simp
  moreover have "plays (sys_device w) (sys_device t)"
    using plays_audio [OF player_step.process [OF 5] fs] by (simp add: t)
  ultimately show ?thesis
    using Process_plays [OF 1 fs] UpdateGasSensors_plays [OF 3] run_display_plays [OF 4 fs] by (blast intro: plays_trans)
qed

text \<open>Interrupts do not use the card: a step of the player by one of them is a step with any card.\<close>

lemma fatfs_exists: "\<exists>fs :: 'f fatfs. fatfs_ok fs"
  by (rule exI [of _ "\<lparr>f_open = \<lambda>_. None, f_lseek = \<lambda>_ _. None, f_read = \<lambda>f _. ([], f)\<rparr>"]) (simp add: fatfs_ok_def)

lemma plays_interrupt: "(\<And>fs. player_step fs (dev_audio d) a) \<Longrightarrow> plays d (d\<lparr>dev_audio := a\<rparr>)"
  using fatfs_exists plays_audio by blast

lemma interrupt_plays: "interrupt s t \<Longrightarrow> plays (sys_device s) (sys_device t)"
  by (induction rule: interrupt.induct)
    (auto intro!: plays_interrupt intro: plays_uart uart_step.bytes callback_receives player_step.intros)

lemma step_plays: "system_step s t \<Longrightarrow> plays (sys_device s) (sys_device t)"
  by (induction rule: system_step.induct)
    (auto simp: pass_ok_def environment_ok_def surroundings_ok_def intro: interrupt_plays main_pass_plays)

lemma system_start_parts:
  assumes "system_start s"
  shows "player_start (sys_audio s)" "matrix_start (sys_matrix s)" "uart_start (sys_uart s)"
proof -
  obtain p1 k1 p2 k2 where i: "main_init p1 k1 p2 k2 = Some s"
    and co: "co_moderate (powf (meets p1)) (co_conversions p1)" "co_moderate (powf (meets p2)) (co_conversions p2)"
    using assms by (auto simp: system_start_def)
  obtain s' where s': "main_init p1 k1 p2 k2 = Some s'" "system_ok s'"
    "dev_uart (sys_device s') = uart_power_on" "dev_matrix (sys_device s') = started k2 (started k1 matrix_power_on)"
    "dev_audio (sys_device s') = audio_boot (hal_ok (meets p2))" using co by (rule main_init_safe)
  then have "s' = s" using i by simp
  moreover have "started k2 (started k1 matrix_power_on) = started k2 matrix_power_on"
    by (simp add: started_def MatrixRun_Init_def split: prod.split)
  ultimately show "player_start (sys_audio s)" "matrix_start (sys_matrix s)" "uart_start (sys_uart s)"
    using s' by (auto simp: player_start_def matrix_start_def uart_start_def started_def split: prod.split)
qed

interpretation player_in_system: machine_part system_start system_step system_ok player_start player_move player_inv sys_audio
  by unfold_locales (auto simp: system_start_parts dest: step_plays simp: plays_def intro: reached.start)

interpretation matrix_in_system: machine_part system_start system_step system_ok matrix_start matrix_move matrix_inv sys_matrix
  by unfold_locales (auto simp: system_start_parts dest: step_plays simp: plays_def intro: reached.start)

interpretation uart_in_system: machine_part system_start system_step system_ok uart_start uart_step uart_inv sys_uart
  by unfold_locales (auto simp: system_start_parts dest: step_plays simp: plays_def intro: reached.start)

section \<open>Property\<close>

text \<open>
  C3: The components are what they are on their own inside the whole program too. After any start and any
  sequence of passes and interrupts, the player, the receiver of samples inside it, the screen scheduler and
  the serial receiver are in states that each of them reaches alone, by its own operations; what is shown of a component
  alone holds of it in the program.
\<close>

theorem parts_of_the_program:
  assumes "system_reachable s"
  shows "player_reachable (sys_audio s) \<and> rx_reachable (rx (sys_audio s)) \<and>
    matrix_reachable (sys_matrix s) \<and> uart_reachable (sys_uart s)"
  using player_in_system.view_reached [OF assms] matrix_in_system.view_reached [OF assms]
    uart_in_system.view_reached [OF assms] rx_in_player.view_reached by blast

theorem parts_of_the_program_witness:
  "player_reachable (sys_audio booted) \<and> rx_reachable (rx (sys_audio booted)) \<and>
    matrix_reachable (sys_matrix booted) \<and> uart_reachable (sys_uart booted)"
  by (rule parts_of_the_program) (rule booted_facts)

end
