(* ===== verification/Panel_Scan.thy ===== *)
theory Panel_Scan
  imports Main_Loop
begin

text \<open>
  The panel in the whole program: \<open>HAL_TIM_PeriodElapsedCallback\<close> of \<open>Core/Src/main.c\<close>, the timer interrupt that
  scans the frame buffer while the main loop draws in it. The first part has the timer interrupt between
  the passes of the loop, the second between the operations of a drawing.
\<close>

section \<open>The timer interrupt\<close>

datatype timer = TIM3 | TIM4

text \<open>The program with the static variables of the timer interrupt and the pins of the panel.\<close>

record 'f board =
  brd_system :: "'f system"
  timer_flag :: u8
  scan_row :: u8
  brd_pins :: "pin \<Rightarrow> bool"

definition brd_image :: "'f board \<Rightarrow> fb" where
  "brd_image b = snd (sys_screen (brd_system b))"

definition HAL_TIM_PeriodElapsedCallback :: "timer \<Rightarrow> 'f board \<Rightarrow> (trace \<times> 'f board) option" where
  "HAL_TIM_PeriodElapsedCallback htim b =
     (let b = (if htim = TIM3 then b\<lparr>timer_flag := 1\<rparr> else b)
      in if htim = TIM4
         then do {
           (tr, row) \<leftarrow> HUB75_RefreshStep_ISR (scan_row b) (brd_image b);
           Some (tr, b\<lparr>scan_row := row, brd_pins := pins_after (brd_pins b) tr\<rparr>)
         }
         else Some ([], b))"

text \<open>
  The timer runs from the first initialisation of the panel on, which leaves the latch low; the row that is
  next when the loop begins can be any.
\<close>

definition board_start :: "'f board \<Rightarrow> bool" where
  "board_start b \<longleftrightarrow> system_start (brd_system b) \<and> unat (scan_row b) < 16 \<and> \<not> brd_pins b LAT"

inductive board_step :: "'f board \<Rightarrow> 'f board \<Rightarrow> bool" where
  program: "system_step (brd_system b) s \<Longrightarrow> board_step b (b\<lparr>brd_system := s\<rparr>)"
| timer: "HAL_TIM_PeriodElapsedCallback htim b = Some (tr, c) \<Longrightarrow> board_step b c"

abbreviation board_reachable :: "'f board \<Rightarrow> bool" where
  "board_reachable \<equiv> reached board_start board_step"

definition board_ok :: "'f board \<Rightarrow> bool" where
  "board_ok b \<longleftrightarrow> system_ok (brd_system b) \<and> unat (scan_row b) < 16 \<and> \<not> brd_pins b LAT"

lemma board_image_length: "board_ok b \<Longrightarrow> length (brd_image b) = 4096"
  by (simp add: board_ok_def brd_image_def system_ok_def)

text \<open>The interrupt of the scan shows the row that is next, of the buffer as it is.\<close>

lemma timer_law:
  assumes "board_ok b"
  obtains tr where "HAL_TIM_PeriodElapsedCallback TIM4 b
      = Some (tr, b\<lparr>scan_row := of_nat ((unat (scan_row b) + 1) mod 16), brd_pins := pins_after (brd_pins b) tr\<rparr>)"
    and "observe (brd_pins b) tr = row_shown (brd_image b) (unat (scan_row b))"
    and "\<not> pins_after (brd_pins b) tr LAT"
proof -
  have r: "unat (scan_row b) < 16" "\<not> brd_pins b LAT" using assms by (simp_all add: board_ok_def)
  obtain tr where "HUB75_RefreshStep_ISR (scan_row b) (brd_image b) = Some (tr, of_nat ((unat (scan_row b) + 1) mod 16))"
    "observe (brd_pins b) tr = row_shown (brd_image b) (unat (scan_row b))" "\<not> pins_after (brd_pins b) tr LAT"
    using refresh_law [where ps = "brd_pins b", OF board_image_length [OF assms] r] by auto
  then show ?thesis by (intro that [of tr]) (simp_all add: HAL_TIM_PeriodElapsedCallback_def)
qed

lemma unat_next_row: "unat (of_nat ((r + 1) mod 16) :: u8) = (r + 1) mod 16"
proof -
  have "(r + 1) mod 16 < 256" by (rule less_trans [of _ 16]) simp_all
  then show ?thesis by simp
qed

lemma timer_ok:
  assumes "board_ok b" and "HAL_TIM_PeriodElapsedCallback htim b = Some (tr, c)"
  shows "board_ok c" and "brd_system c = brd_system b"
proof -
  have "board_ok c \<and> brd_system c = brd_system b"
  proof (cases htim)
    case TIM3
    then show ?thesis using assms by (auto simp: HAL_TIM_PeriodElapsedCallback_def board_ok_def)
  next
    case TIM4
    obtain tr where "c = b\<lparr>scan_row := of_nat ((unat (scan_row b) + 1) mod 16), brd_pins := pins_after (brd_pins b) tr\<rparr>"
      "\<not> pins_after (brd_pins b) tr LAT"
      using timer_law [OF assms(1)] assms(2) TIM4 by (metis option.inject prod.inject)
    then show ?thesis using assms(1) unat_next_row [of "unat (scan_row b)"]
      by (simp add: board_ok_def del: unat_of_nat of_nat_mod)
  qed
  then show "board_ok c" "brd_system c = brd_system b" by simp_all
qed

lemma board_step_ok: "board_step b c \<Longrightarrow> board_ok b \<Longrightarrow> board_ok c"
proof (induction rule: board_step.induct)
  case (program b s)
  then show ?case using system_step_ok by (auto simp: board_ok_def)
qed (simp add: timer_ok)

interpretation board_machine: machine board_start board_step board_ok
  by unfold_locales (simp add: board_start_def board_ok_def system_start_ok, rule board_step_ok)

text \<open>The program is a part of the board: the timer interrupt does not touch it.\<close>

interpretation system_in_board: machine_part board_start board_step board_ok system_start system_step system_ok brd_system
proof unfold_locales
  fix b c :: "'a board"
  show "reached system_start system_step (brd_system b)" if "board_start b"
    using that by (intro reached.start) (simp add: board_start_def)
  show "system_step\<^sup>*\<^sup>* (brd_system b) (brd_system c)" if "board_ok b" "board_step b c"
    using that(2,1)
  proof cases
    case (program s)
    then show ?thesis by (auto intro: r_into_rtranclp)
  next
    case (timer htim tr)
    then show ?thesis using timer_ok(2) [OF that(1)] by simp
  qed
qed

section \<open>Interrupts while a picture is drawn\<close>

text \<open>
  The drawing operations write to the buffer that is scanned. After each of them the interrupt may come any
  number of times.
\<close>

fun draw_scanned :: "((fb \<Rightarrow> fb option) \<times> nat) list \<Rightarrow> u8 \<Rightarrow> fb \<Rightarrow> (trace \<times> u8 \<times> fb) option" where
  "draw_scanned [] row img = Some ([], row, img)"
| "draw_scanned ((f, n) # ops) row img = do {
     img \<leftarrow> f img;
     (tr, row) \<leftarrow> scan n row img;
     (tr', row, img) \<leftarrow> draw_scanned ops row img;
     Some (tr @ tr', row, img) }"

text \<open>The picture at each of the interrupts.\<close>

fun pictures :: "((fb \<Rightarrow> fb option) \<times> nat) list \<Rightarrow> fb \<Rightarrow> fb list" where
  "pictures [] img = []"
| "pictures ((f, n) # ops) img = (case f img of None \<Rightarrow> [] | Some img \<Rightarrow> replicate n img @ pictures ops img)"

definition rows_shown :: "nat \<Rightarrow> fb list \<Rightarrow> panel_event list" where
  "rows_shown r imgs = concat (map (\<lambda>i. row_shown (imgs ! i) ((r + i) mod 16)) [0..<length imgs])"

lemma rows_shown_replicate: "rows_shown r (replicate n img) = concat (map (\<lambda>i. row_shown img ((r + i) mod 16)) [0..<n])"
  unfolding rows_shown_def by (intro arg_cong [where f = concat] map_cong) auto

lemma map_upt_split: "map f [0..<m + n] = map f [0..<m] @ map (\<lambda>i. f (m + i)) [0..<n]"
  by (induction n) simp_all

lemma rows_shown_append: "rows_shown r (as @ bs) = rows_shown r as @ rows_shown ((r + length as) mod 16) bs"
proof -
  have "(r + (m + i)) mod 16 = ((r + m) mod 16 + i) mod 16" for m i by (simp add: mod_simps add.assoc)
  then have "map (\<lambda>i. row_shown ((as @ bs) ! (length as + i)) ((r + (length as + i)) mod 16)) [0..<length bs]
      = map (\<lambda>i. row_shown (bs ! i) (((r + length as) mod 16 + i) mod 16)) [0..<length bs]"
    by (intro map_cong refl) (simp only: nth_append_length_plus)
  moreover have "map (\<lambda>i. row_shown ((as @ bs) ! i) ((r + i) mod 16)) [0..<length as]
      = map (\<lambda>i. row_shown (as ! i) ((r + i) mod 16)) [0..<length as]"
    by (intro map_cong refl) (simp add: nth_append)
  ultimately show ?thesis unfolding rows_shown_def length_append map_upt_split concat_append by (simp only:)
qed

lemma draw_scanned_law:
  "list_all (\<lambda>(f, n). total_op f) ops \<Longrightarrow> length img = 4096 \<Longrightarrow> r < 16 \<Longrightarrow> \<not> ps LAT \<Longrightarrow>
   \<exists>tr img'. draw_scanned ops (of_nat r) img = Some (tr, of_nat ((r + sum_list (map snd ops)) mod 16), img') \<and>
     draw_all (map fst ops) img = Some img' \<and> length (pictures ops img) = sum_list (map snd ops) \<and>
     observe ps tr = rows_shown r (pictures ops img)"
proof (induction ops arbitrary: img r ps)
  case Nil
  then show ?case by (simp add: rows_shown_def)
next
  case (Cons op ops)
  obtain f n where op: "op = (f, n)" by (cases op)
  from Cons.prems obtain mid where mid: "f img = Some mid" "length mid = 4096" by (auto simp: op elim: total_opE)
  obtain tr where tr: "scan n (of_nat r) mid = Some (tr, of_nat ((r + n) mod 16))"
    "observe ps tr = rows_shown r (replicate n mid)" "\<not> pins_after ps tr LAT"
    using scan_law [where ps = ps and n = n, OF mid(2) Cons.prems(3,4)] unfolding rows_shown_replicate by blast
  have "(r + n) mod 16 < 16" "list_all (\<lambda>(f, n). total_op f) ops" using Cons.prems(1) by simp_all
  from Cons.IH [where ps = "pins_after ps tr", OF this(2) mid(2) this(1) tr(3)] obtain tr' img' where r:
    "draw_scanned ops (of_nat ((r + n) mod 16)) mid
      = Some (tr', of_nat (((r + n) mod 16 + sum_list (map snd ops)) mod 16), img')"
    "draw_all (map fst ops) mid = Some img'" "length (pictures ops mid) = sum_list (map snd ops)"
    "observe (pins_after ps tr) tr' = rows_shown ((r + n) mod 16) (pictures ops mid)" by blast
  have m: "((r + n) mod 16 + sum_list (map snd ops)) mod 16 = (r + sum_list (map snd (op # ops))) mod 16"
    unfolding op by (simp add: mod_simps add.assoc)
  have "draw_scanned (op # ops) (of_nat r) img = Some (tr @ tr', of_nat ((r + sum_list (map snd (op # ops))) mod 16), img')"
    using r(1) unfolding m unfolding op by (simp only: draw_scanned.simps mid(1) tr(1) bind.simps prod.case)
  moreover have "observe ps (tr @ tr') = rows_shown r (pictures (op # ops) img)"
    using mid(1) by (simp only: op observe_append tr(2) r(4) pictures.simps option.case rows_shown_append length_replicate)
  moreover have "draw_all (map fst (op # ops)) img = Some img'" "length (pictures (op # ops) img) = sum_list (map snd (op # ops))"
    using mid(1) r(2,3) by (simp_all add: op)
  ultimately show ?case by blast
qed

section \<open>Interrupts while nothing is drawn\<close>

fun timer_interrupts :: "nat \<Rightarrow> 'f board \<Rightarrow> (trace \<times> 'f board) option" where
  "timer_interrupts 0 b = Some ([], b)"
| "timer_interrupts (Suc n) b = do {
     (tr, b) \<leftarrow> HAL_TIM_PeriodElapsedCallback TIM4 b;
     (tr', b) \<leftarrow> timer_interrupts n b;
     Some (tr @ tr', b) }"

lemma timer_interrupts_law:
  "board_ok b \<Longrightarrow> \<exists>tr c. timer_interrupts n b = Some (tr, c) \<and> brd_system c = brd_system b \<and> board_ok c \<and>
     observe (brd_pins b) tr = rows_shown (unat (scan_row b)) (replicate n (brd_image b))"
proof (induction n arbitrary: b)
  case 0
  then show ?case by (simp add: rows_shown_def)
next
  case (Suc n)
  define c where "c tr = b\<lparr>scan_row := of_nat ((unat (scan_row b) + 1) mod 16), brd_pins := pins_after (brd_pins b) tr\<rparr>" for tr
  obtain tr where tr: "HAL_TIM_PeriodElapsedCallback TIM4 b = Some (tr, c tr)"
    "observe (brd_pins b) tr = row_shown (brd_image b) (unat (scan_row b))"
    using timer_law [OF Suc.prems] unfolding c_def by blast
  have c: "board_ok (c tr)" "brd_system (c tr) = brd_system b" using timer_ok [OF Suc.prems tr(1)] by simp_all
  obtain tr' d where d: "timer_interrupts n (c tr) = Some (tr', d)" "brd_system d = brd_system (c tr)" "board_ok d"
    "observe (brd_pins (c tr)) tr' = rows_shown (unat (scan_row (c tr))) (replicate n (brd_image (c tr)))"
    using Suc.IH [OF c(1)] by blast
  have pins: "brd_pins (c tr) = pins_after (brd_pins b) tr" and img: "brd_image (c tr) = brd_image b"
    and row: "unat (scan_row (c tr)) = (unat (scan_row b) + 1) mod 16"
    using c(2) unat_next_row by (simp_all add: c_def brd_image_def del: unat_of_nat of_nat_mod)
  have one: "rows_shown r [img] = row_shown img (r mod 16)" for r img by (simp add: rows_shown_def)
  have r: "unat (scan_row b) mod 16 = unat (scan_row b)" using Suc.prems by (simp add: board_ok_def)
  have "observe (brd_pins b) (tr @ tr') = row_shown (brd_image b) (unat (scan_row b)) @
      rows_shown ((unat (scan_row b) + 1) mod 16) (replicate n (brd_image b))"
    using d(4) unfolding observe_append tr(2) pins img row by (simp only:)
  also have "\<dots> = rows_shown (unat (scan_row b)) ([brd_image b] @ replicate n (brd_image b))"
    unfolding rows_shown_append one r by simp
  finally have "observe (brd_pins b) (tr @ tr') = rows_shown (unat (scan_row b)) (replicate (Suc n) (brd_image b))"
    by simp
  moreover have "timer_interrupts (Suc n) b = Some (tr @ tr', d)" by (simp add: tr(1) d(1))
  ultimately show ?case using d(2,3) c(2) by auto
qed

section \<open>The lamps of the panel\<close>

text \<open>
  The panel: a shift register of 128 columns, six lines each, and the lamps of the sixteen pairs of rows,
  which keep what was last latched. Of the six the upper half has the first three, the lower half the others.
\<close>

type_synonym panel = "bool list list \<times> (nat \<Rightarrow> bool list list)"

fun panel_sees :: "panel_event \<Rightarrow> panel \<Rightarrow> panel" where
  "panel_sees (Shift bs) (reg, lit) = (tl reg @ [bs], lit)"
| "panel_sees (Latch r) (reg, lit) = (reg, lit(r := reg))"
| "panel_sees Dark (reg, lit) = (reg, lit)"
| "panel_sees Light (reg, lit) = (reg, lit)"

definition lamp :: "panel \<Rightarrow> nat \<Rightarrow> nat \<Rightarrow> bool list" where
  "lamp q col row = (if row < 16 then take 3 (snd q row ! col) else drop 3 (snd q (row - 16) ! col))"

definition row_lamps :: "fb \<Rightarrow> nat \<Rightarrow> bool list list" where
  "row_lamps img r = map (\<lambda>x. colour_bits (img ! (r * 128 + x)) @ colour_bits (img ! ((r + 16) * 128 + x))) [0..<128]"

lemma row_lamps_length [simp]: "length (row_lamps img r) = 128"
  by (simp add: row_lamps_def)

lemma shifted_in: "length bss \<le> length reg \<Longrightarrow> fold panel_sees (map Shift bss) (reg, lit) = (drop (length bss) reg @ bss, lit)"
proof (induction bss arbitrary: reg)
  case (Cons bs bss)
  then obtain b reg' where "reg = b # reg'" by (cases reg) auto
  then show ?case using Cons by simp
qed simp

lemma row_lit: "length reg = 128 \<Longrightarrow> fold panel_sees (row_shown img r) (reg, lit) = (row_lamps img r, lit(r := row_lamps img r))"
proof -
  assume "length reg = 128"
  then have "fold panel_sees (map Shift (row_lamps img r)) (reg, lit) = (row_lamps img r, lit)" by (simp add: shifted_in)
  moreover have "row_shown img r = [Dark] @ map Shift (row_lamps img r) @ [Latch r, Light]"
    by (simp add: row_shown_def row_lamps_def)
  ultimately show ?thesis by simp
qed

lemma rows_lit: "length reg = 128 \<Longrightarrow>
  snd (fold panel_sees (concat (map (row_shown img) rs)) (reg, lit)) = (\<lambda>k. if k \<in> set rs then row_lamps img k else lit k)"
  by (induction rs arbitrary: reg lit) (auto simp: row_lit)

lemma all_rows: "set (map (\<lambda>i. (r + i) mod 16) [0..<16]) = {0..<16::nat}"
proof -
  have "k \<in> (\<lambda>i. (r + i) mod 16) ` {0..<16}" if "k < 16" for k
  proof
    show "k = (r + (k + 16 * r - r) mod 16) mod 16" using that by (simp add: mod_simps)
  qed simp
  then show ?thesis by auto
qed

text \<open>Sixteen rows of one picture, from any row on, light the lamps of the whole picture.\<close>

lemma picture_lit:
  assumes "length (fst q) = 128" and "col < 128" and "row < 32"
  shows "lamp (fold panel_sees (rows_shown r (replicate 16 img)) q) col row = colour_bits (img ! (row * 128 + col))"
proof -
  obtain reg lit where q: "q = (reg, lit)" "length reg = 128" using assms(1) by (cases q) auto
  have "rows_shown r (replicate 16 img) = concat (map (row_shown img) (map (\<lambda>i. (r + i) mod 16) [0..<16]))"
    unfolding rows_shown_replicate map_map o_def ..
  then have "snd (fold panel_sees (rows_shown r (replicate 16 img)) q) k = row_lamps img k" if "k < 16" for k
    unfolding q(1) by (simp only: rows_lit [OF q(2)] all_rows) (simp add: that)
  then have lit: "lamp (fold panel_sees (rows_shown r (replicate 16 img)) q) col row =
      (if row < 16 then take 3 (row_lamps img row ! col) else drop 3 (row_lamps img (row - 16) ! col))"
    using assms(3) by (simp add: lamp_def)
  have "\<not> row < 16 \<Longrightarrow> row - 16 + 16 = row" by simp
  then show ?thesis using assms(2) unfolding lit row_lamps_def colour_bits_def by simp
qed

text \<open>A visible point of the picture is on the panel turned by 180 degrees.\<close>

lemma lamp_of_point:
  assumes "length (fst q) = 128" and "visible x y"
  shows "lamp (fold panel_sees (rows_shown r (replicate 16 img)) q) (nat (128 - x)) (nat (32 - y)) = colour_bits (pixel img x y)"
proof -
  have v: "nat (128 - x) < 128" "nat (32 - y) < 32" using assms(2) by (auto simp: visible_def)
  have "127 - nat (x - 1) = nat (128 - x)" "31 - nat (y - 1) = nat (32 - y)" using assms(2) by (auto simp: visible_def)
  then have "pixel img x y = img ! (nat (32 - y) * 128 + nat (128 - x))" by (simp add: pixel_def pix_def add.commute)
  then show ?thesis using picture_lit [OF assms(1) v, of r img] by simp
qed

section \<open>Properties\<close>

text \<open>
  C33: The interrupt that scans the panel and a drawing, operation by operation, with any number of
  interrupts after each, in the buffer they share. The drawing becomes what it is without
  interrupts, and every row the panel is given is a whole row of the picture as it is at that moment,
  half-drawn pictures included, in the order of the rows.
\<close>

theorem scan_during_drawing:
  assumes "list_all (\<lambda>(f, n). total_op f) ops" and "length img = 4096" and "r < 16" and "\<not> ps LAT"
  shows "\<exists>tr img'. draw_scanned ops (of_nat r) img = Some (tr, of_nat ((r + sum_list (map snd ops)) mod 16), img') \<and>
    draw_all (map fst ops) img = Some img' \<and> length (pictures ops img) = sum_list (map snd ops) \<and>
    observe ps tr = rows_shown r (pictures ops img)"
  using assms by (rule draw_scanned_law)

text \<open>A clearing and a redrawing, each followed by a row: the row in between is dark.\<close>

lemma scan_during_drawing_witness:
  "\<exists>tr img'. draw_scanned [(HUB75_Clear, 1), (store_cell 5 7, 1)] (of_nat 15) (replicate 4096 7) = Some (tr, 1, img') \<and>
    observe (\<lambda>_. False) tr = row_shown (replicate 4096 0) 15 @ row_shown ((replicate 4096 0)[5 := 7]) 0"
  using scan_during_drawing [of "[(HUB75_Clear, 1), (store_cell 5 7, 1)]" "replicate 4096 7" 15 "\<lambda>_. False"]
  by (auto simp: total_clear total_op_def store_cell_def c_store_def HUB75_Clear_law rows_shown_def)

text \<open>
  C2: From the serial line to the lamps. The receiver waits for a start byte (\<open>rx_idle\<close>) when the interrupt of the idle line
  brings a frame with eight congestion values from 0 to 2. If they differ from the ones shown, or the dashboard
  waits to be redrawn anyway, and if the dashboard keeps the screen, the next pass of the main loop acknowledges the
  frame and stores the values, and sixteen interrupts of the scan after this pass set every lamp of the body
  of each car: those of its bar to the colour of its new value, those of its window to dark. The
  picture is on the panel turned by 180 degrees: point \<open>x\<close>, \<open>y\<close> is at column \<open>128 - x\<close> of row \<open>32 - y\<close>.
  The card keeps the contract of FatFs, and the carbon monoxide converter gives moderate numbers, as for \<open>main_loop_safe\<close>.
\<close>

theorem congestion_reaches_panel:
  assumes "board_reachable b" and "environment_ok p" and "rx_idle (dev_uart (sys_device (brd_system b)))"
    and "length ls = 8" and "list_all (\<lambda>v. v \<le> 2) ls"
    and "ls \<noteq> congestion_status (dev_matrix (sys_device (brd_system b))) \<or>
      dashboard_dirty (dev_matrix (sys_device (brd_system b))) \<noteq> 0"
    and "dashboard_stays (display_now p) (dev_matrix (sys_device (brd_system b)))"
    and "length (fst q) = 128"
  shows "\<exists>u s tr c. HAL_UARTEx_RxEventCallback (frame CMD_SET_LED ls @ rest) 13 (dev_uart (sys_device (brd_system b))) = Some u \<and>
    main_pass p ((brd_system b)\<lparr>sys_device := (sys_device (brd_system b))\<lparr>dev_uart := u\<rparr>\<rparr>)
      = Some ([frame CMD_ACK [CMD_SET_LED]], s) \<and>
    congestion_status (dev_matrix (sys_device s)) = ls \<and>
    timer_interrupts 16 (b\<lparr>brd_system := s\<rparr>) = Some (tr, c) \<and>
    (\<forall>i < 8.
      (\<forall>(x, y) \<in> car_bar i. lamp (fold panel_sees (observe (brd_pins b) tr) q) (nat (128 - x)) (nat (32 - y))
         = colour_bits (ucast (status_to_color (ls ! i)))) \<and>
      (\<forall>(x, y) \<in> car_window i. lamp (fold panel_sees (observe (brd_pins b) tr) q) (nat (128 - x)) (nat (32 - y))
         = [False, False, False]))"
proof -
  have ok: "board_ok b" using assms(1) by (rule board_machine.reached_inv)
  obtain u s where s: "HAL_UARTEx_RxEventCallback (frame CMD_SET_LED ls @ rest) 13 (dev_uart (sys_device (brd_system b))) = Some u"
    "main_pass p ((brd_system b)\<lparr>sys_device := (sys_device (brd_system b))\<lparr>dev_uart := u\<rparr>\<rparr>)
      = Some ([frame CMD_ACK [CMD_SET_LED]], s)"
    "system_ok s" "congestion_status (dev_matrix (sys_device s)) = ls" "shows_cars ls (snd (sys_screen s))"
    using congestion_reaches_screen [OF system_in_board.view_reached [OF assms(1)] assms(2-7), of rest] by blast
  have "board_ok (b\<lparr>brd_system := s\<rparr>)" using ok s(3) by (simp add: board_ok_def)
  from timer_interrupts_law [OF this, of 16] obtain tr c where t: "timer_interrupts 16 (b\<lparr>brd_system := s\<rparr>) = Some (tr, c)"
    "observe (brd_pins b) tr = rows_shown (unat (scan_row b)) (replicate 16 (snd (sys_screen s)))"
    by (auto simp: brd_image_def)
  have "lamp (fold panel_sees (observe (brd_pins b) tr) q) (nat (128 - x)) (nat (32 - y))
      = colour_bits (pixel (snd (sys_screen s)) x y)" if "visible x y" for x y
    unfolding t(2) by (rule lamp_of_point [OF assms(8) that])
  then have lamp: "lamp (fold panel_sees (observe (brd_pins b) tr) q) (nat (128 - fst p)) (nat (32 - snd p))
      = colour_bits (pixel (snd (sys_screen s)) (fst p) (snd p))" if "i < 8" "p \<in> car_bar i \<union> car_window i" for i p
    using body_visible [OF that] by blast
  have black: "colour_bits (ucast BLACK) = [False, False, False]" by (simp add: colour_bits_def BLACK_def)
  have "\<forall>i < 8.
      (\<forall>(x, y) \<in> car_bar i. lamp (fold panel_sees (observe (brd_pins b) tr) q) (nat (128 - x)) (nat (32 - y))
         = colour_bits (ucast (status_to_color (ls ! i)))) \<and>
      (\<forall>(x, y) \<in> car_window i. lamp (fold panel_sees (observe (brd_pins b) tr) q) (nat (128 - x)) (nat (32 - y))
         = [False, False, False])"
    using s(5) lamp unfolding shows_cars_def black [symmetric] by fastforce
  then show ?thesis using s(1,2,4) t(1) by blast
qed

text \<open>The panel after the initialisation, before the first interrupt.\<close>

definition board_booted :: "u8 list board" where
  "board_booted = \<lparr>brd_system = booted, timer_flag = 0, scan_row = 0, brd_pins = \<lambda>_. False\<rparr>"

lemma congestion_reaches_panel_witness:
  "\<exists>u s tr c. HAL_UARTEx_RxEventCallback (frame CMD_SET_LED [0, 1, 2, 0, 1, 2, 0, 1] @ replicate 51 0) 13
      (dev_uart (sys_device (brd_system board_booted))) = Some u \<and>
    main_pass quiet_pass ((brd_system board_booted)\<lparr>sys_device := (sys_device (brd_system board_booted))\<lparr>dev_uart := u\<rparr>\<rparr>)
      = Some ([frame CMD_ACK [CMD_SET_LED]], s) \<and>
    congestion_status (dev_matrix (sys_device s)) = [0, 1, 2, 0, 1, 2, 0, 1] \<and>
    timer_interrupts 16 (board_booted\<lparr>brd_system := s\<rparr>) = Some (tr, c) \<and>
    (\<forall>i < 8.
      (\<forall>(x, y) \<in> car_bar i. lamp (fold panel_sees (observe (brd_pins board_booted) tr) (replicate 128 [], \<lambda>_. []))
         (nat (128 - x)) (nat (32 - y)) = colour_bits (ucast (status_to_color ([0, 1, 2, 0, 1, 2, 0, 1] ! i)))) \<and>
      (\<forall>(x, y) \<in> car_window i. lamp (fold panel_sees (observe (brd_pins board_booted) tr) (replicate 128 [], \<lambda>_. []))
         (nat (128 - x)) (nat (32 - y)) = [False, False, False]))"
proof (rule congestion_reaches_panel)
  show "board_reachable board_booted"
    by (intro reached.start) (simp add: board_start_def board_booted_def booted_facts)
qed (simp_all add: board_booted_def booted_facts quiet_ok rx_idle_def uart_power_on_def packet_zero_def PKT_MAX_DATA_LEN_def
    dashboard_stays_def matrix_power_on_def SCREEN_DASHBOARD_def DASHBOARD_SHOW_MS_def quiet_now)

end
