(* ===== verification/Cycle_Delay.thy ===== *)
theory Cycle_Delay
  imports Prelude
begin

text \<open>
  The delays of \<open>Core/Src/drivers/display/rgb_matrix_device.c\<close> that count processor cycles. The counter is read
  in a loop; \<open>cyccnt n\<close> is what the n-th reading returns.
\<close>

section \<open>The code\<close>

text \<open>The registers of the trace unit that are used.\<close>

record dwt =
  DEMCR :: u32
  DWT_CTRL :: u32
  DWT_CYCCNT :: u32

definition CoreDebug_DEMCR_TRCENA_Msk :: u32 where
  "CoreDebug_DEMCR_TRCENA_Msk = push_bit 24 1"

definition DWT_CTRL_CYCCNTENA_Msk :: u32 where
  "DWT_CTRL_CYCCNTENA_Msk = 1"

definition DWT_Init :: "dwt \<Rightarrow> dwt" where
  "DWT_Init d =
     (if DEMCR d AND CoreDebug_DEMCR_TRCENA_Msk = 0
      then let d = d\<lparr>DEMCR := DEMCR d OR CoreDebug_DEMCR_TRCENA_Msk\<rparr>;
               d = d\<lparr>DWT_CYCCNT := 0\<rparr>
           in d\<lparr>DWT_CTRL := DWT_CTRL d OR DWT_CTRL_CYCCNTENA_Msk\<rparr>
      else d)"

partial_function (option) delay_loop :: "(nat \<Rightarrow> u32) \<Rightarrow> u32 \<Rightarrow> u32 \<Rightarrow> nat \<Rightarrow> nat option" where
  "delay_loop cyccnt startTick delayTicks n =
     (if cyccnt n - startTick < delayTicks then delay_loop cyccnt startTick delayTicks (n + 1) else Some n)"

text \<open>The result is the number of the reading that ended the delay.\<close>

definition DWT_Delay :: "u32 \<Rightarrow> (nat \<Rightarrow> u32) \<Rightarrow> u32 \<Rightarrow> nat option" where
  "DWT_Delay SystemCoreClock cyccnt us =
     (let startTick = cyccnt 0;
          delayTicks = us * (SystemCoreClock div 1000000)
      in delay_loop cyccnt startTick delayTicks 1)"

definition HUB75E_DelayUs :: "u32 \<Rightarrow> (nat \<Rightarrow> u32) \<Rightarrow> int \<Rightarrow> nat option" where
  "HUB75E_DelayUs SystemCoreClock cyccnt us = DWT_Delay SystemCoreClock cyccnt (of_int us)"

section \<open>Laws\<close>

text \<open>The counter is the time, in cycles, of each reading; between two readings one to \<open>k\<close> cycles pass.\<close>

definition counts :: "nat \<Rightarrow> (nat \<Rightarrow> nat) \<Rightarrow> (nat \<Rightarrow> u32) \<Rightarrow> bool" where
  "counts k time cyccnt \<longleftrightarrow>
     (\<forall>n. cyccnt n = of_nat (time n) \<and> time n < time (Suc n) \<and> time (Suc n) \<le> time n + k)"

lemma delay_loop_ends:
  assumes "\<And>m. n \<le> m \<Longrightarrow> m < n + j \<Longrightarrow> cyccnt m - s < d" and "\<not> cyccnt (n + j) - s < d"
  shows "delay_loop cyccnt s d n = Some (n + j)"
  using assms
proof (induction j arbitrary: n)
  case 0
  then show ?case by (subst delay_loop.simps) simp
next
  case (Suc j)
  have "delay_loop cyccnt s d (n + 1) = Some (n + 1 + j)"
    by (rule Suc.IH) (use Suc.prems in auto)
  then show ?case using Suc.prems(1) [of n] by (subst delay_loop.simps) simp
qed

lemma elapsed: "a \<le> b \<Longrightarrow> b - a < 2 ^ 32 \<Longrightarrow> unat (of_nat b - of_nat a :: u32) = b - a"
proof -
  assume ab: "a \<le> b" "b - a < 2 ^ 32"
  have "of_nat b - of_nat a = (of_nat (b - a) :: u32)" using ab(1) by (rule of_nat_diff [symmetric])
  then show ?thesis using ab(2) by (simp only: unat_of_nat) simp
qed

lemma delay_law:
  assumes c: "counts k time cyccnt" and d: "unat delay + k \<le> 2 ^ 32" "0 < delay"
  obtains n where "delay_loop cyccnt (cyccnt 0) delay 1 = Some n"
    and "time 0 + unat delay \<le> time n" and "time n < time 0 + unat delay + k"
proof -
  have cy: "cyccnt n = of_nat (time n)" and up: "time n < time (Suc n)" "time (Suc n) \<le> time n + k" for n
    using c by (simp_all add: counts_def)
  have far: "time 0 + n \<le> time n" for n 
  proof (induction n)
    case (Suc n)
    then show ?case using up(1) [of n] by simp
  qed simp
  have mono: "m \<le> n \<Longrightarrow> time m \<le> time n" for m n by (rule lift_Suc_mono_le [of time, OF less_imp_le [OF up(1)]])
  define late where "late n \<longleftrightarrow> time 0 + unat delay \<le> time n" for n
  define N where "N = (LEAST n. late n)"
  have late: "late N" unfolding N_def by (rule LeastI [of _ "unat delay"]) (simp add: late_def far)
  have early: "\<not> late m" if "m < N" for m using that unfolding N_def by (rule not_less_Least)
  have "0 < unat delay" using d(2) by (simp add: word_less_nat_alt)
  then have "N \<noteq> 0" using late by (intro notI) (simp add: late_def)
  then obtain j where j: "N = 1 + j" using not0_implies_Suc by auto
  have bound: "time N < time 0 + unat delay + k" using early [of j] up(2) [of j] by (simp add: j late_def)
  have now: "cyccnt m - cyccnt 0 < delay \<longleftrightarrow> \<not> late m" if "m \<le> N" for m
  proof -
    have "unat (cyccnt m - cyccnt 0) = time m - time 0"
      unfolding cy using mono [of 0 m] mono [OF that] bound d(1) by (intro elapsed) simp_all
    then show ?thesis using mono [of 0 m] by (auto simp: word_less_nat_alt late_def)
  qed
  have "delay_loop cyccnt (cyccnt 0) delay 1 = Some (1 + j)"
    by (rule delay_loop_ends) (use now early late j in auto)
  then show ?thesis using that [of N] late bound by (simp add: j late_def)
qed

text \<open>At 84 MHz the number of cycles wraps from 51130564 microseconds on: that delay is shorter than one of a microsecond.\<close>

lemma long_delay_wraps: "(51130564 :: u32) * (84000000 div 1000000) = 80"
  by simp

text \<open>The counter is started only together with the trace unit: it stays off where a debugger has enabled that one.\<close>

lemma traced_not_started: "DEMCR d AND CoreDebug_DEMCR_TRCENA_Msk \<noteq> 0 \<Longrightarrow> DWT_Init d = d"
  by (simp add: DWT_Init_def)

text \<open>A counter that does not run: no delay ends.\<close>

lemma delay_stuck:
  assumes "c - s < d"
  shows "delay_loop (\<lambda>n. c) s d n = None"
proof -
  have "\<not> c - s < d" if "delay_loop (\<lambda>n. c) s d n = Some r" for r
    by (rule delay_loop.raw_induct [where P = "\<lambda>cy s d n r. \<not> (\<forall>n. cy n - s < d)", OF _ that, simplified])
      (auto split: if_splits)
  then show ?thesis using assms by (cases "delay_loop (\<lambda>n. c) s d n") auto
qed

section \<open>Delays end\<close>

text \<open>
  A delay ends, and waits at least as long as it should and less than one turn of the polling loop longer, as long as the
  counter runs, the number of cycles fits 32 bits and no turn of the loop is so long that the
  counter comes round.
\<close>

theorem delay_waits:
  assumes "counts k time cyccnt" and "0 < clk div 1000000" and "0 < us"
    and "unat us * unat (clk div 1000000) + k \<le> 2 ^ 32" and "0 < k"
  shows "\<exists>n. DWT_Delay clk cyccnt us = Some n \<and> time 0 + unat us * unat (clk div 1000000) \<le> time n \<and>
    time n < time 0 + unat us * unat (clk div 1000000) + k"
proof -
  have u: "unat (us * (clk div 1000000)) = unat us * unat (clk div 1000000)"
    using assms(4,5) by (intro unat_mult_lem [THEN iffD1]) simp
  have "0 < us * (clk div 1000000)" using assms(2,3) unfolding word_less_nat_alt u by simp
  with assms(1,4) obtain n where "delay_loop cyccnt (cyccnt 0) (us * (clk div 1000000)) 1 = Some n"
    "time 0 + unat us * unat (clk div 1000000) \<le> time n" "time n < time 0 + unat us * unat (clk div 1000000) + k"
    unfolding u [symmetric] by (rule delay_law)
  then show ?thesis by (simp add: DWT_Delay_def)
qed

lemma delay_waits_witness:
  "\<exists>n. DWT_Delay 84000000 (\<lambda>n. of_nat (3 * n + 4294967290)) 10 = Some n \<and>
    4294967290 + 840 \<le> 3 * n + 4294967290 \<and> 3 * n + 4294967290 < 4294967290 + 840 + (3 :: nat)"
  using delay_waits [of 3 "\<lambda>n. 3 * n + 4294967290" "\<lambda>n. of_nat (3 * n + 4294967290)" 84000000 10]
  by (simp add: counts_def)

end
