(* ===== verification/Audio_Stream_Play.thy ===== *)
theory Audio_Stream_Play
  imports Audio_Player
begin

text \<open>
  A stream from the SPI blocks to the I2S halves: \<open>audio_stream_rx.c\<close> and \<open>audio_player.c\<close> together,
  driven by the two interrupts with a pass of the main loop after each. The specification is a queue of bytes
  with the two halves of the sound buffer behind it; the code is an implementation of it.
\<close>

section \<open>The device under a schedule\<close>

text \<open>
  A block of samples is complete, or the half that is on its way to the loudspeaker is sent; then \<open>main\<close>
  calls \<open>Audio_Process\<close>, at a time of the millisecond clock. No half is sent while no transfer runs.
\<close>

datatype stream_event = Block "u8 list" u32 | Sent u32

text \<open>The state is the player's, with the number of halves sent since the transfer was started.\<close>

fun stream_step :: "'f fatfs \<Rightarrow> stream_event \<Rightarrow> nat \<times> 'f audio \<Rightarrow> (u16 list list \<times> nat \<times> 'f audio) option" where
  "stream_step fs (Block b now) (k, s) = do {
     s \<leftarrow> Audio_Process fs True now now now (s\<lparr>rx := dma_complete b True (rx s)\<rparr>);
     Some ([], k, s) }"
| "stream_step fs (Sent now) (k, s) =
     (if s_isPlaying s = 0 then Some ([], k, s)
      else do {
        let h = i2s_half s k;
        s \<leftarrow> Audio_Process fs True now now now (i2s_interrupt k s);
        Some ([h], if s_isPlaying s = 0 then 0 else Suc k, s)
      })"

section \<open>The specification\<close>

text \<open>
  Waiting for enough bytes, or playing: the pieces in the half that is sent next and in the other one, the bytes
  that wait in the ring, and the time at which it last held any.
\<close>

datatype stream_spec = Waiting "u8 list" | Playing "u8 list" "u8 list" "u8 list" u32

fun spec_ring :: "stream_spec \<Rightarrow> u8 list" where
  "spec_ring (Waiting ring) = ring"
| "spec_ring (Playing cur nxt ring since) = ring"

fun spec_playing :: "stream_spec \<Rightarrow> bool" where
  "spec_playing (Waiting ring) = False"
| "spec_playing (Playing cur nxt ring since) = True"

text \<open>All bytes that are in the device and not yet sent.\<close>

fun spec_held :: "stream_spec \<Rightarrow> u8 list" where
  "spec_held (Waiting ring) = ring"
| "spec_held (Playing cur nxt ring since) = cur @ nxt @ ring"

text \<open>
  With four blocks the player starts, and fills both halves with what there is. A half that has been sent is
  filled again with at most 8192 bytes. The stream ends when a half is sent, the ring is empty, and
  has been for half a second.
\<close>

fun spec_step :: "stream_event \<Rightarrow> stream_spec \<Rightarrow> u8 list list \<times> stream_spec" where
  "spec_step (Block b now) (Waiting ring) =
     (let ring = take 32768 (ring @ b)
      in ([], if length ring < 7680 then Waiting ring
              else Playing (take 8192 ring) (take 8192 (drop 8192 ring)) (drop 16384 ring) now))"
| "spec_step (Block b now) (Playing cur nxt ring since) = ([], Playing cur nxt (take 32768 (ring @ b)) now)"
| "spec_step (Sent now) (Waiting ring) = ([], Waiting ring)"
| "spec_step (Sent now) (Playing cur nxt ring since) =
     ([cur], if ring = [] \<and> now - since \<ge> 500 then Waiting []
             else Playing nxt (take 8192 ring) (drop 8192 ring) (if ring = [] then since else now))"

section \<open>The stream source of the player\<close>

lemma Read_frame:
  "AudioStreamRx_Read s dst len = Some (m, d, t) \<Longrightarrow>
   s_readyFlags t = s_readyFlags s \<and> dma_target t = dma_target s"
  by (auto simp: AudioStreamRx_Read_def Let_def split: bind_splits if_splits)

lemma Fill_frame:
  assumes "AudioPlayer_FillHalfBuffer fs off s = Some t"
  shows "s_readyFlags (rx t) = s_readyFlags (rx s) \<and> dma_target (rx t) = dma_target (rx s)"
proof -
  have "s_readyFlags (rx u) = s_readyFlags (rx s) \<and> dma_target (rx u) = dma_target (rx s)"
    if "AudioSource_ReadMonoPcm fs n s = Some (m, u)" for n m u
    using that by (auto simp: AudioSource_ReadMonoPcm_def dest: Read_frame
        split: AudioSource_t.splits option.splits prod.splits bind_splits)
  then show ?thesis using assms
    by (auto simp: AudioPlayer_FillHalfBuffer_def Let_def split: bind_splits if_splits)
qed

lemma Fill_stream:
  assumes fs: "fatfs_ok fs" and b: "buf_inv s" and off: "off \<in> {0, 8192}"
    and src: "s_audioSource s = AUDIO_SOURCE_STREAM" and c: "caught_up (rx s)"
  obtains m r where "AudioPlayer_FillHalfBuffer fs off s = Some (after_fill fs off s m r)"
    and "buf_inv (after_fill fs off s m r)" and "rx_bytes r = drop 8192 (rx_bytes (rx s))"
    and "caught_up r"
proof -
  from fs b off obtain m r where
    f: "AudioPlayer_FillHalfBuffer fs off s = Some (after_fill fs off s m r)"
    "buf_inv (after_fill fs off s m r)" "rx_bytes r = stream_after s" by (rule Fill_law)
  have "caught_up r" using Fill_frame [OF f(1)] f(2) c by (simp add: caught_up_def buf_inv_def)
  with f src show ?thesis by (intro that [of m r]) (simp_all add: stream_after_def)
qed

lemma delivered_stream:
  "s_audioSource s = AUDIO_SOURCE_STREAM \<Longrightarrow> delivered fs s = take 8192 (rx_bytes (rx s))"
  by (simp add: delivered_def)

lemma count_zero: "s_count r = 0 \<longleftrightarrow> rx_bytes r = []"
  by (metis length_0_conv length_rx_bytes unat_eq_zero)

lemma caught_up_process: "caught_up r \<Longrightarrow> AudioStreamRx_Process r = Some r"
  by (simp add: caught_up_def Process_idle AudioStreamRx_TakeReadyBlock_def)

section \<open>The simulation\<close>

text \<open>What the player and the specification have in common between two events.\<close>

definition stream_ready :: "'f audio \<Rightarrow> bool" where
  "stream_ready s \<longleftrightarrow> player_inv s \<and> queue_names s = [] \<and> caught_up (rx s) \<and> s_bufferEvent s = 0 \<and>
     s_streamStopRequested s = 0"

fun stream_stands :: "nat \<times> 'f audio \<Rightarrow> stream_spec \<Rightarrow> bool" where
  "stream_stands (k, s) (Waiting ring) \<longleftrightarrow>
     stream_ready s \<and> k = 0 \<and> s_isPlaying s = 0 \<and> rx_bytes (rx s) = ring"
| "stream_stands (k, s) (Playing cur nxt ring since) \<longleftrightarrow>
     stream_ready s \<and> s_isPlaying s = 1 \<and> s_audioSource s = AUDIO_SOURCE_STREAM \<and>
     rx_bytes (rx s) = ring \<and> s_streamLastDataTick s = since \<and>
     i2s_half s k = half_of cur \<and> i2s_half s (Suc k) = half_of nxt"

lemma ready_inv: "stream_ready s \<Longrightarrow> player_inv s" "stream_ready s \<Longrightarrow> buf_inv s"
  by (auto simp: stream_ready_def player_inv_def)

lemma ready_rx:
  "stream_ready s \<Longrightarrow> caught_up r \<Longrightarrow> stream_ready (s\<lparr>rx := r, s_streamLastDataTick := now\<rparr>)"
  using queue_frame(2) [of "s\<lparr>rx := r, s_streamLastDataTick := now\<rparr>" s]
  by (simp add: stream_ready_def player_rx caught_up_def)

lemma ready_fill:
  "stream_ready s \<Longrightarrow> buf_inv (after_fill fs off s m r) \<Longrightarrow> caught_up r \<Longrightarrow>
   stream_ready (after_fill fs off s m r)"
  by (simp add: stream_ready_def player_inv_after_fill)

lemma ready_tick: "stream_ready (s\<lparr>s_streamLastDataTick := now\<rparr>) = stream_ready s"
  using queue_frame(2) [of "s\<lparr>s_streamLastDataTick := now\<rparr>" s] by (simp add: stream_ready_def)

lemma half_tick [simp]: "i2s_half (s\<lparr>s_streamLastDataTick := now\<rparr>) k = i2s_half s k"
  by (simp add: i2s_half_def)

lemma half_rx [simp]: "i2s_half (s\<lparr>rx := r\<rparr>) k = i2s_half s k"
  by (simp add: i2s_half_def)

lemma ready_queue: "stream_ready s \<Longrightarrow> AudioPlayer_IsQueueEmpty s"
  using length_queue_names [of s] by (auto simp: stream_ready_def player_inv_def empty_iff)

lemma stream_stop:
  assumes "stream_ready s" and "s_isPlaying s = 1" and "rx_bytes (rx s) = []"
  shows "stream_stands (0, Audio_Stop s) (Waiting [])"
proof -
  have "rx (Audio_Stop s) = rx s" by (simp add: Audio_Stop_def Let_def)
  then have "caught_up (rx (Audio_Stop s))" "rx_bytes (rx (Audio_Stop s)) = []"
    using assms by (simp_all add: stream_ready_def)
  moreover have "s_isPlaying (Audio_Stop s) = 0" "s_bufferEvent (Audio_Stop s) = 0"
    "s_streamStopRequested (Audio_Stop s) = 0"
    using assms(2) by (simp_all add: Audio_Stop_def Let_def)
  ultimately show ?thesis using assms(1) Audio_Stop_inv [of s] by (simp add: stream_ready_def)
qed

lemma stream_no_start:
  "rx_bytes (rx s) = [] \<Longrightarrow> Audio_StartStream fs hal_ok now s = Some (0, s)"
  using count_zero [of "rx s"] by (simp add: Audio_StartStream_def AudioStreamRx_Available_def player_consts)

text \<open>The start: both halves are filled from the ring.\<close>

lemma stream_start:
  assumes fs: "fatfs_ok fs" and r: "stream_ready s" and idle: "s_isPlaying s = 0"
    and enough: "7680 \<le> length (rx_bytes (rx s))"
  obtains t where "Audio_StartStream fs True now s = Some (1, t)"
    and "stream_stands (0, t) (Playing (take 8192 (rx_bytes (rx s)))
      (take 8192 (drop 8192 (rx_bytes (rx s)))) (drop 16384 (rx_bytes (rx s))) now)"
proof -
  let ?s = "s\<lparr>s_audioSource := AUDIO_SOURCE_STREAM, s_bufferEvent := 0, s_wavEof := 0,
    s_stopPending := 0, s_streamStopRequested := 0, s_streamLastDataTick := now\<rparr>"
  let ?c = "clear_buffers ?s"
  have c: "buf_inv ?c" "s_audioSource ?c = AUDIO_SOURCE_STREAM" "caught_up (rx ?c)" "rx ?c = rx s"
    using r by (simp_all add: buf_inv_def player_inv_def player_consts clear_buffers_def stream_ready_def)
  obtain m1 r1 where 1: "AudioPlayer_FillHalfBuffer fs 0 ?c = Some (after_fill fs 0 ?c m1 r1)"
    "buf_inv (after_fill fs 0 ?c m1 r1)" "rx_bytes r1 = drop 8192 (rx_bytes (rx s))" "caught_up r1"
    using Fill_stream [OF fs c(1) _ c(2,3), of 0] unfolding c(4) by auto
  let ?u = "after_fill fs 0 ?c m1 r1"
  obtain m2 r2 where 2: "AudioPlayer_FillHalfBuffer fs 8192 ?u = Some (after_fill fs 8192 ?u m2 r2)"
    "buf_inv (after_fill fs 8192 ?u m2 r2)" "rx_bytes r2 = drop 8192 (rx_bytes r1)" "caught_up r2"
    using Fill_stream [OF fs 1(2), of 8192] c(2) 1(4) by auto
  let ?v = "after_fill fs 8192 ?u m2 r2"
  let ?t = "?v\<lparr>i2s_running := True, s_isPlaying := 1\<rparr>"
  have "7680 \<le> unat (s_count (rx s))" using enough by simp
  then have "\<not> s_count (rx s) < 7680" by (simp add: word_less_nat_alt)
  then have start: "Audio_StartStream fs True now s = Some (1, ?t)"
    using idle 1(1) 2(1) by (simp add: Audio_StartStream_def AudioStreamRx_Available_def prefill_def player_consts)
  have "player_inv ?t" using StartStream_inv [OF fs ready_inv(1) [OF r], of True now] start by auto
  moreover have "queue_names ?t = []"
    using r by (simp add: queue_names_def queue_length_def stream_ready_def)
  moreover have "i2s_half ?t 0 = half_of (take 8192 (rx_bytes (rx s)))"
    "i2s_half ?t 1 = half_of (take 8192 (rx_bytes r1))"
    using half_after_fill [OF c(1) fs, of 0 m1 r1] half_after_fill [OF 1(2) fs, of 1 m2 r2]
      delivered_stream [of ?c fs] delivered_stream [of ?u fs] c
    by (simp_all add: half_off_def i2s_half_def)
  ultimately show ?thesis using 1 2 c
    by (intro that [OF start]) (simp add: stream_ready_def)
qed

section \<open>A pass after each event\<close>

lemma stream_receive:
  assumes r: "stream_ready s" and b: "length b = 1920"
  obtains r where
    "process_stream_rx now (s\<lparr>rx := dma_complete b True (rx s)\<rparr>) = Some (s\<lparr>rx := r, s_streamLastDataTick := now\<rparr>)"
    and "caught_up r" and "rx_bytes r = take 32768 (rx_bytes (rx s) @ b)" and "rx_bytes r \<noteq> []"
proof -
  have "caught_up (rx s)" using r by (simp add: stream_ready_def)
  from serve_block [OF this b] obtain r where
    p: "AudioStreamRx_Process (dma_complete b True (rx s)) = Some r" "caught_up r"
      "rx_bytes r = rx_bytes (rx s) @ take (32768 - unat (s_count (rx s))) b" by metis
  have "unat (s_count (rx s)) \<le> 32768"
    using r by (simp add: stream_ready_def caught_up_def rx_inv_def ring_inv_def)
  then have bytes: "rx_bytes r = take 32768 (rx_bytes (rx s) @ b)"
    unfolding p(3) take_append length_rx_bytes by simp
  have "length (rx_bytes r) = min (length (rx_bytes (rx s)) + 1920) 32768"
    unfolding bytes length_take length_append b ..
  then have ne: "rx_bytes r \<noteq> []" by (auto simp del: length_rx_bytes)
  then have "0 < AudioStreamRx_Available r" by (simp add: AudioStreamRx_Available_def word_gt_0 count_zero)
  then have "process_stream_rx now (s\<lparr>rx := dma_complete b True (rx s)\<rparr>) = Some (s\<lparr>rx := r, s_streamLastDataTick := now\<rparr>)"
    using p(1) by (simp add: process_stream_rx_def)
  with p(2) bytes ne show ?thesis by (intro that)
qed

lemma stream_block:
  assumes fs: "fatfs_ok fs" and st: "stream_stands (k, s) a" and b: "length b = 1920"
  shows "\<exists>t. stream_step fs (Block b now) (k, s) = Some (map half_of (fst (spec_step (Block b now) a)), t) \<and>
    stream_stands t (snd (spec_step (Block b now) a))"
proof -
  have r: "stream_ready s" using st by (cases a) simp_all
  from stream_receive [OF r b] obtain x where
    x: "process_stream_rx now (s\<lparr>rx := dma_complete b True (rx s)\<rparr>) = Some (s\<lparr>rx := x, s_streamLastDataTick := now\<rparr>)"
      "caught_up x" "rx_bytes x = take 32768 (rx_bytes (rx s) @ b)" "rx_bytes x \<noteq> []" by metis
  let ?t = "s\<lparr>rx := x, s_streamLastDataTick := now\<rparr>"
  have t: "stream_ready ?t" using r x(2) by (rule ready_rx)
  show ?thesis
  proof (cases a)
    case (Playing cur nxt ring since)
    have "process_playing fs now ?t = Some ?t"
      using st t x(4) by (simp add: Playing process_playing_def serve_half_def stream_ready_def end_wav_def
          end_stream_def AudioStreamRx_Available_def count_zero)
    then show ?thesis using st t x by (simp add: Playing Audio_Process_def)
  next
    case (Waiting ring)
    have spec: "spec_step (Block b now) a = ([], if length (rx_bytes x) < 7680 then Waiting (rx_bytes x)
        else Playing (take 8192 (rx_bytes x)) (take 8192 (drop 8192 (rx_bytes x))) (drop 16384 (rx_bytes x)) now)"
      using st unfolding x(3) by (simp add: Waiting Let_def del: take_append length_take)
    show ?thesis
    proof (cases "length (rx_bytes x) < 7680")
      case True
      then have "AudioStreamRx_Available x < AUDIO_STREAM_PREBUFFER_BYTES"
        by (simp add: AudioStreamRx_Available_def player_consts word_less_nat_alt)
      then have "Audio_StartStream fs True now ?t = Some (0, ?t)" using st by (simp add: Waiting Audio_StartStream_def)
      then show ?thesis using st t x(1) True ready_queue [OF t]
        unfolding spec by (simp add: Waiting Audio_Process_def)
    next
      case False
      then have "7680 \<le> length (rx_bytes (rx ?t))" by simp
      moreover have "s_isPlaying ?t = 0" using st by (simp add: Waiting)
      ultimately obtain u where u: "Audio_StartStream fs True now ?t = Some (1, u)"
        "stream_stands (0, u) (Playing (take 8192 (rx_bytes x)) (take 8192 (drop 8192 (rx_bytes x)))
          (drop 16384 (rx_bytes x)) now)"
        using stream_start [OF fs t] by auto
      then show ?thesis using st t x(1) False ready_queue [OF t]
        unfolding spec by (simp add: Waiting Audio_Process_def)
    qed
  qed
qed

lemma stream_sent:
  assumes fs: "fatfs_ok fs" and st: "stream_stands (k, s) a"
  shows "\<exists>t. stream_step fs (Sent now) (k, s) = Some (map half_of (fst (spec_step (Sent now) a)), t) \<and>
    stream_stands t (snd (spec_step (Sent now) a))"
proof (cases a)
  case (Waiting ring)
  then show ?thesis using st by simp
next
  case (Playing cur nxt ring since)
  have r: "stream_ready s" and p: "s_isPlaying s = 1" "s_audioSource s = AUDIO_SOURCE_STREAM"
    and ring: "rx_bytes (rx s) = ring" and tick: "s_streamLastDataTick s = since"
    and halves: "i2s_half s k = half_of cur" "i2s_half s (Suc k) = half_of nxt"
    using st by (simp_all add: Playing)
  let ?since = "if ring = [] then since else now"
  let ?s = "s\<lparr>s_streamLastDataTick := ?since\<rparr>"
  have c: "caught_up (rx s)" and ev: "s_bufferEvent s = 0" using r by (simp_all add: stream_ready_def)
  have rs: "stream_ready ?s" using r by (simp add: ready_tick)
  have off: "half_off k \<in> {0, 8192}" by (simp add: half_off_def)
  have "process_stream_rx now (i2s_interrupt k s) = Some (i2s_interrupt k ?s)"
    using caught_up_process [OF c] tick ring
    by (simp add: process_stream_rx_def i2s_interrupt_def HAL_I2S_TxHalfCpltCallback_def
        HAL_I2S_TxCpltCallback_def AudioStreamRx_Available_def word_gt_0 count_zero)
  moreover obtain m x where f: "AudioPlayer_FillHalfBuffer fs (half_off k) ?s = Some (after_fill fs (half_off k) ?s m x)"
    "buf_inv (after_fill fs (half_off k) ?s m x)" "rx_bytes x = drop 8192 ring" "caught_up x"
    using Fill_stream [OF fs ready_inv(2) [OF rs] off] p c ring by auto
  let ?u = "after_fill fs (half_off k) ?s m x"
  have u: "stream_ready ?u" using rs f(2,4) by (rule ready_fill)
  have "process_playing fs now (i2s_interrupt k ?s) = Some (end_stream now ?u)"
    using serve_pass [OF _ _ f(1), of now] ev p by (simp add: end_wav_def)
  moreover have "s_isPlaying (i2s_interrupt k ?s) = 1"
    using p by (simp add: i2s_interrupt_def HAL_I2S_TxHalfCpltCallback_def HAL_I2S_TxCpltCallback_def)
  ultimately have pass: "Audio_Process fs True now now now (i2s_interrupt k s)
      = (let v = end_stream now ?u in if s_isPlaying v = 0
         then (if \<not> AudioPlayer_IsQueueEmpty v then AudioPlayer_PlayNextFromQueue fs True v
               else map_option snd (Audio_StartStream fs True now v)) else Some v)"
    by (simp add: Audio_Process_def Let_def)
  have stop: "end_stream now ?u = (if ring = [] \<and> now - since \<ge> 500 then Audio_Stop ?u else ?u)"
    using p ev r f(3) by (auto simp: end_stream_def stream_ready_def AudioStreamRx_Available_def count_zero player_consts)
  show ?thesis
  proof (cases "ring = [] \<and> now - since \<ge> 500")
    case True
    have w: "stream_stands (0, Audio_Stop ?u) (Waiting [])"
      using stream_stop [OF u] p f(3) True by simp
    then have "Audio_StartStream fs True now (Audio_Stop ?u) = Some (0, Audio_Stop ?u)"
      by (intro stream_no_start) simp
    moreover have idle: "stream_ready (Audio_Stop ?u)" "s_isPlaying (Audio_Stop ?u) = 0"
      using w by (simp_all only: stream_stands.simps)
    moreover have "AudioPlayer_IsQueueEmpty (Audio_Stop ?u)" using idle(1) by (rule ready_queue)
    ultimately have "Audio_Process fs True now now now (i2s_interrupt k s) = Some (Audio_Stop ?u)"
      unfolding pass stop if_P [OF True] Let_def by simp
    then show ?thesis using w p halves True by (simp add: Playing)
  next
    case False
    have "i2s_half ?u (Suc (Suc k)) = i2s_half ?u k" by (simp add: i2s_half_def half_off_def)
    then have h: "i2s_half ?u (Suc (Suc k)) = half_of (take 8192 ring)" "i2s_half ?u (Suc k) = half_of nxt"
      using half_after_fill [OF ready_inv(2) [OF rs] fs, of k m x] delivered_stream [of ?s fs] p ring halves by simp_all
    have "Audio_Process fs True now now now (i2s_interrupt k s) = Some ?u"
      using p unfolding pass stop if_not_P [OF False] by simp
    then show ?thesis using u p halves h f(3) False by (auto simp: Playing)
  qed
qed

section \<open>Any schedule\<close>

fun event_ok :: "stream_event \<Rightarrow> bool" where
  "event_ok (Block b now) \<longleftrightarrow> length b = 1920"
| "event_ok (Sent now) \<longleftrightarrow> True"

text \<open>The card may be another one at every event, as long as it keeps the contract of FatFs.\<close>

definition stream_device :: "'f fatfs \<times> stream_event \<Rightarrow> nat \<times> 'f audio \<Rightarrow> (u16 list list \<times> nat \<times> 'f audio) option" where
  "stream_device = (\<lambda>(fs, e). stream_step fs e)"

definition schedule_ok :: "('f fatfs \<times> stream_event) list \<Rightarrow> bool" where
  "schedule_ok es \<longleftrightarrow> list_all (\<lambda>e. fatfs_ok (fst e) \<and> event_ok (snd e)) es"

lemma stream_follows:
  assumes "fatfs_ok fs" and "stream_stands (k, s) a" and "event_ok e"
  shows "\<exists>t. stream_step fs e (k, s) = Some (map half_of (fst (spec_step e a)), t) \<and>
    stream_stands t (snd (spec_step e a))"
proof (cases e)
  case (Block b now)
  with assms show ?thesis using stream_block [of fs k s a b now] by simp
next
  case (Sent now)
  with assms show ?thesis using stream_sent [of fs k s a now] by simp
qed

definition stream_spec_run :: "('f fatfs \<times> stream_event) list \<Rightarrow> stream_spec \<Rightarrow> u8 list list \<times> stream_spec" where
  "stream_spec_run = spec_events (\<lambda>e. spec_step (snd e))"

interpretation stream_play:
  implementation "stream_device :: 'f fatfs \<times> stream_event \<Rightarrow> _" "\<lambda>e. spec_step (snd e)" half_of
    "\<lambda>e. fatfs_ok (fst e) \<and> event_ok (snd e)" stream_stands
proof unfold_locales
  fix s :: "nat \<times> 'f audio" and a and e :: "'f fatfs \<times> stream_event"
  assume "stream_stands s a" and "fatfs_ok (fst e) \<and> event_ok (snd e)"
  then show "\<exists>t. stream_device e s = Some (map half_of (fst (spec_step (snd e) a)), t) \<and>
      stream_stands t (snd (spec_step (snd e) a))"
    using stream_follows [of "fst e" "fst s" "snd s" a "snd e"] by (simp add: stream_device_def split_beta)
qed

lemma boot_stands: "stream_stands (0, audio_boot True :: 'f audio) (Waiting [])"
proof -
  let ?s = "audio_boot True :: 'f audio"
  have "dma_target rx_power_on = None" by (simp add: rx_power_on_def)
  then have "caught_up (rx ?s)"
    using caught_up_start [of rx_power_on] by (simp add: audio_boot_def Init_rx Let_def)
  moreover have "rx_bytes (rx ?s) = []"
    using boot_idle(3) [of True, where 'c = 'f] by (simp add: rx_quiet_def count_zero)
  moreover have "s_bufferEvent ?s = 0" "s_streamStopRequested ?s = 0"
    by (simp_all add: audio_boot_def Audio_Init_def clear_buffers_def Let_def)
  ultimately show ?thesis using player_boot_inv [of True, where 'a = 'f]
    by (simp add: stream_ready_def boot_idle)
qed

section \<open>What the specification conserves\<close>

text \<open>
  The bytes of the blocks of a schedule; a schedule without a loss: no block arrives at a ring that has no
  room for it, and no half is sent when the ring has been empty for half a second.
\<close>

fun received :: "('f fatfs \<times> stream_event) list \<Rightarrow> u8 list" where
  "received [] = []"
| "received ((fs, Block b now) # es) = b @ received es"
| "received ((fs, Sent now) # es) = received es"

fun event_keeps :: "stream_event \<Rightarrow> stream_spec \<Rightarrow> bool" where
  "event_keeps (Block b now) a \<longleftrightarrow> length (spec_ring a) + length b \<le> 32768"
| "event_keeps (Sent now) (Waiting ring) \<longleftrightarrow> True"
| "event_keeps (Sent now) (Playing cur nxt ring since) \<longleftrightarrow> ring \<noteq> [] \<or> now - since < 500"

fun schedule_keeps :: "('f fatfs \<times> stream_event) list \<Rightarrow> stream_spec \<Rightarrow> bool" where
  "schedule_keeps [] a \<longleftrightarrow> True"
| "schedule_keeps ((fs, e) # es) a \<longleftrightarrow> event_keeps e a \<and> schedule_keeps es (snd (spec_step e a))"

lemma spec_step_conserves:
  "event_keeps e a \<Longrightarrow>
   concat (fst (spec_step e a)) @ spec_held (snd (spec_step e a)) = spec_held a @ received [(fs, e)]"
proof (induction e a rule: spec_step.induct)
  case (1 b now ring)
  have "take 8192 r @ take 8192 (drop 8192 r) @ drop 16384 r = r" for r :: "u8 list"
    using append_take_drop_id [of 8192 r] append_take_drop_id [of 8192 "drop 8192 r"] by simp
  then show ?case using 1 by (simp add: Let_def del: take_append drop_append append_assoc)
qed (auto simp: not_le)

lemma spec_run_simps:
  "stream_spec_run [] a = ([], a)"
  "stream_spec_run (e # es) a
     = (case spec_step (snd e) a of (out, b) \<Rightarrow> apfst (append out) (stream_spec_run es b))"
  by (simp_all add: stream_spec_run_def)

lemma spec_conserves:
  "schedule_keeps es a \<Longrightarrow>
   concat (fst (stream_spec_run es a)) @ spec_held (snd (stream_spec_run es a))
     = spec_held a @ received es"
proof (induction es arbitrary: a)
  case (Cons x es)
  obtain fs e where x: "x = (fs, e)" by (cases x)
  obtain out b where o: "spec_step e a = (out, b)" by fastforce
  obtain rest c where c: "stream_spec_run es b = (rest, c)" by fastforce
  have "concat (out @ rest) @ spec_held c = concat out @ spec_held b @ received es"
    using Cons.IH [of b] Cons.prems by (simp add: x o c)
  also have "\<dots> = spec_held a @ received [(fs, e)] @ received es"
    using spec_step_conserves [of e a fs] Cons.prems by (simp add: x o)
  also have "received [(fs, e)] @ received es = received (x # es)" by (cases e) (simp_all add: x)
  finally show ?case by (simp add: x o c spec_run_simps)
qed (simp add: spec_run_simps)

text \<open>Every piece is at most a half, and of whole samples.\<close>

fun spec_whole :: "stream_spec \<Rightarrow> bool" where
  "spec_whole (Waiting ring) \<longleftrightarrow> even (length ring)"
| "spec_whole (Playing cur nxt ring since) \<longleftrightarrow> even (length ring) \<and>
     (\<forall>p \<in> {cur, nxt}. even (length p) \<and> length p \<le> 8192)"

lemma even_min: "even a \<Longrightarrow> even b \<Longrightarrow> even (min a (b :: nat))"
  by (simp add: min_def)

lemma spec_step_whole:
  "event_ok e \<Longrightarrow> spec_whole a \<Longrightarrow>
   spec_whole (snd (spec_step e a)) \<and> (\<forall>p \<in> set (fst (spec_step e a)). even (length p) \<and> length p \<le> 8192)"
  by (induction e a rule: spec_step.induct) (auto simp: Let_def even_min simp del: take_append drop_append)

lemma spec_whole_pieces:
  "schedule_ok es \<Longrightarrow> spec_whole a \<Longrightarrow>
   \<forall>p \<in> set (fst (stream_spec_run es a)). even (length p) \<and> length p \<le> 8192"
proof (induction es arbitrary: a)
  case (Cons x es)
  obtain fs e where x: "x = (fs, e)" by (cases x)
  obtain out b where o: "spec_step e a = (out, b)" by fastforce
  obtain rest c where "stream_spec_run es b = (rest, c)" by fastforce
  then show ?case
    using Cons.IH [of b] spec_step_whole [of e a] Cons.prems by (auto simp: x o schedule_ok_def spec_run_simps)
qed (simp add: spec_run_simps)

lemma run_implements:
  assumes "schedule_ok es"
  obtains k t where "run_events stream_device es (0, audio_boot True)
      = Some (map half_of (fst (stream_spec_run es (Waiting []))), k, t)"
    and "stream_stands (k, t) (snd (stream_spec_run es (Waiting [])))"
  using stream_play.run_follows [OF boot_stands assms [unfolded schedule_ok_def]]
  by (auto simp: stream_spec_run_def)

text \<open>The four blocks with which the player starts, and the two halves it sends first.\<close>

definition first_events :: "'f fatfs \<Rightarrow> u8 list list \<Rightarrow> u32 list \<Rightarrow> ('f fatfs \<times> stream_event) list" where
  "first_events fs bs ts = map (Pair fs) (map2 Block bs (take 4 ts) @ map Sent (drop 4 ts))"

lemma four: "length xs = 4 \<longleftrightarrow> (\<exists>a b c d. xs = [a, b, c, d])"
  by (auto simp: length_Suc_conv eval_nat_numeral)

lemma replicate_four: "replicate 4 x = [x, x, x, x]"
  by (simp add: eval_nat_numeral)

lemma concat_replicates: "concat (replicate m (replicate n x)) = replicate (m * n) x"
  by (induction m) (simp_all add: replicate_add)

lemma first_events_received:
  "length bs = 4 \<Longrightarrow> received (first_events fs bs [t1, t2, t3, t4, t5, t6]) = concat bs"
  by (auto simp: four first_events_def)

lemma first_events_ok:
  "fatfs_ok fs \<Longrightarrow> length bs = 4 \<Longrightarrow> \<forall>b \<in> set bs. length b = 1920 \<Longrightarrow> schedule_ok (first_events fs bs [t1, t2, t3, t4, t5, t6])"
  by (auto simp: four schedule_ok_def first_events_def)

lemma first_events_spec:
  assumes "length bs = 4" and "\<forall>b \<in> set bs. length b = 1920" and "t5 - t4 < 500"
  shows "stream_spec_run (first_events fs bs [t1, t2, t3, t4, t5, t6]) (Waiting [])
    = ([concat bs, []], if t6 - t4 \<ge> 500 then Waiting [] else Playing [] [] [] t4)"
  using assms by (auto simp: four spec_run_simps first_events_def Let_def not_le)

section \<open>Properties\<close>

text \<open>
  C14: The stream player implements its specification. From the start of the device, for every schedule of complete
  blocks and sent halves at any times, with a pass of the main loop after each, the halves that go to the loudspeaker
  are the pieces the specification delivers, on both channels and filled up with silence; the ring holds
  the bytes it says, and the player plays exactly when it says so.
\<close>

theorem stream_implements_spec:
  assumes "schedule_ok es"
  shows "let (pieces, a) = stream_spec_run es (Waiting [])
    in \<exists>k t. run_events stream_device es (0, audio_boot True) = Some (map half_of pieces, k, t) \<and>
      rx_bytes (rx t) = spec_ring a \<and> (s_isPlaying t \<noteq> 0 \<longleftrightarrow> spec_playing a)"
proof -
  obtain k t where "run_events stream_device es (0, audio_boot True)
      = Some (map half_of (fst (stream_spec_run es (Waiting []))), k, t)"
    "stream_stands (k, t) (snd (stream_spec_run es (Waiting [])))" using assms by (rule run_implements)
  then show ?thesis by (cases "snd (stream_spec_run es (Waiting []))") (auto split: prod.split)
qed

lemma stream_implements_spec_witness:
  "\<exists>k t. run_events stream_device (first_events (mem_fatfs []) (replicate 4 (replicate 1920 7)) [1, 2, 3, 4, 100, 200])
      (0, audio_boot True) = Some ([half_of (replicate 7680 7), half_of []], k, t) \<and> s_isPlaying t \<noteq> 0"
proof -
  let ?es = "first_events (mem_fatfs []) (replicate 4 (replicate 1920 7)) [1, 2, 3, 4, 100, 200]"
  have ok: "schedule_ok ?es" by (rule first_events_ok [OF mem_fatfs_ok]) simp_all
  have "stream_spec_run ?es (Waiting []) = ([replicate 7680 7, []], Playing [] [] [] 4)"
    by (subst first_events_spec) (simp_all add: concat_replicates)
  with stream_implements_spec [OF ok] show ?thesis by auto
qed

text \<open>
  C4: Nothing of a stream is lost, repeated or exchanged between the SPI and the loudspeaker, as long as the main
  loop keeps up: it makes one pass after every complete block and after every half that was sent, before the next
  of them, every restart of the reception and of the output succeeds, and no file or command interferes. (A later
  loop can exchange two blocks, \<open>late_service_order\<close>, or lose one, \<open>overrun_loses_block_uncounted\<close>.) If then no block
  arrives at a ring without room for it and the stream never dries up for half a second, the bytes of
  all blocks are, in order, the pieces that were sent, each a run of whole samples that is filled up with silence
  to a half, the two pieces in the sound buffer, and the bytes that wait in the ring.
\<close>

theorem stream_conserves_samples:
  assumes "schedule_ok es" and "schedule_keeps es (Waiting [])"
  shows "\<exists>pieces k t. run_events stream_device es (0, audio_boot True) = Some (map half_of pieces, k, t) \<and>
    (\<forall>p \<in> set pieces. even (length p) \<and> length p \<le> 8192) \<and>
    (if s_isPlaying t = 0 then concat pieces @ rx_bytes (rx t) = received es
     else \<exists>cur nxt. i2s_half t k = half_of cur \<and> i2s_half t (Suc k) = half_of nxt \<and>
       concat pieces @ cur @ nxt @ rx_bytes (rx t) = received es)"
proof -
  let ?p = "fst (stream_spec_run es (Waiting []))" and ?a = "snd (stream_spec_run es (Waiting []))"
  obtain k t where run: "run_events stream_device es (0, audio_boot True) = Some (map half_of ?p, k, t)"
    "stream_stands (k, t) ?a" using assms(1) by (rule run_implements)
  have held: "concat ?p @ spec_held ?a = received es" using spec_conserves [OF assms(2)] by simp
  have "spec_whole (Waiting [])" by simp
  with assms(1) have whole: "\<forall>p \<in> set ?p. even (length p) \<and> length p \<le> 8192" by (rule spec_whole_pieces)
  show ?thesis
  proof (intro exI conjI)
    show "if s_isPlaying t = 0 then concat ?p @ rx_bytes (rx t) = received es
      else \<exists>cur nxt. i2s_half t k = half_of cur \<and> i2s_half t (Suc k) = half_of nxt \<and>
        concat ?p @ cur @ nxt @ rx_bytes (rx t) = received es"
      using run(2) held by (cases ?a) auto
  qed (use run whole in auto)
qed

lemma stream_conserves_samples_witness:
  "\<exists>pieces k t. run_events stream_device (first_events (mem_fatfs []) (replicate 4 (replicate 1920 7)) [1, 2, 3, 4, 100, 200])
      (0, audio_boot True) = Some (map half_of pieces, k, t) \<and>
    (\<forall>p \<in> set pieces. even (length p) \<and> length p \<le> 8192) \<and>
    (if s_isPlaying t = 0 then concat pieces @ rx_bytes (rx t) = replicate 7680 7
     else \<exists>cur nxt. i2s_half t k = half_of cur \<and> i2s_half t (Suc k) = half_of nxt \<and>
       concat pieces @ cur @ nxt @ rx_bytes (rx t) = replicate 7680 7)"
proof -
  let ?es = "first_events (mem_fatfs []) (replicate 4 (replicate 1920 7)) [1, 2, 3, 4, 100, 200]"
  have ok: "schedule_ok ?es" by (rule first_events_ok [OF mem_fatfs_ok]) simp_all
  have keeps: "schedule_keeps ?es (Waiting [])" by (simp add: replicate_four first_events_def Let_def)
  have bytes: "received ?es = replicate 7680 7" by (simp add: first_events_received concat_replicates)
  show ?thesis using stream_conserves_samples [OF ok keeps] unfolding bytes .
qed

text \<open>
  A stream begins with a gap. The four blocks that start the player fill less than one of the two halves: after
  their 3840 samples come 256 samples of silence, and then a whole half of silence, before any byte of the fifth
  block.
\<close>

theorem stream_starts_with_gap:
  assumes "fatfs_ok fs" and "length bs = 4" and "\<forall>b \<in> set bs. length b = 1920" and "t5 - t4 < 500"
  shows "\<exists>t. run_events stream_device (first_events fs bs [t1, t2, t3, t4, t5, t6]) (0, audio_boot True)
    = Some ([half_of (concat bs), replicate 8192 0], t)"
proof -
  obtain k t where "run_events stream_device (first_events fs bs [t1, t2, t3, t4, t5, t6]) (0, audio_boot True)
    = Some (map half_of [concat bs, []], k, t)"
    using run_implements [OF first_events_ok [OF assms(1-3)]] first_events_spec [OF assms(2-4)] by (metis fst_conv)
  then show ?thesis using half_of_silence [of "[]"] by auto
qed

lemma stream_starts_with_gap_witness:
  "\<exists>t. run_events stream_device (first_events (mem_fatfs []) (replicate 4 (replicate 1920 7)) [1, 2, 3, 4, 100, 200])
      (0, audio_boot True) = Some ([half_of (concat (replicate 4 (replicate 1920 7))), replicate 8192 0], t)"
  by (rule stream_starts_with_gap [OF mem_fatfs_ok]) simp_all

end
