(* ===== verification/Paint_Shapes.thy ===== *)
theory Paint_Shapes
  imports Gui_Paint Sensors
begin

text \<open>
  The drawing functions of \<open>Core/Src/drivers/display/gui_paint.c\<close> that no screen uses: circles, strings
  of a font with Chinese characters, and numbers. The coordinates of a circle are \<open>int16_t\<close>, here integers
  with the conversion written out. A run that does not end is \<open>None\<close>.
\<close>

section \<open>Circles\<close>

definition int16 :: "int \<Rightarrow> int" where
  "int16 x = (x + 32768) mod 65536 - 32768"

lemma int16_id: "- 32768 \<le> x \<Longrightarrow> x < 32768 \<Longrightarrow> int16 x = x"
  by (simp add: int16_def)

text \<open>The eight images of a point, in the order of the code.\<close>

definition octants :: "int \<Rightarrow> int \<Rightarrow> int \<Rightarrow> int \<Rightarrow> (u16 \<times> u16) list" where
  "octants X Y a b = map (\<lambda>(x, y). (word_of_int x, word_of_int y))
     [(X + a, Y + b), (X - a, Y + b), (X - b, Y + a), (X - b, Y - a),
      (X - a, Y - b), (X + a, Y - b), (X + b, Y - a), (X + b, Y + a)]"

definition octant_dots :: "int \<Rightarrow> int \<Rightarrow> int \<Rightarrow> int \<Rightarrow> u16 \<Rightarrow> DOT_PIXEL \<Rightarrow> fb \<Rightarrow> fb option" where
  "octant_dots X Y a b Color Line_width =
     draw_all (map (\<lambda>(x, y). Paint_DrawPoint x y Color Line_width DOT_FILL_AROUND) (octants X Y a b))"

partial_function (option) circle_fill :: "int \<Rightarrow> int \<Rightarrow> int \<Rightarrow> int \<Rightarrow> u16 \<Rightarrow> int \<Rightarrow> fb \<Rightarrow> fb option" where
  "circle_fill X Y XCurrent YCurrent Color sCountY img =
     (if sCountY \<le> YCurrent
      then do {
        img \<leftarrow> octant_dots X Y XCurrent sCountY Color DOT_PIXEL_1X1 img;
        circle_fill X Y XCurrent YCurrent Color (int16 (sCountY + 1)) img
      }
      else Some img)"

partial_function (option) circle_loop ::
    "int \<Rightarrow> int \<Rightarrow> u16 \<Rightarrow> DOT_PIXEL \<Rightarrow> DRAW_FILL \<Rightarrow> int \<Rightarrow> int \<Rightarrow> int \<Rightarrow> fb \<Rightarrow> fb option" where
  "circle_loop X Y Color Line_width Draw_Fill XCurrent YCurrent Esp img =
     (if XCurrent \<le> YCurrent
      then do {
        img \<leftarrow> (if Draw_Fill = DRAW_FILL_FULL
               then circle_fill X Y XCurrent YCurrent Color XCurrent img
               else octant_dots X Y XCurrent YCurrent Color Line_width img);
        if Esp < 0
        then circle_loop X Y Color Line_width Draw_Fill (int16 (XCurrent + 1)) YCurrent
               (int16 (Esp + (4 * XCurrent + 6))) img
        else circle_loop X Y Color Line_width Draw_Fill (int16 (XCurrent + 1)) (int16 (YCurrent - 1))
               (int16 (Esp + (10 + 4 * (XCurrent - YCurrent)))) img
      }
      else Some img)"

definition Paint_DrawCircle ::
    "u16 \<Rightarrow> u16 \<Rightarrow> u16 \<Rightarrow> u16 \<Rightarrow> DOT_PIXEL \<Rightarrow> DRAW_FILL \<Rightarrow> fb \<Rightarrow> fb option" where
  "Paint_DrawCircle X_Center Y_Center Radius Color Line_width Draw_Fill img =
     (if uint X_Center > LED_Width \<or> uint Y_Center \<ge> LED_Height then Some img
      else circle_loop (uint X_Center) (uint Y_Center) Color Line_width Draw_Fill
             0 (int16 (uint Radius)) (int16 (3 - 2 * uint Radius)) img)"

section \<open>Strings with Chinese characters\<close>

record CH_CN =
  cn_index :: "u8 \<times> u8"
  cn_matrix :: "u8 list"

record cFONT =
  cn_table :: "CH_CN list"
  cn_ASCII_Width :: u16
  cn_Width :: u16
  cn_Height :: u16

definition cn_glyph :: "cFONT \<Rightarrow> CH_CN \<Rightarrow> sFONT" where
  "cn_glyph font ch = \<lparr>font_table = cn_matrix ch, font_Width = unat (cn_Width font),
     font_Height = unat (cn_Height font)\<rparr>"

text \<open>The pixels of one character; the position is not checked.\<close>

definition draw_glyph :: "cFONT \<Rightarrow> CH_CN \<Rightarrow> int \<Rightarrow> int \<Rightarrow> u16 \<Rightarrow> u16 \<Rightarrow> fb \<Rightarrow> fb option" where
  "draw_glyph font ch x y fg bg img =
     char_pages (cn_glyph font ch) (word_of_int x) (word_of_int y) fg bg [0..<unat (cn_Height font)] 0 img"

text \<open>
  The string with all bytes of its array from the pointer on: a pointer that passes the zero behind a
  half character goes on, and reading past the array is \<open>None\<close>, as is a column beyond \<open>int\<close>. The second
  byte of a character is read only where the first one is in the table.
\<close>

definition matches :: "u8 \<Rightarrow> u8 list \<Rightarrow> CH_CN \<Rightarrow> bool option" where
  "matches c cs ch =
     (if c = fst (cn_index ch) then map_option (\<lambda>c2. c2 = snd (cn_index ch)) (c_load cs 0) else Some False)"

fun find_chinese :: "u8 \<Rightarrow> u8 list \<Rightarrow> CH_CN list \<Rightarrow> CH_CN option option" where
  "find_chinese c cs [] = Some None"
| "find_chinese c cs (ch # chs) =
     Option.bind (matches c cs ch) (\<lambda>m. if m then Some (Some ch) else find_chinese c cs chs)"

definition int_add :: "int \<Rightarrow> u16 \<Rightarrow> int option" where
  "int_add x w = (if x + uint w < 2147483648 then Some (x + uint w) else None)"

fun cn_loop :: "cFONT \<Rightarrow> u16 \<Rightarrow> u16 \<Rightarrow> int \<Rightarrow> int \<Rightarrow> u8 list \<Rightarrow> fb \<Rightarrow> fb option" where
  "cn_loop font fg bg x y [] img = None"
| "cn_loop font fg bg x y (c # cs) img =
     (if c = 0 then Some img
      else if c \<le> 0x7F
      then do {
        img \<leftarrow> (case find (\<lambda>ch. c = fst (cn_index ch)) (cn_table font) of
                 None \<Rightarrow> Some img
               | Some ch \<Rightarrow> draw_glyph font ch x y fg bg img);
        x \<leftarrow> int_add x (cn_ASCII_Width font);
        cn_loop font fg bg x y cs img
      }
      else do {
        found \<leftarrow> find_chinese c cs (cn_table font);
        img \<leftarrow> (case found of None \<Rightarrow> Some img | Some ch \<Rightarrow> draw_glyph font ch x y fg bg img);
        x \<leftarrow> int_add x (cn_Width font);
        case cs of [] \<Rightarrow> None | c2 # cs \<Rightarrow> cn_loop font fg bg x y cs img
      })"

definition Paint_DrawString_CN :: "u16 \<Rightarrow> u16 \<Rightarrow> u8 list \<Rightarrow> cFONT \<Rightarrow> u16 \<Rightarrow> u16 \<Rightarrow> fb \<Rightarrow> fb option" where
  "Paint_DrawString_CN Xstart Ystart pString font Color_Foreground Color_Background img =
     cn_loop font Color_Foreground Color_Background (uint Xstart) (uint Ystart) pString img"

section \<open>Numbers\<close>

text \<open>
  \<open>Num_Array\<close> is the list of the bytes written so far, \<open>Num_Bit\<close> its length. It is filled with the
  digits from the last one on.
\<close>

definition ARRAY_LEN :: nat where "ARRAY_LEN = 255"

definition append_byte :: "u8 \<Rightarrow> u8 list \<Rightarrow> u8 list option" where
  "append_byte b Num_Array = (if length Num_Array < ARRAY_LEN then Some (Num_Array @ [b]) else None)"

definition digit_byte :: "int \<Rightarrow> u8" where
  "digit_byte temp = word_of_int (crem temp 10 + 48)"

fun fraction_digits :: "nat \<Rightarrow> int \<Rightarrow> u8 list \<Rightarrow> u8 list option" where
  "fraction_digits 0 temp arr = Some arr"
| "fraction_digits (Suc i) temp arr =
     Option.bind (append_byte (digit_byte temp) arr) (fraction_digits i (cdiv temp 10))"

function whole_digits :: "int \<Rightarrow> u8 list \<Rightarrow> u8 list option" where
  "whole_digits temp arr =
     (if temp = 0 then Some arr
      else Option.bind (append_byte (digit_byte temp) arr) (whole_digits (cdiv temp 10)))"
  by auto
termination
  by (relation "measure (\<lambda>(temp, arr). nat \<bar>temp\<bar>)")
    (auto simp: cdiv_def abs_mult nat_less_iff zdiv_int [symmetric] intro!: int_div_less_self)

declare whole_digits.simps [simp del]

definition number_array :: "rat \<Rightarrow> u16 \<Rightarrow> u8 list option" where
  "number_array Nummber Digit = do {
     temp \<leftarrow> c_int (if Nummber > 0 then Nummber else - Nummber);
     arr \<leftarrow> (if Digit > 0
             then do {
               let decimals = (if Nummber > 0 then Nummber - rat_of_int temp else - (Nummber + rat_of_int temp));
               frac \<leftarrow> c_int (decimals * 10 ^ unat (ucast Digit :: u8));
               arr \<leftarrow> fraction_digits (unat (ucast Digit :: u8)) frac [];
               append_byte 46 arr
             }
             else Some []);
     arr \<leftarrow> whole_digits temp arr;
     arr \<leftarrow> (if Nummber < 1 \<and> - 1 < Nummber then append_byte 48 arr else Some arr);
     if Nummber < 0 then append_byte 45 arr else Some arr }"

text \<open>An array filled to its end has no terminating zero: the string is read past it.\<close>

definition Paint_DrawNum :: "u16 \<Rightarrow> u16 \<Rightarrow> rat \<Rightarrow> sFONT \<Rightarrow> u16 \<Rightarrow> u16 \<Rightarrow> u16 \<Rightarrow> fb \<Rightarrow> fb option" where
  "Paint_DrawNum Xpoint Ypoint Nummber Font Digit Color_Foreground Color_Background img =
     (if c_int (if Nummber > 0 then Nummber else - Nummber) = None then None
      else if uint Xpoint > LED_Width \<or> uint Ypoint > LED_Height then Some img
      else do {
        arr \<leftarrow> number_array Nummber Digit;
        if length arr < ARRAY_LEN
        then Paint_DrawString_EN Xpoint Ypoint (rev arr) Font Color_Foreground Color_Background img
        else None
      })"

section \<open>The path of a circle\<close>

text \<open>The points of one eighth of the circle, without the limits of \<open>int16_t\<close>.\<close>

function circle_path :: "int \<Rightarrow> int \<Rightarrow> int \<Rightarrow> (int \<times> int) list" where
  "circle_path x y e =
     (if x \<le> y
      then (x, y) # (if e < 0 then circle_path (x + 1) y (e + 4 * x + 6)
                     else circle_path (x + 1) (y - 1) (e + 10 + (4 * x - 4 * y)))
      else [])"
  by auto
termination by (relation "measure (\<lambda>(x, y, e). nat (y - x + 1))") auto

declare circle_path.simps [simp del]

text \<open>
  The error term is the sum of the deviations of the two candidates for the next point, and the
  deviation of the current point is at most its height.
\<close>

definition deviation :: "int \<Rightarrow> int \<Rightarrow> int \<Rightarrow> int" where
  "deviation r x y = x * x + y * y - r * r"

definition circle_ok :: "int \<Rightarrow> int \<Rightarrow> int \<Rightarrow> int \<Rightarrow> bool" where
  "circle_ok r x y e \<longleftrightarrow> 0 \<le> x \<and> y \<le> r \<and> - 1 \<le> y \<and> (y < 0 \<longrightarrow> 1 \<le> x) \<and> e = deviation r (x + 1) y + deviation r (x + 1) (y - 1) \<and>
     - y \<le> deviation r x y \<and> (x \<le> y \<longrightarrow> deviation r x y \<le> y)"

lemma circle_ok_start: "0 \<le> r \<Longrightarrow> circle_ok r 0 r (3 - 2 * r)"
  by (simp add: circle_ok_def deviation_def algebra_simps)

lemma circle_ok_level:
  assumes "circle_ok r x y e" and "x \<le> y" and "e < 0"
  shows "circle_ok r (x + 1) y (e + 4 * x + 6)"
  using assms by (auto simp: circle_ok_def deviation_def algebra_simps)

lemma circle_ok_down:
  assumes "circle_ok r x y e" and "x \<le> y" and "0 \<le> e"
  shows "circle_ok r (x + 1) (y - 1) (e + 10 + (4 * x - 4 * y))"
  using assms by (auto simp: circle_ok_def deviation_def algebra_simps)

lemma circle_ok_bounds:
  assumes "circle_ok r x y e" and "x \<le> y" and "r \<le> 8000"
  shows "int16 (x + 1) = x + 1" "int16 (y - 1) = y - 1"
    "int16 (e + (4 * x + 6)) = e + 4 * x + 6 \<or> 0 \<le> e"
    "int16 (e + (10 + 4 * (x - y))) = e + 10 + (4 * x - 4 * y) \<or> e < 0"
proof -
  have e: "e = 2 * deviation r x y + 4 * x - 2 * y + 3" "\<bar>deviation r x y\<bar> \<le> y" "0 \<le> x" "y \<le> r"
    using assms(1,2) by (auto simp: circle_ok_def deviation_def algebra_simps)
  then show "int16 (x + 1) = x + 1" "int16 (y - 1) = y - 1" using assms(2,3) by (simp_all add: int16_id)
  show "int16 (e + (4 * x + 6)) = e + 4 * x + 6 \<or> 0 \<le> e"
    using e assms(2,3) by (cases "e < 0") (auto simp: int16_id)
  show "int16 (e + (10 + 4 * (x - y))) = e + 10 + (4 * x - 4 * y) \<or> e < 0"
    using e assms(2,3) by (cases "e < 0") (auto simp: int16_id)
qed

lemma circle_path_columns:
  "i < length (circle_path x y e) \<Longrightarrow> fst (circle_path x y e ! i) = x + int i"
proof (induction x y e arbitrary: i rule: circle_path.induct)
  case (1 x y e)
  then show ?case by (subst (asm) circle_path.simps, subst circle_path.simps) (auto simp: nth_Cons split: if_splits nat.splits)
qed

lemma circle_path_near:
  assumes "circle_ok r x y e"
  shows "(a, b) \<in> set (circle_path x y e) \<Longrightarrow> 0 \<le> a \<and> a \<le> b \<and> b \<le> r \<and> \<bar>deviation r a b\<bar> \<le> b"
  using assms
proof (induction x y e rule: circle_path.induct)
  case (1 x y e)
  show ?case
  proof (cases "x \<le> y")
    case True
    note step = circle_ok_level [OF 1(4) True] circle_ok_down [OF 1(4) True]
    have here: "0 \<le> x \<and> y \<le> r \<and> \<bar>deviation r x y\<bar> \<le> y" using 1(4) True by (auto simp: circle_ok_def)
    show ?thesis using 1 step here True by (subst (asm) (3) circle_path.simps) (auto split: if_splits)
  next
    case False
    then show ?thesis using 1(3) by (subst (asm) circle_path.simps) simp
  qed
qed

lemma circle_path_end:
  assumes "circle_ok r x y e" and "x + int (length (circle_path x y e)) \<le> a"
  shows "r * r < 2 * a * a + a"
  using assms
proof (induction x y e rule: circle_path.induct)
  case (1 x y e)
  show ?case
  proof (cases "x \<le> y")
    case True
    note step = circle_ok_level [OF 1(3) True] circle_ok_down [OF 1(3) True]
    show ?thesis using 1 step True by (subst (asm) (3) circle_path.simps) (auto split: if_splits)
  next
    case False
    then have xa: "x \<le> a" using 1(4) by (subst (asm) circle_path.simps) simp
    have y: "y < x" "1 \<le> x" "- 1 \<le> y" "r * r \<le> y + (x * x + y * y)"
      using False 1(3) by (auto simp: circle_ok_def deviation_def)
    have "y * y \<le> (x - 1) * (x - 1) \<or> y = - 1" using y(1,3) by (cases "y = - 1") (auto intro: mult_mono)
    then have "r * r \<le> 2 * (x * x) - x \<or> r * r \<le> x * x" using y by (auto simp: algebra_simps)
    moreover have "x * x \<le> a * a" using xa y(2) by (intro mult_mono) auto
    moreover have "0 \<le> a * a" "2 * a * a = a * a + a * a" by simp_all
    ultimately show ?thesis using xa y(2) by linarith
  qed
qed

section \<open>Circles are drawn along their path\<close>

abbreviation dots :: "u16 \<Rightarrow> (u16 \<times> u16) list \<Rightarrow> fb \<Rightarrow> fb option" where
  "dots c pts \<equiv> draw_all (map (\<lambda>(X, Y). Paint_DrawPoint X Y c DOT_PIXEL_1X1 DOT_FILL_AROUND) pts)"

definition circle_cells :: "DRAW_FILL \<Rightarrow> int \<times> int \<Rightarrow> (int \<times> int) list" where
  "circle_cells fill p = (if fill = DRAW_FILL_FULL then map (Pair (fst p)) [fst p..snd p] else [p])"

lemma circle_fill_dots:
  "0 \<le> s \<Longrightarrow> b \<le> 8000 \<Longrightarrow>
   circle_fill X Y a b c s img = dots c (concat (map (octants X Y a) [s..b])) img"
proof (induction "nat (b - s + 1)" arbitrary: s img)
  case 0
  then show ?case by (simp add: circle_fill.simps [of X Y a b c s])
next
  case (Suc n)
  then have here: "s \<le> b" "int16 (s + 1) = s + 1" by (auto simp: int16_id)
  have "circle_fill X Y a b c (s + 1) = dots c (concat (map (octants X Y a) [s + 1..b]))"
    using Suc by (intro ext Suc(1)) auto
  then show ?case using here
    by (subst circle_fill.simps, subst upto_rec1) (simp_all add: octant_dots_def draw_all_append)
qed

lemma circle_loop_dots:
  assumes "r \<le> 8000" and "circle_ok r x y e"
  shows "circle_loop X Y c DOT_PIXEL_1X1 fill x y e img
    = dots c (concat (map (\<lambda>(a, b). octants X Y a b) (concat (map (circle_cells fill) (circle_path x y e))))) img"
  using assms(2)
proof (induction x y e arbitrary: img rule: circle_path.induct)
  case (1 x y e)
  show ?case
  proof (cases "x \<le> y")
    case True
    have b: "0 \<le> x" "y \<le> 8000" using 1(3) assms(1) by (auto simp: circle_ok_def)
    have here: "(if fill = DRAW_FILL_FULL then circle_fill X Y x y c x img else octant_dots X Y x y c DOT_PIXEL_1X1 img)
        = dots c (concat (map (\<lambda>(a, b). octants X Y a b) (circle_cells fill (x, y)))) img"
      using b by (simp add: circle_fill_dots octant_dots_def circle_cells_def comp_def)
    have IH: "e < 0 \<Longrightarrow> circle_loop X Y c DOT_PIXEL_1X1 fill (x + 1) y (e + 4 * x + 6)
        = dots c (concat (map (\<lambda>(a, b). octants X Y a b) (concat (map (circle_cells fill) (circle_path (x + 1) y (e + 4 * x + 6))))))"
      "\<not> e < 0 \<Longrightarrow> circle_loop X Y c DOT_PIXEL_1X1 fill (x + 1) (y - 1) (e + 10 + (4 * x - 4 * y))
        = dots c (concat (map (\<lambda>(a, b). octants X Y a b) (concat (map (circle_cells fill) (circle_path (x + 1) (y - 1) (e + 10 + (4 * x - 4 * y)))))))"
      using 1 True circle_ok_level circle_ok_down by (auto intro!: ext)
    show ?thesis
      using True circle_ok_bounds [OF 1(3) True assms(1)]
      by (subst circle_loop.simps, subst circle_path.simps)
        (auto simp: here IH draw_all_append)
  next
    case False
    then show ?thesis by (subst circle_loop.simps, subst circle_path.simps) simp
  qed
qed

text \<open>Coordinates that leave 16 bits are not visible.\<close>

lemma wrapped_visible:
  assumes "1 \<le> x" and "x \<le> 128" and "- 8000 \<le> i" and "i \<le> 8200"
  shows "x = uint (word_of_int i :: u16) \<longleftrightarrow> x = i"
proof -
  have "i mod 65536 = (if 0 \<le> i then i else i + 65536)"
    using assms(3,4) mod_add_self2 [of i 65536] mod_pos_pos_trivial [of i 65536]
      mod_pos_pos_trivial [of "i + 65536" 65536] by auto
  then show ?thesis using assms by (auto simp: uint_word_of_int)
qed

lemma octants_visible:
  assumes "visible x y" and "0 \<le> a" "a \<le> 8000" "0 \<le> b" "b \<le> 8000" and "0 \<le> X" "X \<le> 128" "0 \<le> Y" "Y \<le> 32"
  shows "(x, y) \<in> (\<lambda>(X, Y). (uint X, uint Y)) ` set (octants X Y a b) \<longleftrightarrow> (\<bar>x - X\<bar>, \<bar>y - Y\<bar>) \<in> {(a, b), (b, a)}"
proof -
  have v: "1 \<le> x" "x \<le> 128" "1 \<le> y" "y \<le> 128" using assms(1) by (auto simp: visible_def)
  note w = wrapped_visible [OF v(1,2)] wrapped_visible [OF v(3,4)]
  have "(x, y) \<in> (\<lambda>(X, Y). (uint X, uint Y)) ` set (octants X Y a b) \<longleftrightarrow>
      (x, y) \<in> {(X + a, Y + b), (X - a, Y + b), (X - b, Y + a), (X - b, Y - a),
        (X - a, Y - b), (X + a, Y - b), (X + b, Y - a), (X + b, Y + a)}"
    using assms(2-) by (simp add: octants_def w del: of_int_add of_int_diff)
  also have "\<dots> \<longleftrightarrow> (\<bar>x - X\<bar>, \<bar>y - Y\<bar>) \<in> {(a, b), (b, a)}"
  proof -
    have "\<bar>x - X\<bar> = a \<longleftrightarrow> x = X + a \<or> x = X - a" "\<bar>x - X\<bar> = b \<longleftrightarrow> x = X + b \<or> x = X - b"
      "\<bar>y - Y\<bar> = a \<longleftrightarrow> y = Y + a \<or> y = Y - a" "\<bar>y - Y\<bar> = b \<longleftrightarrow> y = Y + b \<or> y = Y - b"
      using assms(2,4) by linarith+
    then show ?thesis by simp blast
  qed
  finally show ?thesis .
qed

section \<open>The text of a number\<close>

text \<open>A number in a fixed count of digits, and the text that is drawn.\<close>

fun fixed_digits :: "nat \<Rightarrow> nat \<Rightarrow> u8 list" where
  "fixed_digits 0 t = []"
| "fixed_digits (Suc i) t = fixed_digits i (t div 10) @ [of_nat (48 + t mod 10)]"

lemma length_fixed_digits [simp]: "length (fixed_digits i t) = i"
  by (induction i arbitrary: t) simp_all

lemma fixed_digits_value: "digits_value (fixed_digits i t) = int (t mod 10 ^ i)"
proof (induction i arbitrary: t)
  case 0
  then show ?case by (simp add: digits_value_def)
next
  case (Suc i)
  have "t mod 10 ^ Suc i = t div 10 mod 10 ^ i * 10 + t mod 10"
    by (simp add: mod_mult2_eq [of t 10 "10 ^ i"])
  then show ?case using uint_digit [of "t mod 10"] by (simp add: digits_value_snoc Suc)
qed

definition number_text :: "rat \<Rightarrow> nat \<Rightarrow> u8 list" where
  "number_text r d =
     (if r < 0 then c_lit ''-'' else []) @ digits (nat \<lfloor>\<bar>r\<bar>\<rfloor>) @
     (if 0 < d then c_lit ''.'' @ fixed_digits d (nat \<lfloor>(\<bar>r\<bar> - rat_of_int \<lfloor>\<bar>r\<bar>\<rfloor>) * 10 ^ d\<rfloor>) else [])"

lemma digit_byte_nat: "digit_byte (int n) = of_nat (48 + n mod 10)"
proof -
  have "crem (int n) 10 + 48 = int (48 + n mod 10)" by (simp add: zmod_int)
  then show ?thesis by (simp only: digit_byte_def of_int_of_nat_eq)
qed

lemma fraction_digits_text:
  "length arr + i \<le> 255 \<Longrightarrow> fraction_digits i (int t) arr = Some (arr @ rev (fixed_digits i t))"
proof (induction i arbitrary: t arr)
  case (Suc i)
  have "cdiv (int t) 10 = int (t div 10)" by (simp add: zdiv_int)
  then show ?case using Suc by (simp add: append_byte_def ARRAY_LEN_def digit_byte_nat)
qed simp

lemma length_digits: "n < 10 ^ Suc k \<Longrightarrow> length (digits n) \<le> Suc k"
proof (induction k arbitrary: n)
  case 0
  then show ?case by (simp add: digits.simps [of n])
next
  case (Suc k)
  then have "n div 10 < 10 ^ Suc k" by (simp add: less_mult_imp_div_less)
  then show ?case using Suc.IH [of "n div 10"] by (simp add: digits.simps [of n])
qed

lemma whole_digits_text:
  "0 < n \<Longrightarrow> length arr + length (digits n) \<le> 255 \<Longrightarrow> whole_digits (int n) arr = Some (arr @ rev (digits n))"
proof (induction n arbitrary: arr rule: less_induct)
  case (less n)
  have d: "cdiv (int n) 10 = int (n div 10)" by (simp add: zdiv_int)
  show ?case
  proof (cases "n < 10")
    case True
    then show ?thesis using less.prems
      by (simp add: whole_digits.simps [of "int n"] whole_digits.simps [of 0] d digits.simps [of n] append_byte_def
          ARRAY_LEN_def digit_byte_nat)
  next
    case False
    then show ?thesis using less.prems less.IH [of "n div 10"]
      by (simp add: whole_digits.simps [of "int n"] d digits.simps [of n] append_byte_def ARRAY_LEN_def digit_byte_nat)
  qed
qed

lemma c_int_nonneg: "0 \<le> q \<Longrightarrow> q < 2147483648 \<Longrightarrow> c_int q = Some \<lfloor>q\<rfloor>"
proof -
  assume q: "0 \<le> q" "q < 2147483648"
  define i where "i = \<lfloor>q\<rfloor>"
  have "0 \<le> i" "i < 2147483648" using q by (simp_all add: i_def floor_less_iff)
  then show "c_int q = Some \<lfloor>q\<rfloor>" using q(1) by (simp add: c_int_def c_trunc_def Let_def flip: i_def)
qed

lemma whole_part_length: "\<bar>r\<bar> < 2147483648 \<Longrightarrow> length (digits (nat \<lfloor>\<bar>r\<bar>\<rfloor>)) \<le> 10"
proof -
  assume "\<bar>r\<bar> < 2147483648"
  then have "\<lfloor>\<bar>r\<bar>\<rfloor> < 2147483648" by (simp add: floor_less_iff)
  then show "length (digits (nat \<lfloor>\<bar>r\<bar>\<rfloor>)) \<le> 10"
    using length_digits [of "nat \<lfloor>\<bar>r\<bar>\<rfloor>" 9] by (simp add: nat_less_iff del: floor_less_numeral)
qed

lemma length_number_text: "\<bar>r\<bar> < 2147483648 \<Longrightarrow> length (number_text r d) \<le> 12 + d"
  using whole_part_length [of r] by (cases "r < 0") (simp_all add: number_text_def c_lit_def)

text \<open>The drawn text is the number, cut to the wanted digits; its digits read back give the number.\<close>

lemma number_array_text:
  assumes "\<bar>r\<bar> < 2147483648" and "D < 10"
  shows "number_array r D = Some (rev (number_text r (unat D)))"
proof -
  let ?a = "\<bar>r\<bar>" and ?d = "unat D"
  let ?f = "?a - rat_of_int \<lfloor>?a\<rfloor>"
  have d: "?d < 10" "unat (ucast D :: u8) = ?d" "0 < D \<longleftrightarrow> 0 < ?d"
    using assms(2) by (simp_all add: word_less_nat_alt unat_ucast_mod)
  have a: "(if r > 0 then r else - r) = ?a"
    "(if r > 0 then r - rat_of_int i else - (r + rat_of_int i)) = ?a - rat_of_int i" for i by auto
  have i: "0 \<le> \<lfloor>?a\<rfloor>" "\<lfloor>?a\<rfloor> < 2147483648" using assms(1) by (auto simp: floor_less_iff)
  have ci: "c_int ?a = Some \<lfloor>?a\<rfloor>" using assms(1) by (simp add: c_int_nonneg)
  have f: "0 \<le> ?f" "?f < 1" by linarith+
  have p: "(10 :: rat) ^ ?d \<le> 10 ^ 9" using d(1) by (intro power_increasing) auto
  have up: "?f * 10 ^ ?d \<le> 1 * 10 ^ 9" using f p by (intro mult_mono) auto
  have nn: "0 \<le> ?f * 10 ^ ?d" using f(1) by simp
  then have cf: "c_int (?f * 10 ^ ?d) = Some \<lfloor>?f * 10 ^ ?d\<rfloor>" "0 \<le> \<lfloor>?f * 10 ^ ?d\<rfloor>"
    using up by (simp_all add: c_int_nonneg)
  let ?frac = "if 0 < ?d then c_lit ''.'' @ fixed_digits ?d (nat \<lfloor>?f * 10 ^ ?d\<rfloor>) else []"
  note l = whole_part_length [OF assms(1)]
  have "fraction_digits ?d \<lfloor>?f * 10 ^ ?d\<rfloor> [] = Some (rev (fixed_digits ?d (nat \<lfloor>?f * 10 ^ ?d\<rfloor>)))"
    using fraction_digits_text [of "[]" ?d "nat \<lfloor>?f * 10 ^ ?d\<rfloor>"] cf(2) d(1) by simp
  then have frac: "(if 0 < ?d then fraction_digits ?d \<lfloor>?f * 10 ^ ?d\<rfloor> [] \<bind> append_byte 46 else Some []) = Some (rev ?frac)"
    using d(1) by (simp add: append_byte_def ARRAY_LEN_def c_lit_def)
  have whole: "whole_digits \<lfloor>?a\<rfloor> (rev ?frac) \<bind> (\<lambda>arr. if r < 1 \<and> - 1 < r then append_byte 48 arr else Some arr)
      = Some (rev (digits (nat \<lfloor>?a\<rfloor>) @ ?frac))"
  proof (cases "\<lfloor>?a\<rfloor> = 0")
    case True
    then have "?a < 1" by linarith
    then have "r < 1" "- 1 < r" by auto
    then show ?thesis using True d(1)
      by (simp add: whole_digits.simps [of 0] append_byte_def ARRAY_LEN_def digits.simps [of 0] c_lit_def)
  next
    case False
    then have "1 \<le> ?a" using i(1) by linarith
    then have "\<not> (r < 1 \<and> - 1 < r)" by auto
    moreover have "length (rev ?frac) + length (digits (nat \<lfloor>?a\<rfloor>)) \<le> 255" using l d(1) by (simp add: c_lit_def)
    then have "whole_digits (int (nat \<lfloor>?a\<rfloor>)) (rev ?frac) = Some (rev ?frac @ rev (digits (nat \<lfloor>?a\<rfloor>)))"
      by (rule whole_digits_text [rotated]) (use i(1) False in linarith)
    ultimately show ?thesis using i(1) by (simp only: int_nat_eq if_True if_False bind.bind_lunit rev_append)
  qed
  have "number_array r D = Some (rev (digits (nat \<lfloor>?a\<rfloor>) @ ?frac)) \<bind> (\<lambda>arr. if r < 0 then append_byte 45 arr else Some arr)"
    unfolding number_array_def a ci d(2,3)
    by (simp only: bind.bind_lunit Let_def cf(1) frac bind_assoc [symmetric] whole)
  then show ?thesis using l d(1)
    by (cases "r < 0") (simp_all add: number_text_def append_byte_def ARRAY_LEN_def c_lit_def)
qed

text \<open>So a number is drawn like the text; the guards of both functions are the same.\<close>

lemma number_drawn:
  assumes "\<bar>r\<bar> < 2147483648" and "D < 10"
  shows "Paint_DrawNum X Y r font D fg bg img = Paint_DrawString_EN X Y (number_text r (unat D)) font fg bg img"
proof -
  have a: "(if r > 0 then r else - r) = \<bar>r\<bar>" by auto
  have "c_int \<bar>r\<bar> \<noteq> None" using assms(1) by (simp add: c_int_nonneg)
  moreover have "length (number_text r (unat D)) < 255"
    using length_number_text [OF assms(1), of "unat D"] assms(2) by (simp add: word_less_nat_alt)
  ultimately show ?thesis using number_array_text [OF assms]
    unfolding Paint_DrawNum_def a by (auto simp: Paint_DrawString_EN_def ARRAY_LEN_def)
qed

section \<open>Limits\<close>

text \<open>With radius 32767 the counter of the filling loop never exceeds its limit.\<close>

lemma circle_fill_unending:
  assumes "circle_fill X Y a b c s img = Some img'"
  shows "\<not> (b = 32767 \<and> s \<le> 32767)"
proof (rule circle_fill.raw_induct [where P = "\<lambda>X Y a b c s img r. \<not> (b = 32767 \<and> s \<le> 32767)", OF _ assms])
  fix loop X Y a b c s img r
  assume IH: "\<And>X Y a b c s img r. loop X Y a b c s img = Some r \<Longrightarrow> \<not> (b = 32767 \<and> s \<le> 32767)"
    and run: "(if s \<le> b then octant_dots X Y a s c DOT_PIXEL_1X1 img \<bind> loop X Y a b c (int16 (s + 1))
      else Some img) = Some r"
  have "int16 (s + 1) \<le> 32767" by (simp add: int16_def)
  then show "\<not> (b = 32767 \<and> s \<le> 32767)" using IH run by (auto simp: bind_eq_Some_conv)
qed

lemma circle_fill_32767: "s \<le> 32767 \<Longrightarrow> circle_fill X Y a 32767 c s img = None"
  using circle_fill_unending by (metis not_Some_eq)

text \<open>A string that ends in the first half of a character is read past its terminating zero.\<close>

lemma half_character_reads_past:
  "0x7F < c \<Longrightarrow> Paint_DrawString_CN X Y [c, 0] font fg bg img = None"
proof -
  assume "0x7F < c"
  then have "c \<noteq> 0" "\<not> c \<le> 0x7F" by (auto simp: not_le)
  then show ?thesis
    by (simp add: Paint_DrawString_CN_def split: bind_splits)
qed

section \<open>Property\<close>

lemma image_concat_pairs:
  "z \<in> f ` set (concat (map (\<lambda>(a, b). g a b) ps)) \<longleftrightarrow> (\<exists>a b. (a, b) \<in> set ps \<and> z \<in> f ` set (g a b))"
  by (induction ps) auto

lemma circle_cells_bounds:
  assumes "circle_ok r 0 r e" and "r \<le> 8000"
    and "(a, b) \<in> set (concat (map (circle_cells fill) (circle_path 0 r e)))"
  shows "0 \<le> a \<and> a \<le> 8000 \<and> 0 \<le> b \<and> b \<le> 8000"
proof -
  obtain b' where "(a, b') \<in> set (circle_path 0 r e)" "a \<le> b" "b \<le> b'"
    using assms(3) circle_path_near [OF assms(1)] by (fastforce simp: circle_cells_def split: if_splits)
  then show ?thesis using circle_path_near [OF assms(1)] assms(2) by fastforce
qed

lemma circle_cells_columns:
  "(a, b) \<in> set (concat (map (circle_cells fill) (circle_path 0 r e))) \<longleftrightarrow>
   0 \<le> a \<and> a < int (length (circle_path 0 r e)) \<and>
   (if fill = DRAW_FILL_FULL then a \<le> b \<and> b \<le> snd (circle_path 0 r e ! nat a) else b = snd (circle_path 0 r e ! nat a))"
  (is "_ \<longleftrightarrow> ?R")
proof -
  have col: "i < length (circle_path 0 r e) \<Longrightarrow> fst (circle_path 0 r e ! i) = int i" for i
    using circle_path_columns [of i 0 r e] by simp
  let ?p = "circle_path 0 r e"
  have cells: "(a, b) \<in> set (circle_cells fill p) \<Longrightarrow> a = fst p" for p
    by (auto simp: circle_cells_def split: if_splits)
  have "(a, b) \<in> set (concat (map (circle_cells fill) ?p)) \<longleftrightarrow>
      (\<exists>i < length ?p. (a, b) \<in> set (circle_cells fill (?p ! i)))"
  proof -
    have "(\<exists>q \<in> set ?p. (a, b) \<in> set (circle_cells fill q)) \<longleftrightarrow>
        (\<exists>i < length ?p. (a, b) \<in> set (circle_cells fill (?p ! i)))"
      using in_set_conv_nth [of _ ?p] by metis
    then show ?thesis by simp
  qed
  also have "\<dots> \<longleftrightarrow> (\<exists>i < length ?p. int i = a \<and> (a, b) \<in> set (circle_cells fill (?p ! i)))"
  proof -
    have "i < length ?p \<Longrightarrow> (a, b) \<in> set (circle_cells fill (?p ! i)) \<Longrightarrow> int i = a" for i
      using cells col by metis
    then show ?thesis by auto
  qed
  also have "\<dots> \<longleftrightarrow> 0 \<le> a \<and> nat a < length (circle_path 0 r e) \<and>
      (a, b) \<in> set (circle_cells fill (circle_path 0 r e ! nat a))"
    by (metis int_nat_eq nat_int of_nat_0_le_iff)
  also have "\<dots> \<longleftrightarrow> ?R" using col [of "nat a"]
    by (auto simp: circle_cells_def prod_eq_iff nat_less_iff)
  finally show ?thesis .
qed

text \<open>
  C31: A circle of radius up to 8000 with dots of one point, \<open>DOT_PIXEL_1X1\<close>, whose centre is on the matrix or in the
  column right of it (column at most 128, row less than 32), is drawn completely as far as it is visible, and nothing
  leaves the frame buffer. (Thicker dots can leave it: \<open>thick_dot_leaves_buffer\<close>.) Seen from its centre, the point in column a of one eighth of the circle is h a, its distance
  from the ideal circle is at most half a point, and the columns reach to the diagonal; exactly these points
  and their seven mirror images are coloured, or with filling all points between the diagonal and them.
\<close>

theorem circle_drawn:
  assumes "length img = 4096" and "uint X \<le> 128" and "uint Y < 32" and "uint R \<le> 8000"
  shows "\<exists>h n img'. Paint_DrawCircle X Y R c DOT_PIXEL_1X1 fill img = Some img' \<and> length img' = 4096 \<and>
    (\<forall>a. 0 \<le> a \<and> a < n \<longrightarrow> a \<le> h a \<and> \<bar>a * a + h a * h a - uint R * uint R\<bar> \<le> h a \<and> h a \<le> uint R) \<and>
    (\<forall>a \<ge> n. uint R * uint R < 2 * a * a + a) \<and>
    (\<forall>x y. visible x y \<longrightarrow> pixel img' x y =
       (if \<exists>a b. 0 \<le> a \<and> a < n \<and> (if fill = DRAW_FILL_FULL then a \<le> b \<and> b \<le> h a else b = h a) \<and>
             (\<bar>x - uint X\<bar>, \<bar>y - uint Y\<bar>) \<in> {(a, b), (b, a)}
        then ucast c else pixel img x y))"
proof -
  let ?path = "circle_path 0 (uint R) (3 - 2 * uint R)"
  let ?cells = "concat (map (circle_cells fill) ?path)"
  let ?pts = "concat (map (\<lambda>(a, b). octants (uint X) (uint Y) a b) ?cells)"
  have ok: "circle_ok (uint R) 0 (uint R) (3 - 2 * uint R)" by (rule circle_ok_start) simp
  have drawn: "Paint_DrawCircle X Y R c DOT_PIXEL_1X1 fill img = dots c ?pts img"
  proof -
    have "int16 (uint R) = uint R" "int16 (3 - 2 * uint R) = 3 - 2 * uint R"
      using assms(4) uint_ge_0 [of R] by (intro int16_id; linarith)+
    then show ?thesis
      using assms(2,3) circle_loop_dots [OF assms(4) ok] by (simp add: Paint_DrawCircle_def LED_Width_def LED_Height_def)
  qed
  obtain img' where img': "dots c ?pts img = Some img'" "length img' = 4096" and pix: "\<And>x y. visible x y \<Longrightarrow>
      pixel img' x y = (if (x, y) \<in> (\<lambda>(X, Y). (uint X, uint Y)) ` set ?pts then ucast c else pixel img x y)"
    using draw_points [OF assms(1), of c ?pts] by blast
  have pts: "(x, y) \<in> (\<lambda>(X, Y). (uint X, uint Y)) ` set ?pts \<longleftrightarrow>
      (\<exists>a b. (a, b) \<in> set ?cells \<and> (\<bar>x - uint X\<bar>, \<bar>y - uint Y\<bar>) \<in> {(a, b), (b, a)})" if "visible x y" for x y
  proof -
    have "(a, b) \<in> set ?cells \<Longrightarrow> (x, y) \<in> (\<lambda>(X, Y). (uint X, uint Y)) ` set (octants (uint X) (uint Y) a b) \<longleftrightarrow>
        (\<bar>x - uint X\<bar>, \<bar>y - uint Y\<bar>) \<in> {(a, b), (b, a)}" for a b
      using circle_cells_bounds [OF ok assms(4), of a b] assms(2,3) by (intro octants_visible [OF that]) auto
    then show ?thesis unfolding image_concat_pairs by blast
  qed
  have near: "0 \<le> a \<and> a < int (length ?path) \<Longrightarrow> a \<le> snd (?path ! nat a) \<and>
      \<bar>a * a + snd (?path ! nat a) * snd (?path ! nat a) - uint R * uint R\<bar> \<le> snd (?path ! nat a) \<and> snd (?path ! nat a) \<le> uint R" for a
    using circle_path_near [OF ok, of a "snd (?path ! nat a)"] circle_path_columns [of "nat a" 0 "uint R" "3 - 2 * uint R"]
      nth_mem [of "nat a" ?path] by (cases "?path ! nat a") (auto simp: deviation_def)
  have far: "uint R * uint R < 2 * a * a + a" if "int (length ?path) \<le> a" for a
    using circle_path_end [OF ok] that by simp
  have pixels: "pixel img' x y =
       (if \<exists>a b. 0 \<le> a \<and> a < int (length ?path) \<and>
             (if fill = DRAW_FILL_FULL then a \<le> b \<and> b \<le> snd (?path ! nat a) else b = snd (?path ! nat a)) \<and>
             (\<bar>x - uint X\<bar>, \<bar>y - uint Y\<bar>) \<in> {(a, b), (b, a)}
        then ucast c else pixel img x y)" if "visible x y" for x y
    unfolding pix [OF that] pts [OF that] circle_cells_columns conj_assoc ..
  show ?thesis
    by (rule exI [of _ "\<lambda>a. snd (?path ! nat a)"], rule exI [of _ "int (length ?path)"], rule exI [of _ img'],
      intro conjI allI impI) (use drawn img' near far pixels in \<open>simp_all only: simp_thms\<close>)
qed

text \<open>The filled circle of radius 2 around (10, 10): 21 points, a square of 5 by 5 without its corners.\<close>

theorem circle_drawn_witness:
  "\<exists>img'. Paint_DrawCircle 10 10 2 RED DOT_PIXEL_1X1 DRAW_FILL_FULL (replicate 4096 0) = Some img' \<and>
     pixel img' 8 10 = 1 \<and> pixel img' 9 8 = 1 \<and> pixel img' 8 8 = 0 \<and> pixel img' 7 10 = 0"
proof -
  obtain h n img' where drawn: "Paint_DrawCircle 10 10 2 RED DOT_PIXEL_1X1 DRAW_FILL_FULL (replicate 4096 0) = Some img'"
    and near: "\<And>a. 0 \<le> a \<Longrightarrow> a < n \<Longrightarrow> a \<le> h a \<and> \<bar>a * a + h a * h a - 4\<bar> \<le> h a \<and> h a \<le> 2"
    and far: "\<And>a. n \<le> a \<Longrightarrow> 4 < 2 * a * a + a"
    and pix: "\<And>x y. visible x y \<Longrightarrow> pixel img' x y =
       (if \<exists>a b. 0 \<le> a \<and> a < n \<and> (a \<le> b \<and> b \<le> h a) \<and> (\<bar>x - 10\<bar>, \<bar>y - 10\<bar>) \<in> {(a, b), (b, a)}
        then ucast RED else pixel (replicate 4096 0) x y)"
    using circle_drawn [of "replicate 4096 0" 10 10 2 RED DRAW_FILL_FULL] by auto
  have n: "1 < n" using far [of 1] by (cases "1 < n") auto
  have "h 0 \<in> {0, 1, 2}" "h 1 \<in> {1, 2}" using near [of 0] near [of 1] n by auto
  then have h: "h 0 = 2" "h 1 = 2" using near [of 0] near [of 1] n by auto
  have "\<not> 2 < n"
  proof
    assume "2 < n"
    then have "h 2 = 2" "\<bar>2 * 2 + h 2 * h 2 - 4\<bar> \<le> h 2" using near [of 2] by auto
    then show False by simp
  qed
  then have "0 \<le> a \<and> a < n \<longleftrightarrow> a = 0 \<or> a = 1" for a using n by auto
  moreover have "0 \<le> b \<and> b \<le> 2 \<longleftrightarrow> b = 0 \<or> b = 1 \<or> b = 2" "1 \<le> b \<and> b \<le> 2 \<longleftrightarrow> b = 1 \<or> b = 2" for b :: int by auto
  ultimately have cells: "(\<exists>a b. 0 \<le> a \<and> a < n \<and> (a \<le> b \<and> b \<le> h a) \<and> P a b)
      \<longleftrightarrow> P 0 0 \<or> P 0 1 \<or> P 0 2 \<or> P 1 1 \<or> P 1 2" for P :: "int \<Rightarrow> int \<Rightarrow> bool"
    using h by (metis (no_types, lifting))
  have "pixel (replicate 4096 0) x y = 0" for x y using pix_bound by (simp add: pixel_def)
  note pix = pix [unfolded cells this]
  have "pixel img' 8 10 = 1" "pixel img' 9 8 = 1" "pixel img' 8 8 = 0" "pixel img' 7 10 = 0"
    by (subst pix; simp add: visible_def RED_def)+
  then show ?thesis using drawn by blast
qed

end
