(* ===== verification/Uart_Parser.thy ===== *)
theory Uart_Parser
  imports Uart_Protocol
begin

text \<open>
  The receiving state machine of \<open>features/protocol/uart_handler.c\<close> against a reference: a parser that
  looks at the whole text of bytes, cuts it into frames and says which packets it holds.
\<close>

section \<open>The reference\<close>

text \<open>
  Up to the next start byte the text is skipped. From there on the third byte gives the extent of the
  candidate: if it is a frame, it holds a packet; in either case reading goes on behind it.
\<close>

function packets :: "u8 list \<Rightarrow> (u8 \<times> u8 list) list" where
  "packets bs = (case bs of
     [] \<Rightarrow> []
   | b # bs' \<Rightarrow>
       if b \<noteq> PKT_STX then packets bs'
       else (case bs' of
         c # n # rest \<Rightarrow>
           (let pl = take (unat n) rest; extent = unat n + 5 in
            if length bs < extent then []
            else (if take extent bs = frame c pl then [(c, pl)] else []) @ packets (drop extent bs))
       | _ \<Rightarrow> []))"
  by auto
termination by (relation "measure length") auto

declare packets.simps [simp del]

lemma packets_Nil [simp]: "packets [] = []"
  by (simp add: packets.simps)

lemma packets_skip [simp]: "b \<noteq> PKT_STX \<Longrightarrow> packets (b # bs) = packets bs"
  by (simp add: packets.simps [of "b # bs"])

lemma packets_short: "length bs < 3 \<Longrightarrow> packets bs = []"
proof (induction bs)
  case (Cons b bs)
  then show ?case
    by (subst packets.simps) (auto split: list.splits)
qed simp

lemma packets_candidate:
  "packets (PKT_STX # c # n # rest) =
    (if length rest < unat n + 2 then []
     else (if take (unat n + 2) rest = drop 3 (frame c (take (unat n) rest)) then [(c, take (unat n) rest)] else []) @
       packets (drop (unat n + 2) rest))"
proof -
  let ?f = "frame c (take (unat n) rest)"
  have "take (unat n + 5) (PKT_STX # c # n # rest) = ?f \<longleftrightarrow> take (unat n + 2) rest = drop 3 ?f"
    if "\<not> length rest < unat n + 2"
  proof -
    have "?f = PKT_STX # c # n # drop 3 ?f" using that by (simp add: frame_def Let_def numeral_eq_Suc)
    moreover have "take (unat n + 5) (PKT_STX # c # n # rest) = PKT_STX # c # n # take (unat n + 2) rest"
      by (simp add: numeral_eq_Suc)
    ultimately show ?thesis by (metis list.inject)
  qed
  moreover have "drop (unat n + 5) (PKT_STX # c # n # rest) = drop (unat n + 2) rest" by (simp add: numeral_eq_Suc)
  moreover have "length (PKT_STX # c # n # rest) < unat n + 5 \<longleftrightarrow> length rest < unat n + 2" by simp
  ultimately show ?thesis
    by (subst packets.simps, cases "length rest < unat n + 2")
      (simp_all only: list.case Let_def simp_thms if_True if_False)
qed

section \<open>Unfinished candidates\<close>

text \<open>How many bytes a receiver inside a candidate still waits for, at least.\<close>

fun missing :: "uart_rx \<Rightarrow> nat" where
  "missing s = (case rxState s of
     STATE_WAIT_STX \<Rightarrow> 0 | STATE_RECV_CMD \<Rightarrow> 4 | STATE_RECV_LEN \<Rightarrow> 3
   | STATE_RECV_DATA \<Rightarrow> unat (pkt_len (rxPkt s)) - unat (dataIdx s) + 2
   | STATE_RECV_CRC \<Rightarrow> 2 | STATE_WAIT_ETX \<Rightarrow> 1)"

lemma missing_step:
  assumes "uart_inv s" and "1 < missing s" and "UART_RxCallback b s = Some t"
  shows "missing s \<le> missing t + 1 \<and> pktReady t = pktReady s \<and> pendingPkt t = pendingPkt s"
proof (cases "rxState s")
  case STATE_RECV_DATA
  then have "unat (dataIdx s) < unat (pkt_len (rxPkt s))"
    using assms(1) by (simp add: uart_inv_def word_less_nat_alt)
  moreover from this have "unat (dataIdx s) + 1 \<le> 255" using unat_u8_le [of "pkt_len (rxPkt s)"] by linarith
  then have "unat (dataIdx s + 1) = unat (dataIdx s) + 1" by (simp add: unat_add_bounded)
  ultimately show ?thesis using assms STATE_RECV_DATA
    by (auto simp: UART_RxCallback_def bind_eq_Some_conv Let_def word_le_nat_alt split: if_splits)
next
  case STATE_RECV_LEN
  then show ?thesis using assms unat_u8 [of b]
    by (auto simp: UART_RxCallback_def Let_def PKT_MAX_DATA_LEN_def word_less_nat_alt not_less split: if_splits)
qed (use assms in \<open>auto simp: UART_RxCallback_def\<close>)

lemma unfinished:
  assumes "uart_inv s" and "length bs < missing s"
  shows "\<exists>t. receive_bytes bs s = Some t \<and> pktReady t = pktReady s \<and> pendingPkt t = pendingPkt s"
  using assms
proof (induction bs arbitrary: s)
  case (Cons b bs)
  obtain u where u: "UART_RxCallback b s = Some u" "uart_inv u"
    using UART_RxCallback_inv [OF Cons.prems(1)] by blast
  then show ?case
    using missing_step [OF Cons.prems(1) _ u(1)] Cons.IH [OF u(2)] Cons.prems(2) by fastforce
qed simp

section \<open>The receiver parses\<close>

definition parsed :: "uart_rx \<Rightarrow> (u8 \<times> u8 list) list \<Rightarrow> uart_rx \<Rightarrow> bool" where
  "parsed s ps t \<longleftrightarrow>
     (if ps = [] then pktReady t = pktReady s \<and> pendingPkt t = pendingPkt s
      else pktReady t = 1 \<and> (pkt_cmd (pendingPkt t), payload (pendingPkt t)) = last ps \<and>
        unat (pkt_len (pendingPkt t)) = length (snd (last ps)))"

lemma parsed_append: "parsed s ps t \<Longrightarrow> parsed t qs u \<Longrightarrow> parsed s (ps @ qs) u"
  by (auto simp: parsed_def split: if_splits)

lemma receive_candidate:
  assumes "rx_idle s" and "length rest = unat n + 2"
  shows "\<exists>t. receive_bytes (PKT_STX # c # n # rest) s = Some t \<and> rx_idle t \<and>
    parsed s (if rest = drop 3 (frame c (take (unat n) rest)) then [(c, take (unat n) rest)] else []) t"
proof -
  define pl where "pl = take (unat n) rest"
  obtain x e where "drop (unat n) rest = [x, e]"
    using assms(2) by (metis (no_types) add_diff_cancel_left' length_0_conv length_Suc_conv length_drop numeral_2_eq_2)
  then have rest: "rest = pl @ [x, e]" by (metis pl_def append_take_drop_id)
  have n: "unat n = length pl" using assms(2) rest by simp
  then have "rest = drop 3 (frame c pl) \<longleftrightarrow> e = PKT_ETX \<and> x = c XOR n XOR xor_all pl XOR PKT_ETX"
    by (auto simp: rest frame_def Let_def numeral_eq_Suc simp flip: n)
  then have accept: "rest = drop 3 (frame c (take (unat n) rest)) \<longleftrightarrow> e = PKT_ETX \<and> x = c XOR n XOR xor_all pl XOR PKT_ETX"
    by (simp add: pl_def)
  obtain t p where t: "receive_bytes ([PKT_STX, c, n] @ pl @ [x, e]) s = Some t" "rx_idle t"
      "pkt_cmd p = c" "pkt_len p = n" "payload p = pl"
      "if e = PKT_ETX \<and> x = c XOR n XOR xor_all pl XOR PKT_ETX
       then pktReady t = 1 \<and> pendingPkt t = p else pktReady t = pktReady s \<and> pendingPkt t = pendingPkt s"
    using receive_packet [OF assms(1) n, of c x e] by blast
  have "parsed s (if e = PKT_ETX \<and> x = c XOR n XOR xor_all pl XOR PKT_ETX then [(c, pl)] else []) t"
    using t(3-6) n by (auto simp: parsed_def split: if_splits)
  moreover have "receive_bytes (PKT_STX # c # n # rest) s = Some t"
    using t(1) rest by (simp del: receive_bytes.simps)
  moreover have "take (unat n) rest = pl" by (simp add: pl_def)
  ultimately show ?thesis unfolding accept using t(2) by metis
qed

lemma receive_parses:
  "rx_idle s \<Longrightarrow> uart_inv s \<Longrightarrow> \<exists>t. receive_bytes bs s = Some t \<and> parsed s (packets bs) t"
proof (induction bs arbitrary: s rule: packets.induct)
  case (1 bs)
  show ?case
  proof (cases bs)
    case Nil
    then show ?thesis by (simp add: parsed_def)
  next
    case (Cons b bs')
    have wait: "rxState s = STATE_WAIT_STX" using "1.prems"(1) by (simp add: rx_idle_def)
    show ?thesis
    proof (cases "b = PKT_STX")
      case False
      then have "UART_RxCallback b s = Some s" using wait by (simp add: UART_RxCallback_def)
      then show ?thesis using "1.IH"(1) [OF Cons False "1.prems"] False Cons by simp
    next
      case True
      note bs = Cons [unfolded True]
      have enter: "UART_RxCallback PKT_STX s = Some (s\<lparr>rxState := STATE_RECV_CMD\<rparr>)"
        using wait by (simp add: UART_RxCallback_def)
      have inv: "uart_inv (s\<lparr>rxState := STATE_RECV_CMD\<rparr>)" using "1.prems"(2) by (simp add: uart_inv_def)
      consider (short) "length bs < 3" | (candidate) c n rest where "bs' = c # n # rest"
        using bs by (cases bs'; cases "tl bs'") auto
      then show ?thesis
      proof cases
        case short
        then show ?thesis
          using unfinished [OF inv, of bs'] bs enter by (simp add: packets_short parsed_def)
      next
        case candidate
        show ?thesis
        proof (cases "length rest < unat n + 2")
          case True
          let ?s1 = "s\<lparr>rxPkt := (rxPkt s)\<lparr>pkt_cmd := c, pkt_len := n\<rparr>, dataIdx := 0,
            rxState := (if n > 0 then STATE_RECV_DATA else STATE_RECV_CRC)\<rparr>"
          have "\<not> PKT_MAX_DATA_LEN < unat n"
            using unat_u8 [of n] unfolding PKT_MAX_DATA_LEN_def by linarith
          then have head: "receive_bytes [PKT_STX, c, n] s = Some ?s1"
            using wait by (simp add: UART_RxCallback_def)
          moreover have "uart_inv ?s1" using events_inv [OF "1.prems"(2), of "[PKT_STX, c, n]"] head by simp
          moreover have "length rest < missing ?s1" using True by (auto simp: word_less_nat_alt)
          ultimately show ?thesis
            using unfinished [of ?s1 rest] events_append [of "[PKT_STX, c, n]" rest s] bs candidate True
            by (simp add: packets_candidate parsed_def del: receive_bytes.simps)
        next
          case False
          let ?r = "take (unat n + 2) rest" and ?tl = "drop (unat n + 2) rest"
          have take_n: "take (unat n) ?r = take (unat n) rest" and len: "length ?r = unat n + 2" using False by auto
          obtain t where t: "receive_bytes (PKT_STX # c # n # ?r) s = Some t" "rx_idle t"
              "parsed s (if ?r = drop 3 (frame c (take (unat n) rest)) then [(c, take (unat n) rest)] else []) t"
            using receive_candidate [OF "1.prems"(1), of ?r n c, unfolded take_n] len by blast
          have "uart_inv t" 
            using events_inv [OF "1.prems"(2), of "PKT_STX # c # n # ?r"] unfolding t(1) by simp
          moreover have "drop (unat n + 5) bs = ?tl" using bs candidate by (simp add: numeral_eq_Suc)
          ultimately obtain u where u: "receive_bytes ?tl t = Some u" "parsed t (packets ?tl) u"
            using "1.IH"(2) [OF Cons _ candidate refl refl, where s = t] True t(2) False bs candidate by auto
          have "receive_bytes bs s = Some u"
            using events_append [of "PKT_STX # c # n # ?r" ?tl s] t(1) u(1) bs candidate
            by (simp del: receive_bytes.simps)
          then show ?thesis
            using parsed_append [OF t(3) u(2)] False bs candidate by (simp add: packets_candidate)
        qed
      qed
    qed
  qed
qed

end
