(* ===== verification/Uart_Line.thy ===== *)
theory Uart_Line
  imports Uart_Parser
begin

text \<open>
  The serial line: the reception of \<open>uart_handler.c\<close> together with the part of the HAL it stands on
  (\<open>Drivers/STM32F4xx_HAL_Driver/Src/stm32f4xx_hal_uart.c\<close>), the transfer to \<open>rx_buf\<close> that ends when
  the line is idle. The HAL calls \<open>HAL_UARTEx_RxEventCallback\<close> also when half of the buffer is full.
\<close>

section \<open>The reception\<close>

definition RX_BUF_SIZE :: nat where "RX_BUF_SIZE = 64"

text \<open>
  \<open>RxBusy\<close>: whether \<open>RxState\<close> of the handle is not ready; \<open>stored\<close>: how many bytes the transfer has stored
  since it was started; \<open>receiver\<close>: the static variables of \<open>uart_handler.c\<close>.
\<close>

record uart_line =
  RxBusy :: bool
  stored :: nat
  rx_buf :: "u8 list"
  receiver :: uart_rx

datatype HAL_StatusTypeDef = HAL_OK | HAL_ERROR | HAL_BUSY | HAL_TIMEOUT

text \<open>The caller's arguments are always \<open>rx_buf\<close> and its size. The transfer is in normal mode, and the line has no errors.\<close>

definition HAL_UARTEx_ReceiveToIdle_DMA :: "uart_line \<Rightarrow> HAL_StatusTypeDef \<times> uart_line" where
  "HAL_UARTEx_ReceiveToIdle_DMA l =
     (if RxBusy l then (HAL_BUSY, l) else (HAL_OK, l\<lparr>RxBusy := True, stored := 0\<rparr>))"

text \<open>The callback with the restart at its end, whose result it ignores.\<close>

definition RxEvent :: "nat \<Rightarrow> uart_line \<Rightarrow> uart_line option" where
  "RxEvent n l = do {
     u \<leftarrow> HAL_UARTEx_RxEventCallback (rx_buf l) (of_nat n) (receiver l);
     Some (snd (HAL_UARTEx_ReceiveToIdle_DMA (l\<lparr>receiver := u\<rparr>))) }"

definition UART_DMARxHalfCplt :: "uart_line \<Rightarrow> uart_line option" where
  "UART_DMARxHalfCplt l = RxEvent (RX_BUF_SIZE div 2) l"

definition UART_DMAReceiveCplt :: "uart_line \<Rightarrow> uart_line option" where
  "UART_DMAReceiveCplt l = RxEvent RX_BUF_SIZE (l\<lparr>RxBusy := False\<rparr>)"

text \<open>The idle branch of \<open>HAL_UART_IRQHandler\<close>.\<close>

definition UART_IdleLine :: "uart_line \<Rightarrow> uart_line option" where
  "UART_IdleLine l =
     (let nb_remaining_rx_data = RX_BUF_SIZE - stored l
      in if RxBusy l \<and> nb_remaining_rx_data > 0 \<and> nb_remaining_rx_data < RX_BUF_SIZE
         then RxEvent (RX_BUF_SIZE - nb_remaining_rx_data) (l\<lparr>RxBusy := False\<rparr>)
         else Some l)"

text \<open>
  A byte from the line: the transfer stores it and raises its two interrupts. A callback is over before the next
  byte arrives. Without a transfer the byte is lost.
\<close>

definition line_byte :: "u8 \<Rightarrow> uart_line \<Rightarrow> uart_line option" where
  "line_byte b l =
     (if \<not> RxBusy l then Some l
      else do {
        buf \<leftarrow> c_store (rx_buf l) (int (stored l)) b;
        let l = l\<lparr>rx_buf := buf, stored := stored l + 1\<rparr>;
        if stored l = RX_BUF_SIZE div 2 then UART_DMARxHalfCplt l
        else if stored l = RX_BUF_SIZE then UART_DMAReceiveCplt l
        else Some l })"

fun line_bytes :: "u8 list \<Rightarrow> uart_line \<Rightarrow> uart_line option" where
  "line_bytes [] l = Some l"
| "line_bytes (b # bs) l = Option.bind (line_byte b l) (line_bytes bs)"

text \<open>Bursts: bytes that follow each other without a pause, and then an idle line.\<close>

fun receive_bursts :: "u8 list list \<Rightarrow> uart_line \<Rightarrow> uart_line option" where
  "receive_bursts [] l = Some l"
| "receive_bursts (bs # bss) l = do {
     l \<leftarrow> line_bytes bs l;
     l \<leftarrow> UART_IdleLine l;
     receive_bursts bss l }"

text \<open>After \<open>UART_CMD_Init\<close>.\<close>

definition line_start :: uart_line where
  "line_start = snd (HAL_UARTEx_ReceiveToIdle_DMA
     \<lparr>RxBusy = False, stored = 0, rx_buf = replicate RX_BUF_SIZE 0, receiver = uart_power_on\<rparr>)"

section \<open>What is delivered\<close>

text \<open>
  The bytes the receiver is given for a burst. From 32 bytes on, the first 32 of every 64 come
  twice, first alone and then again with what follows them in the buffer.
\<close>

function delivered :: "u8 list \<Rightarrow> u8 list" where
  "delivered bs =
     (if 64 \<le> length bs then take 32 bs @ take 64 bs @ delivered (drop 64 bs)
      else if 32 \<le> length bs then take 32 bs @ bs
      else bs)"
  by auto
termination by (relation "measure length") auto

declare delivered.simps [simp del]

lemma delivered_short: "length bs < 32 \<Longrightarrow> delivered bs = bs"
  by (simp add: delivered.simps)

definition line_ready :: "uart_line \<Rightarrow> bool" where
  "line_ready l \<longleftrightarrow> RxBusy l \<and> stored l = 0 \<and> length (rx_buf l) = 64 \<and> uart_inv (receiver l)"

lemma line_bytes_append: "line_bytes (as @ bs) l = Option.bind (line_bytes as l) (line_bytes bs)"
  by (induction as arbitrary: l) (auto split: bind_splits)

lemma line_bytes_Nil: "line_bytes [] = Some"
  by (rule ext) simp

text \<open>Bytes between the marks of the buffer are stored and nothing else.\<close>

lemma line_bytes_stored:
  "RxBusy l \<Longrightarrow> length (rx_buf l) = 64 \<Longrightarrow>
   stored l + length bs < 32 \<or> 32 \<le> stored l \<and> stored l + length bs < 64 \<Longrightarrow>
   line_bytes bs l = Some (l\<lparr>rx_buf := take (stored l) (rx_buf l) @ bs @ drop (stored l + length bs) (rx_buf l),
     stored := stored l + length bs\<rparr>)"
proof (induction bs arbitrary: l)
  case (Cons b bs)
  let ?l = "l\<lparr>rx_buf := (rx_buf l)[stored l := b], stored := stored l + 1\<rparr>"
  have lt: "stored l < 64" using Cons.prems(3) by auto
  then have "line_byte b l = Some ?l"
    using Cons.prems by (auto simp: line_byte_def RX_BUF_SIZE_def)
  moreover have "line_bytes bs ?l = Some (?l\<lparr>rx_buf := take (stored ?l) (rx_buf ?l) @ bs @ drop (stored ?l + length bs) (rx_buf ?l),
     stored := stored ?l + length bs\<rparr>)"
    using Cons.prems by (intro Cons.IH) auto
  moreover have "take (stored l + 1) ((rx_buf l)[stored l := b]) = take (stored l) (rx_buf l) @ [b]"
    using lt Cons.prems(2) by (simp add: take_Suc_conv_app_nth)
  ultimately show ?case by simp
qed simp

lemma RxEvent_law:
  assumes "n \<le> 64" and "length (rx_buf l) = 64" and "uart_inv (receiver l)"
  obtains u where "receive_bytes (take n (rx_buf l)) (receiver l) = Some u" "uart_inv u"
    "RxEvent n l = Some (if RxBusy l then l\<lparr>receiver := u\<rparr> else l\<lparr>receiver := u, RxBusy := True, stored := 0\<rparr>)"
proof -
  obtain u where u: "receive_bytes (take n (rx_buf l)) (receiver l) = Some u" "uart_inv u"
    using events_inv [OF assms(3)] by blast
  have "unat (of_nat n :: u16) = n" using assms(1) by (simp add: unat_of_nat)
  then have "RxEvent n l = Some (if RxBusy l then l\<lparr>receiver := u\<rparr> else l\<lparr>receiver := u, RxBusy := True, stored := 0\<rparr>)"
    using assms(1,2) u(1) by (simp add: RxEvent_def HAL_UARTEx_RxEventCallback_def HAL_UARTEx_ReceiveToIdle_DMA_def)
  with u show ?thesis by (rule that)
qed

text \<open>A mark is reached: the whole buffer up to it is delivered.\<close>

lemma line_bytes_half:
  assumes "line_ready l" and "length bs = 32"
  obtains u where "receive_bytes bs (receiver l) = Some u" "uart_inv u"
    "line_bytes bs l = Some (l\<lparr>rx_buf := bs @ drop 32 (rx_buf l), stored := 32, receiver := u\<rparr>)"
proof -
  have l: "RxBusy l" "stored l = 0" "length (rx_buf l) = 64" "uart_inv (receiver l)" using assms(1) by (simp_all add: line_ready_def)
  obtain as b where bs: "bs = as @ [b]" "length as = 31" using assms(2) by (cases bs rule: rev_cases) auto
  let ?l = "l\<lparr>rx_buf := bs @ drop 32 (rx_buf l), stored := 32\<rparr>"
  have "line_bytes as l = Some (l\<lparr>rx_buf := as @ drop 31 (rx_buf l), stored := 31\<rparr>)"
    using line_bytes_stored [of l as] l bs(2) by simp
  moreover have "(as @ drop 31 (rx_buf l))[31 := b] = bs @ drop 32 (rx_buf l)"
    using bs l(3) by (simp add: list_update_append Cons_nth_drop_Suc [symmetric])
  ultimately have run: "line_bytes bs l = UART_DMARxHalfCplt ?l"
    using l bs by (simp add: line_bytes_append line_bytes_Nil line_byte_def RX_BUF_SIZE_def)
  obtain u where u: "receive_bytes (take 32 (rx_buf ?l)) (receiver ?l) = Some u" "uart_inv u"
    "RxEvent 32 ?l = Some (if RxBusy ?l then ?l\<lparr>receiver := u\<rparr> else ?l\<lparr>receiver := u, RxBusy := True, stored := 0\<rparr>)"
    by (rule RxEvent_law [of 32 ?l]) (use l assms(2) in auto)
  show ?thesis
    by (rule that [of u]) (use u run l(1) assms(2) in \<open>simp_all add: UART_DMARxHalfCplt_def RX_BUF_SIZE_def\<close>)
qed

lemma burst_idle:
  assumes "RxBusy l" and "length (rx_buf l) = 64" and "uart_inv (receiver l)" and "stored l < 64"
  obtains u where "receive_bytes (take (stored l) (rx_buf l)) (receiver l) = Some (receiver u)" "line_ready u"
    "UART_IdleLine l = Some u"
proof (cases "stored l = 0")
  case True
  then show ?thesis using assms by (intro that [of l]) (simp_all add: UART_IdleLine_def RX_BUF_SIZE_def line_ready_def)
next
  case False
  let ?l = "l\<lparr>RxBusy := False\<rparr>"
  obtain u where u: "receive_bytes (take (stored l) (rx_buf ?l)) (receiver ?l) = Some u" "uart_inv u"
    "RxEvent (stored l) ?l = Some (if RxBusy ?l then ?l\<lparr>receiver := u\<rparr> else ?l\<lparr>receiver := u, RxBusy := True, stored := 0\<rparr>)"
    by (rule RxEvent_law [of "stored l" ?l]) (use assms in auto)
  have "UART_IdleLine l = RxEvent (stored l) ?l"
    using assms False by (simp add: UART_IdleLine_def RX_BUF_SIZE_def Let_def)
  then show ?thesis using u assms(2)
    by (intro that [of "?l\<lparr>receiver := u, RxBusy := True, stored := 0\<rparr>"]) (simp_all add: line_ready_def)
qed

lemma receive_burst:
  "line_ready l \<Longrightarrow> \<exists>u. Option.bind (line_bytes bs l) UART_IdleLine = Some u \<and> line_ready u \<and>
     receive_bytes (delivered bs) (receiver l) = Some (receiver u)"
proof (induction bs arbitrary: l rule: delivered.induct)
  case (1 bs)
  have l: "RxBusy l" "stored l = 0" "length (rx_buf l) = 64" "uart_inv (receiver l)" using "1.prems" by (simp_all add: line_ready_def)
  consider (short) "length bs < 32" | (half) "32 \<le> length bs" "length bs < 64" | (full) "64 \<le> length bs" by linarith
  then show ?case
  proof cases
    case short
    let ?l = "l\<lparr>rx_buf := bs @ drop (length bs) (rx_buf l), stored := length bs\<rparr>"
    have "line_bytes bs l = Some ?l" using line_bytes_stored [of l bs] l short by simp
    moreover obtain u where "receive_bytes (take (stored ?l) (rx_buf ?l)) (receiver ?l) = Some (receiver u)" "line_ready u"
      "UART_IdleLine ?l = Some u" by (rule burst_idle [of ?l]) (use l short in auto)
    ultimately show ?thesis using short by (intro exI [of _ u]) (simp add: delivered_short)
  next
    case half
    let ?as = "take 32 bs" and ?bs = "drop 32 bs"
    obtain v where v: "receive_bytes ?as (receiver l) = Some v" "uart_inv v"
      "line_bytes ?as l = Some (l\<lparr>rx_buf := ?as @ drop 32 (rx_buf l), stored := 32, receiver := v\<rparr>)"
      by (rule line_bytes_half [OF "1.prems", of ?as]) (use half in auto)
    let ?m = "l\<lparr>rx_buf := ?as @ drop 32 (rx_buf l), stored := 32, receiver := v\<rparr>"
    let ?l = "?m\<lparr>rx_buf := bs @ drop (length bs) (rx_buf l), stored := length bs\<rparr>"
    have "line_bytes ?bs ?m = Some ?l"
      using line_bytes_stored [of ?m ?bs] l half by (simp add: append_assoc [symmetric] del: append_assoc)
    then have run: "line_bytes bs l = Some ?l"
      using v(3) line_bytes_append [of ?as ?bs l] by simp
    obtain u where u: "receive_bytes (take (stored ?l) (rx_buf ?l)) (receiver ?l) = Some (receiver u)" "line_ready u"
      "UART_IdleLine ?l = Some u" by (rule burst_idle [of ?l]) (use l v(2) half in auto)
    have "delivered bs = ?as @ bs" using half by (simp add: delivered.simps [of bs])
    then show ?thesis using run u v(1) by (intro exI [of _ u]) (simp add: events_append)
  next
    case full
    let ?as = "take 32 bs" and ?rest = "drop 64 bs"
    have two: "take 64 bs = ?as @ drop 32 (take 64 bs)" using append_take_drop_id [of 32 "take 64 bs"] by simp
    have "length (drop 32 (take 64 bs)) = 32" using full by simp
    then obtain cs b where cs: "drop 32 (take 64 bs) = cs @ [b]" "length cs = 31"
      by (cases "drop 32 (take 64 bs)" rule: rev_cases) auto
    have bs: "bs = ?as @ (cs @ [b]) @ ?rest"
      using append_take_drop_id [of 64 bs] two cs(1) by (metis append_assoc)
    obtain v where v: "receive_bytes ?as (receiver l) = Some v" "uart_inv v"
      "line_bytes ?as l = Some (l\<lparr>rx_buf := ?as @ drop 32 (rx_buf l), stored := 32, receiver := v\<rparr>)"
      by (rule line_bytes_half [OF "1.prems", of ?as]) (use full in auto)
    let ?m = "l\<lparr>rx_buf := ?as @ drop 32 (rx_buf l), stored := 32, receiver := v\<rparr>"
    let ?l = "?m\<lparr>rx_buf := take 64 bs, stored := 64\<rparr>"
    have 1: "line_bytes cs ?m = Some (?m\<lparr>rx_buf := ?as @ cs @ drop 63 (rx_buf l), stored := 63\<rparr>)"
      using line_bytes_stored [of ?m cs] l cs(2) full by simp
    have "(?as @ cs @ drop 63 (rx_buf l))[63 := b] = take 64 bs"
      using l(3) cs full by (subst two) (simp add: list_update_append Cons_nth_drop_Suc [symmetric])
    then have 2: "line_byte b (?m\<lparr>rx_buf := ?as @ cs @ drop 63 (rx_buf l), stored := 63\<rparr>) = UART_DMAReceiveCplt ?l"
      using l cs(2) full by (simp add: line_byte_def RX_BUF_SIZE_def)
    obtain w where w: "receive_bytes (take 64 (take 64 bs)) v = Some w" "uart_inv w"
      "RxEvent 64 (?l\<lparr>RxBusy := False\<rparr>) = Some (?l\<lparr>receiver := w, RxBusy := True, stored := 0\<rparr>)"
      by (rule RxEvent_law [of 64 "?l\<lparr>RxBusy := False\<rparr>"]) (use l v(2) full in auto)
    let ?r = "?l\<lparr>receiver := w, RxBusy := True, stored := 0\<rparr>"
    have 3: "UART_DMAReceiveCplt ?l = Some ?r" using w(3) by (simp only: UART_DMAReceiveCplt_def RX_BUF_SIZE_def)
    have "line_bytes (?as @ (cs @ [b]) @ ?rest) l = line_bytes ?rest ?r"
      by (simp only: line_bytes_append v(3) 1 2 3 line_bytes.simps bind.simps)
    then have run: "line_bytes bs l = line_bytes ?rest ?r" by (simp only: bs [symmetric])
    have "line_ready ?r" using w(2) full by (simp add: line_ready_def)
    from "1.IH" [OF full this] obtain u where u: "Option.bind (line_bytes ?rest ?r) UART_IdleLine = Some u" "line_ready u"
      "receive_bytes (delivered ?rest) w = Some (receiver u)" by auto
    have "delivered bs = ?as @ take 64 bs @ delivered ?rest" using full by (simp add: delivered.simps [of bs])
    then show ?thesis using u v(1) w(1) unfolding run by (intro exI [of _ u]) (simp add: events_append)
  qed
qed

lemma receive_bursts_law:
  "line_ready l \<Longrightarrow> \<exists>u. receive_bursts bss l = Some u \<and> line_ready u \<and>
     receive_bytes (concat (map delivered bss)) (receiver l) = Some (receiver u)"
proof (induction bss arbitrary: l)
  case (Cons bs bss)
  obtain m where m: "Option.bind (line_bytes bs l) UART_IdleLine = Some m" "line_ready m"
    "receive_bytes (delivered bs) (receiver l) = Some (receiver m)"
    using receive_burst [OF Cons.prems] by blast
  obtain u where "receive_bursts bss m = Some u" "line_ready u"
    "receive_bytes (concat (map delivered bss)) (receiver m) = Some (receiver u)"
    using Cons.IH [OF m(2)] by blast
  then show ?case using m by (intro exI [of _ u]) (auto simp: events_append bind_eq_Some_conv)
qed simp

lemma line_start_ready: "line_ready line_start"
  by (simp add: line_start_def HAL_UARTEx_ReceiveToIdle_DMA_def RX_BUF_SIZE_def line_ready_def uart_inv_power_on)

section \<open>Property\<close>

text \<open>
  C9: The receiver on the line is equivalent to the reference parser. From power-on, for every sequence of bursts,
  each followed by an idle line, on a line without errors whose callbacks are over before the next byte arrives, no
  byte is stored outside \<open>rx_buf\<close> and the reception runs again after each burst. As long as the main loop takes
  no packet, one is ready exactly when the text that the HAL delivers holds one; then the pending packet is the last one of this text, with its command, its length
  and its payload. The text is the one on the line when every burst is shorter than 32 bytes. In a longer burst the
  first 32 of every 64 bytes are delivered twice.
\<close>

theorem receiver_is_parser:
  "\<exists>l. receive_bursts bss line_start = Some l \<and> RxBusy l \<and>
     (let text = concat (map delivered bss); t = receiver l in
      (pktReady t = 1 \<longleftrightarrow> packets text \<noteq> []) \<and>
      (packets text \<noteq> [] \<longrightarrow> (pkt_cmd (pendingPkt t), payload (pendingPkt t)) = last (packets text) \<and>
         unat (pkt_len (pendingPkt t)) = length (payload (pendingPkt t))) \<and>
      (list_all (\<lambda>bs. length bs < 32) bss \<longrightarrow> text = concat bss))"
proof -
  let ?text = "concat (map delivered bss)"
  have start: "receiver line_start = uart_power_on"
    by (simp add: line_start_def HAL_UARTEx_ReceiveToIdle_DMA_def)
  obtain l where l: "receive_bursts bss line_start = Some l" "line_ready l" "receive_bytes ?text uart_power_on = Some (receiver l)"
    using receive_bursts_law [OF line_start_ready, of bss] unfolding start by blast
  have "rx_idle uart_power_on"
    by (simp add: rx_idle_def uart_power_on_def packet_zero_def PKT_MAX_DATA_LEN_def)
  then have p: "parsed uart_power_on (packets ?text) (receiver l)"
    using receive_parses [OF _ uart_inv_power_on, of ?text] l(3) by auto
  have "list_all (\<lambda>bs. length bs < 32) bss \<Longrightarrow> map delivered bss = bss"
    by (induction bss) (simp_all add: delivered_short)
  moreover have "pktReady uart_power_on = 0" by (simp add: uart_power_on_def)
  ultimately show ?thesis using l(1,2) p
    by (auto simp: Let_def parsed_def line_ready_def prod_eq_iff split: if_splits)
qed

text \<open>
  Two frames in three bursts, with a start byte of the line noise before the second: the noise makes a
  candidate of six bytes that swallows it, so only the first packet is found.
\<close>

theorem receiver_is_parser_witness:
  "packets (concat [[0x00, PKT_STX, 0x10, 1], [7, 0x10 XOR 1 XOR 7 XOR PKT_ETX, PKT_ETX],
     [PKT_STX, 0x20, 1] @ frame 0x11 []]) = [(0x10, [7])] \<and>
   (\<exists>l. receive_bursts [[0x00, PKT_STX, 0x10, 1], [7, 0x10 XOR 1 XOR 7 XOR PKT_ETX, PKT_ETX],
     [PKT_STX, 0x20, 1] @ frame 0x11 []] line_start = Some l \<and> pkt_cmd (pendingPkt (receiver l)) = 0x10)"
proof -
  have "packets (concat [[0x00, PKT_STX, 0x10, 1], [7, 0x10 XOR 1 XOR 7 XOR PKT_ETX, PKT_ETX],
     [PKT_STX, 0x20, 1] @ frame 0x11 []]) = [(0x10, [7])]" (is "packets (concat ?bss) = _")
    by (simp add: packets.simps frame_def Let_def PKT_STX_def PKT_ETX_def)
  then show ?thesis using receiver_is_parser [of ?bss] by (auto simp: Let_def)
qed

text \<open>
  A frame of 32 bytes is received twice. One of 33 bytes is lost: the first 32 bytes and the first of the
  repetition make a candidate with a wrong end byte, and the rest holds no start byte.
\<close>

lemma frame_of_32_twice:
  "packets (delivered (frame CMD_PLAY_WAV (replicate 27 65))) = [(CMD_PLAY_WAV, replicate 27 65), (CMD_PLAY_WAV, replicate 27 65)]"
  by code_simp

lemma frame_of_33_lost: "packets (delivered (frame CMD_PLAY_WAV (replicate 28 65))) = []"
  by code_simp

end
