(* ===== verification/Uart_Races.thy ===== *)
theory Uart_Races
  imports Uart_Handler
begin

text \<open>
  The receive interrupt inside \<open>UART_Handler_Process\<close> (\<open>features/protocol/uart_handler.c\<close>): the dispatcher clears
  \<open>pktReady\<close> and then copies \<open>pendingPkt\<close>, with interrupts enabled. The copy of the structure is taken byte by
  byte in ascending order, which C leaves open; the interrupt comes between two bytes.
\<close>

section \<open>A copy that is interrupted\<close>

definition packet_bytes :: "Packet_t \<Rightarrow> u8 list" where
  "packet_bytes p = [pkt_cmd p, pkt_len p] @ pkt_data p @ [pkt_crc p]"

definition packet_of_bytes :: "u8 list \<Rightarrow> Packet_t" where
  "packet_of_bytes bs = \<lparr>pkt_cmd = bs ! 0, pkt_len = bs ! 1, pkt_data = take 256 (drop 2 bs), pkt_crc = bs ! 258\<rparr>"

text \<open>\<open>k\<close> bytes are copied from the old content, the others from the new one.\<close>

definition packet_copy :: "nat \<Rightarrow> Packet_t \<Rightarrow> Packet_t \<Rightarrow> Packet_t" where
  "packet_copy k old new = packet_of_bytes (take k (packet_bytes old) @ drop k (packet_bytes new))"

lemma packet_of_bytes_inverse: "packet_ok p \<Longrightarrow> packet_of_bytes (packet_bytes p) = p"
  by (simp add: packet_of_bytes_def packet_bytes_def packet_ok_def nth_append nth_Cons split: nat.split)

lemma length_packet_bytes: "packet_ok p \<Longrightarrow> length (packet_bytes p) = 259"
  by (simp add: packet_bytes_def packet_ok_def)

text \<open>The interrupt delivers \<open>bs\<close> after \<open>k\<close> bytes of the copy.\<close>

definition UART_Handler_Process_interrupted ::
    "'f surroundings \<Rightarrow> nat \<Rightarrow> u8 list \<Rightarrow> 'f device \<Rightarrow> 'f outcome" where
  "UART_Handler_Process_interrupted e k bs d =
     (if pktReady (dev_uart d) = 0 then Some ([], [], d)
      else do {
        let old = pendingPkt (dev_uart d);
        u \<leftarrow> receive_bytes bs ((dev_uart d)\<lparr>pktReady := 0\<rparr>);
        handle_packet e (packet_copy k old (pendingPkt u)) (d\<lparr>dev_uart := u\<rparr>)
      })"

text \<open>Without bytes, or when the copy is over, it is the dispatcher of the other theories.\<close>

lemma packet_copy_same: "packet_ok p \<Longrightarrow> packet_copy k p p = p"
  by (simp add: packet_copy_def packet_of_bytes_inverse)

lemma packet_copy_ends:
  "packet_ok p \<Longrightarrow> packet_ok q \<Longrightarrow> packet_copy 0 p q = q"
  "packet_ok p \<Longrightarrow> packet_ok q \<Longrightarrow> 259 \<le> k \<Longrightarrow> packet_copy k p q = p"
  by (simp_all add: packet_copy_def packet_of_bytes_inverse length_packet_bytes)

lemma not_interrupted:
  "packet_ok (pendingPkt (dev_uart d)) \<Longrightarrow>
   UART_Handler_Process_interrupted e k [] d = UART_Handler_Process e d"
  by (simp add: UART_Handler_Process_interrupted_def UART_Handler_Process_def packet_copy_same)

text \<open>In between, the command and the length are the old ones, and the data changes in the middle.\<close>

lemma packet_copy_middle:
  assumes "packet_ok p" and "packet_ok q" and "j \<le> 256"
  shows "packet_copy (2 + j) p q = \<lparr>pkt_cmd = pkt_cmd p, pkt_len = pkt_len p,
     pkt_data = take j (pkt_data p) @ drop j (pkt_data q), pkt_crc = pkt_crc q\<rparr>"
  using assms by (auto simp: packet_copy_def packet_of_bytes_def packet_bytes_def packet_ok_def nth_append nth_Cons
      split: nat.split)

lemma packet_copy_payload:
  assumes "packet_ok p" and "packet_ok q" and "pkt_len p = pkt_len q" and "j \<le> unat (pkt_len p)"
  shows "payload (packet_copy (2 + j) p q) = take j (payload p) @ drop j (payload q)"
proof -
  have "j \<le> 256" using assms(4) unat_u8 [of "pkt_len p"] by linarith
  then show ?thesis using assms unfolding packet_copy_middle [OF assms(1,2) \<open>j \<le> 256\<close>]
    by (auto simp: payload_def packet_ok_def take_drop min_def)
qed

lemma receive_ok:
  assumes "uart_inv u" and "receive_bytes bs u = Some v"
  shows "packet_ok (pendingPkt v)"
  using assms events_inv [OF assms(1), of bs] by (auto simp: uart_inv_def packet_ok_def)

section \<open>Properties\<close>

text \<open>
  C36: A packet can be torn. When the bytes of a second frame, of the same length, arrive while the waiting packet
  is being copied, what is carried out is the command of the first with the first \<open>j\<close> bytes of its data and the
  rest of the second one's: a packet that was never sent and whose checksum nobody has compared. The second packet
  is waiting afterwards and is carried out too.
\<close>

theorem packet_torn_by_interrupt:
  assumes "uart_inv (dev_uart d)" and "rx_idle (dev_uart d)" and "pktReady (dev_uart d) \<noteq> 0"
    and "length pl = unat (pkt_len (pendingPkt (dev_uart d)))" and "j \<le> length pl"
  shows "\<exists>u p. UART_Handler_Process_interrupted e (2 + j) (frame c pl) d = handle_packet e p (d\<lparr>dev_uart := u\<rparr>) \<and>
    pkt_cmd p = pkt_cmd (pendingPkt (dev_uart d)) \<and> pkt_len p = pkt_len (pendingPkt (dev_uart d)) \<and>
    payload p = take j (payload (pendingPkt (dev_uart d))) @ drop j pl \<and>
    pktReady u = 1 \<and> pkt_cmd (pendingPkt u) = c \<and> payload (pendingPkt u) = pl"
proof -
  let ?u = "(dev_uart d)\<lparr>pktReady := 0\<rparr>" and ?old = "pendingPkt (dev_uart d)"
  have le: "length pl \<le> 255" using assms(4) unat_u8 [of "pkt_len ?old"] by linarith
  have idle: "rx_idle ?u" "uart_inv ?u" using assms(1,2) by (simp_all add: rx_idle_def uart_inv_def)
  obtain v where v: "receive_bytes (frame c pl) ?u = Some v" "pktReady v = 1"
    "pkt_cmd (pendingPkt v) = c" "unat (pkt_len (pendingPkt v)) = length pl" "payload (pendingPkt v) = pl"
    using frame_is_pending [OF idle(1) le] by blast
  have ok: "packet_ok ?old" "packet_ok (pendingPkt v)"
    using assms(1) receive_ok [OF idle(2) v(1)] by (simp_all add: uart_inv_def packet_ok_def)
  have len: "pkt_len ?old = pkt_len (pendingPkt v)" using v(4) assms(4) by (simp add: word_unat_eq_iff)
  let ?p = "packet_copy (2 + j) ?old (pendingPkt v)"
  have "j \<le> 256" using assms(5) le by simp
  then have "pkt_cmd ?p = pkt_cmd ?old" "pkt_len ?p = pkt_len ?old"
    unfolding packet_copy_middle [OF ok \<open>j \<le> 256\<close>] by simp_all
  moreover have "payload ?p = take j (payload ?old) @ drop j pl"
    using packet_copy_payload [OF ok len] assms(4,5) v(5) by simp
  moreover have "UART_Handler_Process_interrupted e (2 + j) (frame c pl) d = handle_packet e ?p (d\<lparr>dev_uart := v\<rparr>)"
    using assms(3) v(1) by (simp add: UART_Handler_Process_interrupted_def)
  ultimately show ?thesis using v by blast
qed

text \<open>
  A train announcement is being taken over when the command to show screen 2 arrives: an announcement for a
  destination that nobody sent is confirmed, and as there is no such destination, it is cancelled.
\<close>

lemma packet_torn_by_interrupt_witness:
  "\<exists>u. UART_Handler_Process_interrupted empty_card 2 (frame CMD_DISPLAY_CTRL [0x32]) (device_with CMD_TRAIN_DEST [1])
    = Some ([frame CMD_ACK [CMD_TRAIN_DEST]], [], (device_with CMD_TRAIN_DEST [1])\<lparr>dev_uart := u,
        dev_matrix := MatrixRun_SetTrainDest 5 0x32 (dev_matrix (device_with CMD_TRAIN_DEST [1]))\<rparr>) \<and>
    train_event_active (MatrixRun_SetTrainDest 5 0x32 (dev_matrix (device_with CMD_TRAIN_DEST [1]))) = 0"
proof -
  let ?d = "device_with CMD_TRAIN_DEST [1]"
  have "device_ok ?d" by (rule device_with_ok) simp
  then have "uart_inv (dev_uart ?d)" by (simp add: device_ok_def)
  moreover have f: "rx_idle (dev_uart ?d)" "pktReady (dev_uart ?d) \<noteq> 0"
    "pkt_cmd (pendingPkt (dev_uart ?d)) = CMD_TRAIN_DEST" "pkt_len (pendingPkt (dev_uart ?d)) = 1"
    by (simp_all add: device_with_def rx_idle_def uart_power_on_def packet_zero_def PKT_MAX_DATA_LEN_def)
  ultimately obtain u p where p:
    "UART_Handler_Process_interrupted empty_card 2 (frame CMD_DISPLAY_CTRL [0x32]) ?d
      = handle_packet empty_card p (?d\<lparr>dev_uart := u\<rparr>)"
    "pkt_cmd p = CMD_TRAIN_DEST" "pkt_len p = 1" "payload p = [0x32]"
    using packet_torn_by_interrupt [of ?d "[0x32]" 0 empty_card CMD_DISPLAY_CTRL] by auto
  then have "c_load (pkt_data p) 0 = Some 0x32" by (cases "pkt_data p") (simp_all add: payload_def c_load_def)
  moreover have "length (stack empty_card) = 262" "tick1 empty_card = 5" by (simp_all add: empty_card_def)
  ultimately have "handle_packet empty_card p (?d\<lparr>dev_uart := u\<rparr>) = Some ([frame CMD_ACK [CMD_TRAIN_DEST]], [],
      ?d\<lparr>dev_uart := u, dev_matrix := MatrixRun_SetTrainDest 5 0x32 (dev_matrix ?d)\<rparr>)"
    using p(2,3) by (simp add: handle_packet_def handle_train_dest_def send_ack cmd_defs)
  moreover have "train_event_active (MatrixRun_SetTrainDest 5 0x32 (dev_matrix ?d)) = 0"
    by (simp add: MatrixRun_SetTrainDest_def Let_def)
  ultimately show ?thesis using p(1) by auto
qed

end
