(* ===== verification/Sd_Spi.thy ===== *)
theory Sd_Spi
  imports Prelude "HOL-Library.Monad_Syntax"
begin

text \<open>
  The driver of the SD card, \<open>Core/Src/drivers/storage/sd_spi.c\<close>, and its use by FatFs,
  \<open>FATFS/Target/user_diskio.c\<close>. The card is everything it could be: \<open>miso n\<close> is the byte it drives
  during the \<open>n\<close>-th exchange on the bus, and \<open>ticks n\<close> what the \<open>n\<close>-th reading of the clock returns.
  \<open>mosi\<close> records what the driver sends, each byte with the state of the chip select. The exchanges of
  the HAL wait without limit and succeed.
\<close>

section \<open>The bus\<close>

record spi =
  miso :: "nat \<Rightarrow> u8"
  ticks :: "nat \<Rightarrow> u32"
  n_bytes :: nat
  n_ticks :: nat
  selected :: bool
  mosi :: "(bool \<times> u8) list"
  g_sd_is_sdhc :: u8

definition SD_CS_LOW :: "spi \<Rightarrow> spi" where "SD_CS_LOW s = s\<lparr>selected := True\<rparr>"
definition SD_CS_HIGH :: "spi \<Rightarrow> spi" where "SD_CS_HIGH s = s\<lparr>selected := False\<rparr>"

definition HAL_GetTick :: "spi \<Rightarrow> u32 \<times> spi" where
  "HAL_GetTick s = (ticks s (n_ticks s), s\<lparr>n_ticks := n_ticks s + 1\<rparr>)"

definition spi_txrx_u8 :: "u8 \<Rightarrow> spi \<Rightarrow> u8 \<times> spi" where
  "spi_txrx_u8 d s = (miso s (n_bytes s), s\<lparr>n_bytes := n_bytes s + 1, mosi := mosi s @ [(selected s, d)]\<rparr>)"

fun spi_write_buf :: "u8 list \<Rightarrow> spi \<Rightarrow> spi" where
  "spi_write_buf [] s = s"
| "spi_write_buf (b # bs) s = spi_write_buf bs (snd (spi_txrx_u8 b s))"

text \<open>One call of \<open>HAL_SPI_TransmitReceive\<close> with a buffer of bytes 0xFF.\<close>

definition receive :: "nat \<Rightarrow> spi \<Rightarrow> u8 list \<times> spi" where
  "receive n s = (map (\<lambda>i. miso s (n_bytes s + i)) [0..<n],
     s\<lparr>n_bytes := n_bytes s + n, mosi := mosi s @ replicate n (selected s, 0xFF)\<rparr>)"

text \<open>\<open>spi_read_buf\<close> to \<open>dst + off\<close>, in pieces of at most 512 bytes.\<close>

function spi_read_buf :: "u8 list \<Rightarrow> nat \<Rightarrow> u32 \<Rightarrow> spi \<Rightarrow> (u8 list \<times> spi) option" where
  "spi_read_buf dst off len s =
     (if len = 0 then Some (dst, s)
      else let chunk = (if len > 512 then 512 else len);
               (bs, s) = receive (unat chunk) s
       in do {
         dst \<leftarrow> memcpy dst off bs 0 (unat chunk);
         spi_read_buf dst (off + unat chunk) (len - chunk) s })"
  by auto
termination
proof (relation "measure (\<lambda>(dst, off, len, s). unat len)")
  show "wf (measure (\<lambda>(dst, off, len :: u32, s :: spi). unat len))" by simp
next
  fix len chunk :: u32 and dst dst' bs :: "u8 list" and off :: nat and s s' :: spi
  assume "len \<noteq> 0" "chunk = (if len > 512 then 512 else len)"
  moreover have "unat len \<noteq> 0" using \<open>len \<noteq> 0\<close> by (metis unsigned_0 word_unat_eq_iff)
  ultimately have "0 < unat chunk" "unat chunk \<le> unat len"
    by (auto simp: word_less_nat_alt)
  then show "((dst', off + unat chunk, len - chunk, s'), (dst, off, len, s)) \<in> measure (\<lambda>(dst, off, len, s). unat len)"
    by (simp add: unat_sub_bounded)
qed

declare spi_read_buf.simps [simp del]

definition sd_dummy_clock :: "spi \<Rightarrow> spi" where
  "sd_dummy_clock s = spi_write_buf (replicate 10 0xFF) (SD_CS_HIGH s)"

text \<open>End of a transaction: the card is deselected and gets eight more clocks.\<close>

definition release :: "spi \<Rightarrow> spi" where
  "release s = snd (spi_txrx_u8 0xFF (SD_CS_HIGH s))"

section \<open>Waiting\<close>

text \<open>
  The loop shared by all waits: exchange a byte; stop if it is the one waited for; read the clock; stop if
  the time is over. A wait that never ends is \<open>None\<close>.
\<close>

partial_function (option) poll :: "(u8 \<Rightarrow> bool) \<Rightarrow> (u32 \<Rightarrow> bool) \<Rightarrow> spi \<Rightarrow> (u8 option \<times> spi) option" where
  "poll wanted expired s =
     (case spi_txrx_u8 0xFF s of (r, s) \<Rightarrow>
        if wanted r then Some (Some r, s)
        else (case HAL_GetTick s of (now, s) \<Rightarrow>
                if expired now then Some (None, s) else poll wanted expired s))"

definition sd_wait_token :: "u8 \<Rightarrow> u32 \<Rightarrow> spi \<Rightarrow> (int \<times> spi) option" where
  "sd_wait_token token timeout_ms s =
     (case HAL_GetTick s of (t0, s) \<Rightarrow> do {
        (r, s) \<leftarrow> poll (\<lambda>r. r = token) (\<lambda>now. \<not> now - t0 < timeout_ms) s;
        Some (if r = None then - 1 else 0, s) })"

definition sd_wait_ready :: "u32 \<Rightarrow> spi \<Rightarrow> (int \<times> spi) option" where
  "sd_wait_ready timeout_ms s =
     (case HAL_GetTick s of (t0, s) \<Rightarrow> do {
        (r, s) \<leftarrow> poll (\<lambda>r. r = 0xFF) (\<lambda>now. now - t0 > timeout_ms) s;
        Some (if r = None then - 1 else 0, s) })"

section \<open>Commands\<close>

definition CMD0 :: u8 where "CMD0 = 0"
definition CMD8 :: u8 where "CMD8 = 8"
definition CMD12 :: u8 where "CMD12 = 12"
definition CMD17 :: u8 where "CMD17 = 17"
definition CMD18 :: u8 where "CMD18 = 18"
definition CMD55 :: u8 where "CMD55 = 55"
definition CMD58 :: u8 where "CMD58 = 58"
definition ACMD41 :: u8 where "ACMD41 = 41"

definition cmd_packet :: "u8 \<Rightarrow> u32 \<Rightarrow> u8 \<Rightarrow> u8 list" where
  "cmd_packet cmd arg crc =
     [0x40 OR cmd, ucast (drop_bit 24 arg), ucast (drop_bit 16 arg), ucast (drop_bit 8 arg), ucast arg, crc]"

definition sd_cmd_r1 :: "u8 \<Rightarrow> u32 \<Rightarrow> u8 \<Rightarrow> spi \<Rightarrow> (u8 \<times> spi) option" where
  "sd_cmd_r1 cmd arg crc s =
     (case HAL_GetTick (spi_write_buf (cmd_packet cmd arg crc) s) of (t0, s) \<Rightarrow> do {
        (r, s) \<leftarrow> poll (\<lambda>r. r AND 0x80 = 0) (\<lambda>now. \<not> now - t0 < 10) s;
        Some (case r of Some r \<Rightarrow> r | None \<Rightarrow> 0xFF, s) })"

definition sd_send_cmd12 :: "spi \<Rightarrow> (int \<times> spi) option" where
  "sd_send_cmd12 s =
     (let s = snd (spi_txrx_u8 0xFF s) in
      case HAL_GetTick (spi_write_buf (cmd_packet CMD12 0 0x01) s) of (t0, s) \<Rightarrow> do {
        (r, s) \<leftarrow> poll (\<lambda>r. r AND 0x80 = 0) (\<lambda>now. \<not> now - t0 < 10) s;
        (ready, s) \<leftarrow> sd_wait_ready 50 s;
        Some (if ready \<noteq> 0 then - 1 else 0, s) })"

section \<open>Reading\<close>

definition sd_addr :: "u32 \<Rightarrow> spi \<Rightarrow> u32" where
  "sd_addr lba s = (if g_sd_is_sdhc s \<noteq> 0 then lba else lba * 512)"

text \<open>To \<open>buf + off\<close>; the two bytes of checksum go to a local array.\<close>

definition sd_read_block :: "u32 \<Rightarrow> u8 list \<Rightarrow> nat \<Rightarrow> spi \<Rightarrow> (int \<times> u8 list \<times> spi) option" where
  "sd_read_block lba buf off s = do {
     let s = SD_CS_LOW s;
     (r, s) \<leftarrow> sd_cmd_r1 CMD17 (sd_addr lba s) 0x01 s;
     if r \<noteq> 0 then Some (1, buf, release s)
     else do {
       (w, s) \<leftarrow> sd_wait_token 0xFE 50 s;
       if w \<noteq> 0 then Some (2, buf, release s)
       else do {
         (buf, s) \<leftarrow> spi_read_buf buf off 512 s;
         (crc, s) \<leftarrow> spi_read_buf (replicate 2 0) 0 2 s;
         Some (0, buf, release s) } } }"

fun multi_loop :: "nat \<Rightarrow> u8 list \<Rightarrow> nat \<Rightarrow> spi \<Rightarrow> (int \<times> u8 list \<times> spi) option" where
  "multi_loop 0 buf off s = do { (r, s) \<leftarrow> sd_send_cmd12 s; Some (0, buf, release s) }"
| "multi_loop (Suc n) buf off s = do {
     (w, s) \<leftarrow> sd_wait_token 0xFE 50 s;
     if w \<noteq> 0 then do { (r, s) \<leftarrow> sd_send_cmd12 s; Some (- 2, buf, release s) }
     else do {
       (buf, s) \<leftarrow> spi_read_buf buf off 512 s;
       (crc, s) \<leftarrow> spi_read_buf (replicate 2 0) 0 2 s;
       multi_loop n buf (off + 512) s } }"

definition sd_read_multi :: "u32 \<Rightarrow> u8 list \<Rightarrow> u32 \<Rightarrow> spi \<Rightarrow> (int \<times> u8 list \<times> spi) option" where
  "sd_read_multi lba buf count s =
     (if count \<le> 1 then sd_read_block lba buf 0 s
      else do {
        let s = SD_CS_LOW s;
        (r, s) \<leftarrow> sd_cmd_r1 CMD18 (sd_addr lba s) 0x01 s;
        if r \<noteq> 0 then Some (- 1, buf, release s)
        else multi_loop (unat count) buf 0 s })"

section \<open>Initialising\<close>

text \<open>The delay between two attempts passes time and does nothing else.\<close>

fun cmd0_loop :: "nat \<Rightarrow> u8 \<Rightarrow> spi \<Rightarrow> (u8 \<times> spi) option" where
  "cmd0_loop 0 r s = Some (r, s)"
| "cmd0_loop (Suc n) r s = do {
     (r, s) \<leftarrow> sd_cmd_r1 CMD0 0 0x95 (SD_CS_LOW s);
     let s = release s;
     if r = 0x01 then Some (r, s) else cmd0_loop n r s }"

text \<open>After \<open>continue\<close> the condition of the loop holds, because the answer is greater than 1.\<close>

partial_function (option) acmd41_loop :: "spi \<Rightarrow> spi option" where
  "acmd41_loop s =
     Option.bind (sd_cmd_r1 CMD55 0 0x01 (SD_CS_LOW s)) (\<lambda>(r, s).
       let s = release s in
       if r > 0x01 then acmd41_loop s
       else Option.bind (sd_cmd_r1 ACMD41 0x40000000 0x01 (SD_CS_LOW s)) (\<lambda>(r, s).
         let s = release s in if r \<noteq> 0 then acmd41_loop s else Some s))"

text \<open>
  The result code, whether FatFs was mounted, and the bus. What follows a successful read of the first
  block besides mounting, a faster bus clock, does not show here.
\<close>

definition sd_init :: "spi \<Rightarrow> (nat \<times> bool \<times> spi) option" where
  "sd_init s = do {
     let s = sd_dummy_clock (s\<lparr>g_sd_is_sdhc := 0\<rparr>);
     (r, s) \<leftarrow> cmd0_loop 50 0xFF s;
     if r \<noteq> 0x01 then Some (1, False, s)
     else do {
       (r, s) \<leftarrow> sd_cmd_r1 CMD8 0x1AA 0x87 (SD_CS_LOW s);
       (r7, s) \<leftarrow> (if r = 0x01 then spi_read_buf (replicate 4 0) 0 4 s else Some (replicate 4 0, s));
       let s = release s;
       if r \<noteq> 0x01 then Some (2, False, s)
       else if r7 ! 3 \<noteq> 0xAA then Some (3, False, s)
       else do {
         s \<leftarrow> acmd41_loop s;
         (r, s) \<leftarrow> sd_cmd_r1 CMD58 0 0x01 (SD_CS_LOW s);
         (ocr, s) \<leftarrow> spi_read_buf (replicate 4 0) 0 4 s;
         let s = release s;
         if r \<noteq> 0 then Some (4, False, s)
         else do {
           let s = (if ocr ! 0 AND 0x40 \<noteq> 0 then s\<lparr>g_sd_is_sdhc := 1\<rparr> else s);
           (e, buf, s) \<leftarrow> sd_read_block 0 (replicate 512 0) 0 s;
           Some (0, e = 0, s) } } } }"

section \<open>The disk functions of FatFs\<close>

definition STA_NOINIT :: u8 where "STA_NOINIT = 1"

datatype DRESULT = RES_OK | RES_ERROR | RES_WRPRT | RES_NOTRDY | RES_PARERR

definition USER_initialize :: "u8 \<Rightarrow> u8" where
  "USER_initialize pdrv = (if pdrv \<noteq> 0 then STA_NOINIT else 0)"

definition USER_status :: "u8 \<Rightarrow> u8" where
  "USER_status pdrv = 0"

definition USER_read :: "u8 \<Rightarrow> u8 list \<Rightarrow> u32 \<Rightarrow> u32 \<Rightarrow> spi \<Rightarrow> (DRESULT \<times> u8 list \<times> spi) option" where
  "USER_read pdrv buff sector count s =
     (if pdrv \<noteq> 0 then Some (RES_PARERR, buff, s)
      else do {
        let s = snd (HAL_GetTick s);
        (ret, buff, s) \<leftarrow> (if count > 1 then sd_read_multi sector buff count s else sd_read_block sector buff 0 s);
        Some (if ret = 0 then RES_OK else RES_ERROR, buff, s) })"

definition USER_write :: "u8 \<Rightarrow> u8 list \<Rightarrow> u32 \<Rightarrow> u32 \<Rightarrow> spi \<Rightarrow> DRESULT \<times> spi" where
  "USER_write pdrv buff sector count s = (RES_OK, s)"

text \<open>The value stored through \<open>buff\<close>, if one is.\<close>

definition CTRL_SYNC :: u8 where "CTRL_SYNC = 0"
definition GET_SECTOR_COUNT :: u8 where "GET_SECTOR_COUNT = 1"
definition GET_SECTOR_SIZE :: u8 where "GET_SECTOR_SIZE = 2"
definition GET_BLOCK_SIZE :: u8 where "GET_BLOCK_SIZE = 3"

definition USER_ioctl :: "u8 \<Rightarrow> u8 \<Rightarrow> DRESULT \<times> u32 option" where
  "USER_ioctl pdrv cmd =
     (if cmd = CTRL_SYNC then (RES_OK, None)
      else if cmd = GET_SECTOR_SIZE then (RES_OK, Some 512)
      else if cmd = GET_SECTOR_COUNT then (RES_OK, Some 32768)
      else if cmd = GET_BLOCK_SIZE then (RES_OK, Some 1)
      else (RES_PARERR, None))"

section \<open>Laws of the bus\<close>

text \<open>The bus after the driver has sent some bytes and read the clock some times.\<close>

definition sent :: "u8 list \<Rightarrow> nat \<Rightarrow> spi \<Rightarrow> spi" where
  "sent bs q s = s\<lparr>n_bytes := n_bytes s + length bs, n_ticks := q, mosi := mosi s @ map (Pair (selected s)) bs\<rparr>"

lemma sent_fields [simp]:
  "miso (sent bs q s) = miso s" "ticks (sent bs q s) = ticks s" "n_bytes (sent bs q s) = n_bytes s + length bs"
  "n_ticks (sent bs q s) = q" "selected (sent bs q s) = selected s" "g_sd_is_sdhc (sent bs q s) = g_sd_is_sdhc s"
  "mosi (sent bs q s) = mosi s @ map (Pair (selected s)) bs"
  by (simp_all add: sent_def)

lemma sent_sent [simp]: "sent bs' q' (sent bs q s) = sent (bs @ bs') q' s"
  by (simp add: sent_def)

lemma sent_fill: "sent (replicate n b) q' (sent (replicate k b) q s) = sent (replicate (k + n) b) q' s"
  by (simp add: replicate_add)

lemma sent_nothing: "sent [] (n_ticks s) s = s"
  by (simp add: sent_def)

lemma txrx_law: "spi_txrx_u8 d s = (miso s (n_bytes s), sent [d] (n_ticks s) s)"
  by (simp add: spi_txrx_u8_def sent_def)

lemma write_law: "spi_write_buf bs s = sent bs (n_ticks s) s"
  by (induction bs arbitrary: s) (simp_all add: txrx_law sent_nothing)

lemma tick_law: "HAL_GetTick s = (ticks s (n_ticks s), sent [] (n_ticks s + 1) s)"
  by (simp add: HAL_GetTick_def sent_def)

definition received :: "spi \<Rightarrow> nat \<Rightarrow> nat \<Rightarrow> u8 list" where
  "received s k n = map (\<lambda>i. miso s (k + i)) [0..<n]"

lemma length_received [simp]: "length (received s k n) = n"
  by (simp add: received_def)

lemma received_sent [simp]: "received (sent bs q s) = received s"
  by (intro ext) (simp add: received_def)

lemma receive_law: "receive n s = (received s (n_bytes s) n, sent (replicate n 0xFF) (n_ticks s) s)"
  by (simp add: receive_def received_def sent_def map_replicate_const)

lemma read_buf_law:
  assumes "unat len \<le> 512" and "off + unat len \<le> length dst" and "len \<noteq> 0"
  shows "spi_read_buf dst off len s = Some (take off dst @ received s (n_bytes s) (unat len) @ drop (off + unat len) dst,
    sent (replicate (unat len) 0xFF) (n_ticks s) s)"
proof -
  have "\<not> len > 512" using assms(1) by (simp add: word_less_nat_alt)
  then show ?thesis using assms(2,3)
    by (simp add: spi_read_buf.simps [of dst] spi_read_buf.simps [where len = 0] receive_law memcpy_def Let_def)
qed

subsection \<open>Waits\<close>

text \<open>Time passes: after every reading of the clock some later one is more than 50 ms on.\<close>

definition clock_runs :: "spi \<Rightarrow> bool" where
  "clock_runs s \<longleftrightarrow> (\<forall>n. \<exists>m \<ge> n. ticks s m - ticks s n > 50)"

lemma clock_runs_sent [simp]: "clock_runs (sent bs q s) = clock_runs s"
  by (simp add: clock_runs_def)

lemma clock_runs_select [simp]: "clock_runs (SD_CS_LOW s) = clock_runs s"
  by (simp add: clock_runs_def SD_CS_LOW_def)

definition waited :: "(u8 \<Rightarrow> bool) \<Rightarrow> spi \<Rightarrow> u8 option \<Rightarrow> nat \<Rightarrow> bool" where
  "waited wanted s r k \<longleftrightarrow> (case r of
       None \<Rightarrow> 0 < k \<and> (\<forall>i < k. \<not> wanted (miso s (n_bytes s + i)))
     | Some b \<Rightarrow> (\<exists>j. k = Suc j \<and> b = miso s (n_bytes s + j) \<and> wanted b \<and> (\<forall>i < j. \<not> wanted (miso s (n_bytes s + i)))))"

lemma waited_tick [simp]: "waited wanted (sent [] q s) r k = waited wanted s r k"
  by (simp add: waited_def split: option.split)

lemma waited_step:
  assumes "\<not> wanted (miso s (n_bytes s))" and "waited wanted (sent [b] q s) r k"
  shows "waited wanted s r (Suc k)"
proof (cases r)
  case None
  then show ?thesis using assms by (simp add: waited_def All_less_Suc2)
next
  case (Some c)
  then show ?thesis using Some assms by (auto simp: waited_def less_Suc_eq_0_disj)
qed

lemma poll_law:
  assumes "expired (ticks s m)" and "n_ticks s \<le> m"
  shows "\<exists>r k q. poll wanted expired s = Some (r, sent (replicate k 0xFF) q s) \<and> waited wanted s r k"
  using assms
proof (induction "m - n_ticks s" arbitrary: s rule: less_induct)
  case less
  let ?b = "miso s (n_bytes s)"
  consider (found) "wanted ?b" | (expired) "\<not> wanted ?b" "expired (ticks s (n_ticks s))"
    | (again) "\<not> wanted ?b" "\<not> expired (ticks s (n_ticks s))" by blast
  then show ?case
  proof cases
    case found
    then have "poll wanted expired s = Some (Some ?b, sent (replicate 1 0xFF) (n_ticks s) s)"
      by (simp add: poll.simps [of _ _ s] txrx_law)
    moreover have "waited wanted s (Some ?b) 1" using found by (simp add: waited_def)
    ultimately show ?thesis by blast
  next
    case expired
    then have "poll wanted expired s = Some (None, sent (replicate 1 0xFF) (n_ticks s + 1) s)"
      by (simp add: poll.simps [of _ _ s] txrx_law tick_law)
    moreover have "waited wanted s None 1" using expired by (simp add: waited_def)
    ultimately show ?thesis by blast
  next
    case again
    let ?s = "sent [0xFF] (n_ticks s + 1) s"
    have step: "poll wanted expired s = poll wanted expired ?s"
      using again by (simp add: poll.simps [of _ _ s] txrx_law tick_law)
    have "n_ticks s \<noteq> m" using again less.prems by auto
    then have "\<exists>r k q. poll wanted expired ?s = Some (r, sent (replicate k 0xFF) q ?s) \<and> waited wanted ?s r k"
      using less.prems by (intro less.hyps) auto
    then obtain r k q where r: "poll wanted expired ?s = Some (r, sent (replicate k 0xFF) q ?s)" "waited wanted ?s r k"
      by blast
    have "waited wanted s r (Suc k)" using again(1) r(2) by (rule waited_step)
    moreover have "poll wanted expired s = Some (r, sent (replicate (Suc k) 0xFF) q s)"
      using step r(1) by simp
    ultimately show ?thesis by blast
  qed
qed

text \<open>A wait that starts by reading the clock ends if 50 ms are enough for it.\<close>

lemma timed_poll:
  assumes "clock_runs s" and "\<And>now. now - ticks s (n_ticks s) > 50 \<Longrightarrow> expired now"
  obtains r k q where "poll wanted expired (sent [] (n_ticks s + 1) s) = Some (r, sent (replicate k 0xFF) q s)"
    "waited wanted s r k"
proof -
  obtain m where m: "n_ticks s \<le> m" "ticks s m - ticks s (n_ticks s) > 50" using assms(1) by (auto simp: clock_runs_def)
  then have "m \<noteq> n_ticks s" by auto
  then have "\<exists>r k q. poll wanted expired (sent [] (n_ticks s + 1) s)
      = Some (r, sent (replicate k 0xFF) q (sent [] (n_ticks s + 1) s)) \<and> waited wanted (sent [] (n_ticks s + 1) s) r k"
    using m assms(2) by (intro poll_law [of _ _ m]) auto
  then show ?thesis using that by auto
qed

text \<open>
  The answer to a command: the first byte whose top bit is clear, in the last of the \<open>k\<close> exchanges from
  \<open>p\<close> on, or none of them.
\<close>

definition answered :: "spi \<Rightarrow> nat \<Rightarrow> nat \<Rightarrow> u8 option \<Rightarrow> bool" where
  "answered s p k a \<longleftrightarrow> (case a of
       None \<Rightarrow> 0 < k \<and> (\<forall>i < k. miso s (p + i) AND 0x80 \<noteq> 0)
     | Some b \<Rightarrow> (\<exists>j. k = Suc j \<and> b = miso s (p + j) \<and> b AND 0x80 = 0 \<and> (\<forall>i < j. miso s (p + i) AND 0x80 \<noteq> 0)))"

lemma cmd_r1_law:
  assumes "clock_runs s"
  obtains a k q where "sd_cmd_r1 cmd arg crc s
      = Some (case a of Some r \<Rightarrow> r | None \<Rightarrow> 0xFF, sent (cmd_packet cmd arg crc @ replicate k 0xFF) q s)"
    "answered s (n_bytes s + 6) k a"
proof -
  let ?s = "sent (cmd_packet cmd arg crc) (n_ticks s) s"
  obtain r k q where r: "poll (\<lambda>r. r AND 0x80 = 0) (\<lambda>now. \<not> now - ticks ?s (n_ticks ?s) < 10) (sent [] (n_ticks ?s + 1) ?s)
      = Some (r, sent (replicate k 0xFF) q ?s)" "waited (\<lambda>r. r AND 0x80 = 0) ?s r k"
    by (rule timed_poll [of ?s "\<lambda>now. \<not> now - ticks ?s (n_ticks ?s) < 10"])
      (use assms in \<open>auto simp: word_less_nat_alt\<close>)
  have "n_bytes ?s = n_bytes s + 6" by (simp add: cmd_packet_def)
  with r(2) have "answered s (n_bytes s + 6) k r"
    unfolding waited_def answered_def by (simp only: sent_fields)
  moreover have "sd_cmd_r1 cmd arg crc s
      = Some (case r of Some r \<Rightarrow> r | None \<Rightarrow> 0xFF, sent (cmd_packet cmd arg crc @ replicate k 0xFF) q s)"
    using r(1) by (simp add: sd_cmd_r1_def write_law tick_law)
  ultimately show ?thesis using that by blast
qed

lemma wait_token_law:
  assumes "clock_runs s"
  obtains w k q where "sd_wait_token token 50 s = Some (w, sent (replicate k 0xFF) q s)" "w \<in> {0, - 1}"
    "w = 0 \<Longrightarrow> \<exists>j. k = Suc j \<and> miso s (n_bytes s + j) = token \<and> (\<forall>i < j. miso s (n_bytes s + i) \<noteq> token)"
    "w \<noteq> 0 \<Longrightarrow> 0 < k \<and> (\<forall>i < k. miso s (n_bytes s + i) \<noteq> token)"
proof -
  obtain r k q where r: "poll (\<lambda>r. r = token) (\<lambda>now. \<not> now - ticks s (n_ticks s) < 50) (sent [] (n_ticks s + 1) s)
      = Some (r, sent (replicate k 0xFF) q s)" "waited (\<lambda>r. r = token) s r k"
    by (rule timed_poll [of s "\<lambda>now. \<not> now - ticks s (n_ticks s) < 50"])
      (use assms in \<open>auto simp: word_less_nat_alt\<close>)
  show ?thesis
  proof (cases r)
    case None
    show ?thesis by (rule that [of "- 1" k q]) (use r None in \<open>simp_all add: sd_wait_token_def tick_law waited_def\<close>)
  next
    case (Some b)
    show ?thesis by (rule that [of 0 k q]) (use r Some in \<open>auto simp: sd_wait_token_def tick_law waited_def\<close>)
  qed
qed

lemma send_cmd12_law:
  assumes "clock_runs s"
  obtains w k q where "sd_send_cmd12 s = Some (w, sent ([0xFF] @ cmd_packet CMD12 0 1 @ replicate k 0xFF) q s)"
proof -
  let ?s = "sent ([0xFF] @ cmd_packet CMD12 0 1) (n_ticks s) s"
  obtain r k q where r: "poll (\<lambda>r. r AND 0x80 = 0) (\<lambda>now. \<not> now - ticks ?s (n_ticks ?s) < 10) (sent [] (n_ticks ?s + 1) ?s)
      = Some (r, sent (replicate k 0xFF) q ?s)"
    by (rule timed_poll [of ?s "\<lambda>now. \<not> now - ticks ?s (n_ticks ?s) < 10"])
      (use assms in \<open>auto simp: word_less_nat_alt\<close>)
  let ?t = "sent ([0xFF] @ cmd_packet CMD12 0 1 @ replicate k 0xFF) q s"
  obtain r' k' q' where r': "poll (\<lambda>r. r = 0xFF) (\<lambda>now. now - ticks ?t (n_ticks ?t) > 50) (sent [] (n_ticks ?t + 1) ?t)
      = Some (r', sent (replicate k' 0xFF) q' ?t)"
    by (rule timed_poll [of ?t "\<lambda>now. now - ticks ?t (n_ticks ?t) > 50"]) (use assms in auto)
  show ?thesis
    by (rule that [of "if (if r' = None then - 1 else (0 :: int)) \<noteq> 0 then - 1 else 0" "k + k'" q'])
      (use r r' in \<open>simp add: sd_send_cmd12_def sd_wait_ready_def txrx_law write_law tick_law replicate_add Let_def\<close>)
qed

subsection \<open>Blocks\<close>

text \<open>
  The block after the token in exchange \<open>k\<close>; the next token is looked for 515 exchanges later, after the
  block and its two bytes of checksum. \<open>tokens s p ks\<close>: each \<open>k\<close> is the first token from where the search starts.
\<close>

definition block_at :: "spi \<Rightarrow> nat \<Rightarrow> u8 list" where
  "block_at s k = received s (k + 1) 512"

fun tokens :: "spi \<Rightarrow> nat \<Rightarrow> nat list \<Rightarrow> bool" where
  "tokens s p [] \<longleftrightarrow> True"
| "tokens s p (k # ks) \<longleftrightarrow> p \<le> k \<and> (\<forall>i \<in> {p..<k}. miso s i \<noteq> 0xFE) \<and> miso s k = 0xFE \<and> tokens s (k + 515) ks"

text \<open>Where the search after those blocks starts.\<close>

fun search_from :: "nat \<Rightarrow> nat list \<Rightarrow> nat" where
  "search_from p [] = p"
| "search_from p (k # ks) = search_from (k + 515) ks"

definition blocks_at :: "spi \<Rightarrow> nat list \<Rightarrow> u8 list" where
  "blocks_at s ks = concat (map (block_at s) ks)"

lemma tokens_sent [simp]: "tokens (sent bs q s) p ks = tokens s p ks"
  by (induction ks arbitrary: p) simp_all

lemma blocks_at_sent [simp]: "blocks_at (sent bs q s) ks = blocks_at s ks"
  by (simp add: blocks_at_def block_at_def [abs_def])

lemma blocks_at_simps [simp]: "blocks_at s [] = []" "blocks_at s (k # ks) = block_at s k @ blocks_at s ks"
  by (simp_all add: blocks_at_def)

lemma length_blocks [simp]: "length (block_at s k) = 512" "length (blocks_at s ks) = 512 * length ks"
  by (induction ks) (simp_all add: block_at_def)

text \<open>One token with its block and checksum.\<close>

lemma one_block:
  assumes "clock_runs s" and "off + 512 \<le> length buf"
  obtains (missing) w k q where "w \<noteq> 0" "sd_wait_token 0xFE 50 s = Some (w, sent (replicate k 0xFF) q s)"
      "0 < k" "\<forall>i \<in> {n_bytes s..<n_bytes s + k}. miso s i \<noteq> 0xFE"
  | (block) k q j where "sd_wait_token 0xFE 50 s = Some (0, sent (replicate k 0xFF) q s)"
      "spi_read_buf buf off 512 (sent (replicate k 0xFF) q s)
        = Some (take off buf @ block_at s j @ drop (off + 512) buf, sent (replicate (k + 512) 0xFF) q s)"
      "spi_read_buf (replicate 2 0) 0 2 (sent (replicate (k + 512) 0xFF) q s)
        = Some (received s (j + 513) 2, sent (replicate (k + 514) 0xFF) q s)"
      "n_bytes s + k = j + 1" "tokens s (n_bytes s) [j]"
proof -
  obtain w k q where w: "sd_wait_token 0xFE 50 s = Some (w, sent (replicate k 0xFF) q s)" "w \<in> {0, - 1}"
    "w = 0 \<Longrightarrow> \<exists>j. k = Suc j \<and> miso s (n_bytes s + j) = 0xFE \<and> (\<forall>i < j. miso s (n_bytes s + i) \<noteq> 0xFE)"
    "w \<noteq> 0 \<Longrightarrow> 0 < k \<and> (\<forall>i < k. miso s (n_bytes s + i) \<noteq> 0xFE)"
    using wait_token_law [OF assms(1), of "0xFE"] by blast
  show thesis
  proof (cases "w = 0")
    case False
    have "miso s i \<noteq> 0xFE" if "i \<in> {n_bytes s..<n_bytes s + k}" for i
      using w(4) [OF False] that by (auto dest: spec [of _ "i - n_bytes s"])
    then show thesis using False w(1) w(4) [OF False] by (intro missing) blast+
  next
    case True
    then obtain m where k: "k = Suc m" "miso s (n_bytes s + m) = 0xFE" "\<forall>i < m. miso s (n_bytes s + i) \<noteq> 0xFE"
      using w(3) by blast
    let ?j = "n_bytes s + m"
    have nk: "n_bytes s + k = ?j + 1" using k(1) by simp
    have at: "received s (n_bytes s + k) n = received s (?j + 1) n"
      "received s (n_bytes s + (k + 512)) n = received s (?j + 513) n" for n
      using k(1) by (simp_all add: ac_simps)
    show thesis
    proof (rule block [of k q ?j])
      show "sd_wait_token 0xFE 50 s = Some (0, sent (replicate k 0xFF) q s)" using w(1) True by simp
      show "spi_read_buf buf off 512 (sent (replicate k 0xFF) q s)
          = Some (take off buf @ block_at s ?j @ drop (off + 512) buf, sent (replicate (k + 512) 0xFF) q s)"
        using assms(2) by (subst read_buf_law) (simp_all add: block_at_def sent_fill at del: sent_sent)
      show "spi_read_buf (replicate 2 0) 0 2 (sent (replicate (k + 512) 0xFF) q s)
          = Some (received s (?j + 513) 2, sent (replicate (k + 514) 0xFF) q s)"
        by (subst read_buf_law) (simp_all add: sent_fill at del: sent_sent)
      show "n_bytes s + k = ?j + 1" using nk by simp
      have "miso s i \<noteq> 0xFE" if "n_bytes s \<le> i" "i < ?j" for i
        using k(3) [rule_format, of "i - n_bytes s"] that by auto
      then show "tokens s (n_bytes s) [?j]" using k(2) by auto
    qed
  qed
qed

text \<open>The final byte of a transaction is sent with the card deselected.\<close>

lemma release_fields [simp]:
  "\<not> selected (release s)" "mosi (release s) = mosi s @ [(False, 0xFF)]" "n_bytes (release s) = n_bytes s + 1"
  "miso (release s) = miso s" "ticks (release s) = ticks s" "g_sd_is_sdhc (release s) = g_sd_is_sdhc s"
  by (simp_all add: release_def SD_CS_HIGH_def txrx_law)

lemma low_fields [simp]:
  "selected (SD_CS_LOW s)" "mosi (SD_CS_LOW s) = mosi s" "n_bytes (SD_CS_LOW s) = n_bytes s"
  "miso (SD_CS_LOW s) = miso s" "ticks (SD_CS_LOW s) = ticks s" "n_ticks (SD_CS_LOW s) = n_ticks s"
  "g_sd_is_sdhc (SD_CS_LOW s) = g_sd_is_sdhc s"
  by (simp_all add: SD_CS_LOW_def)

text \<open>
  What reading \<open>m\<close> of \<open>n\<close> blocks did to the buffer: blocks where they belong, everything else as it was.
  The search for the first token starts in exchange \<open>p\<close>. When all blocks are there, exchange \<open>e\<close> is the one
  after the last checksum; otherwise there is no further token before it.
\<close>

definition filled :: "spi \<Rightarrow> nat \<Rightarrow> nat \<Rightarrow> nat \<Rightarrow> nat \<Rightarrow> nat \<Rightarrow> u8 list \<Rightarrow> u8 list \<Rightarrow> bool" where
  "filled s p e n off m buf buf' \<longleftrightarrow> (\<exists>ks. length ks = m \<and> tokens s p ks \<and> m \<le> n \<and>
     take (off + 512 * m) buf' = take off buf @ blocks_at s ks \<and> drop (off + 512 * m) buf' = drop (off + 512 * m) buf \<and>
     (if m = n then e = search_from p ks else search_from p ks < e \<and> (\<forall>i \<in> {search_from p ks..<e}. miso s i \<noteq> 0xFE)))"

lemma tokens_miso: "miso s = miso t \<Longrightarrow> tokens s p ks = tokens t p ks"
  by (induction ks arbitrary: p) simp_all

lemma blocks_miso: "miso s = miso t \<Longrightarrow> blocks_at s = blocks_at t"
  by (intro ext) (simp add: blocks_at_def block_at_def [abs_def] received_def)

lemma filled_miso: "miso s = miso t \<Longrightarrow> filled s p e n off m buf buf' = filled t p e n off m buf buf'"
  using tokens_miso [of s t] blocks_miso [of s t] by (simp add: filled_def)

lemma filled_sent [simp]: "filled (sent bs q s) = filled s"
  by (intro ext) (simp add: filled_miso [of "sent bs q s" s])

text \<open>The end of a reading of several blocks: a filling byte, CMD12, and the bytes exchanged while waiting.\<close>

definition stop :: "nat \<Rightarrow> u8 list" where
  "stop k = [0xFF] @ cmd_packet CMD12 0 1 @ replicate k 0xFF"

definition loop_outcome :: "nat \<Rightarrow> nat \<Rightarrow> spi \<Rightarrow> u8 list \<Rightarrow> (int \<times> u8 list \<times> spi) option \<Rightarrow> bool" where
  "loop_outcome n off s buf out \<longleftrightarrow> (\<exists>r buf' l k q m. out = Some (r, buf', release (sent (replicate l 0xFF @ stop k) q s)) \<and>
     length buf' = length buf \<and> filled s (n_bytes s) (n_bytes s + l) n off m buf buf' \<and> (r = 0 \<longleftrightarrow> m = n))"

lemma loop_outcomeI:
  assumes "out = Some (r, buf', release (sent (replicate l 0xFF @ stop k) q s))"
    and "length buf' = length buf" "filled s (n_bytes s) (n_bytes s + l) n off m buf buf'" "r = 0 \<longleftrightarrow> m = n"
  shows "loop_outcome n off s buf out"
  unfolding loop_outcome_def using assms by blast

lemma multi_law:
  assumes "clock_runs s" and "off + 512 * n \<le> length buf"
  shows "loop_outcome n off s buf (multi_loop n buf off s)"
  using assms
proof (induction n arbitrary: buf off s)
  case 0
  obtain w k q where "sd_send_cmd12 s = Some (w, sent (stop k) q s)"
    using send_cmd12_law [OF 0(1)] unfolding stop_def by blast
  then have "multi_loop 0 buf off s = Some (0, buf, release (sent (replicate 0 0xFF @ stop k) q s))" by simp
  then show ?case by (rule loop_outcomeI [where m = 0]) (simp_all add: filled_def)
next
  case (Suc n)
  have room: "off + 512 \<le> length buf" using Suc.prems(2) by simp
  show ?case
  proof (rule one_block [OF Suc.prems(1) room])
    fix w k q assume w: "w \<noteq> 0" "sd_wait_token 0xFE 50 s = Some (w, sent (replicate k 0xFF) q s)"
      and none: "0 < k" "\<forall>i \<in> {n_bytes s..<n_bytes s + k}. miso s i \<noteq> 0xFE"
    obtain w' k' q' where "sd_send_cmd12 (sent (replicate k 0xFF) q s) = Some (w', sent (stop k') q' (sent (replicate k 0xFF) q s))"
      using send_cmd12_law [of "sent (replicate k 0xFF) q s"] Suc.prems(1) unfolding stop_def by auto
    then have "multi_loop (Suc n) buf off s = Some (- 2, buf, release (sent (replicate k 0xFF @ stop k') q' s))"
      using w by simp
    then show ?thesis by (rule loop_outcomeI [where m = 0]) (use none in \<open>simp_all add: filled_def\<close>)
  next
    fix k q j
    assume t: "sd_wait_token 0xFE 50 s = Some (0, sent (replicate k 0xFF) q s)"
      and b: "spi_read_buf buf off 512 (sent (replicate k 0xFF) q s)
        = Some (take off buf @ block_at s j @ drop (off + 512) buf, sent (replicate (k + 512) 0xFF) q s)"
      and c: "spi_read_buf (replicate 2 0) 0 2 (sent (replicate (k + 512) 0xFF) q s)
        = Some (received s (j + 513) 2, sent (replicate (k + 514) 0xFF) q s)"
      and j: "n_bytes s + k = j + 1" "tokens s (n_bytes s) [j]"
    let ?buf = "take off buf @ block_at s j @ drop (off + 512) buf" and ?s = "sent (replicate (k + 514) 0xFF) q s"
    have len: "length ?buf = length buf" using room by simp
    have nb: "n_bytes ?s = j + 515" "n_bytes s + (k + 514 + l) = j + 515 + l" for l using j(1) by simp_all
    have IH: "loop_outcome n (off + 512) ?s ?buf (multi_loop n ?buf (off + 512) ?s)"
      using Suc.prems len by (intro Suc.IH) simp_all
    obtain r buf' l k' q' m where r: "multi_loop n ?buf (off + 512) ?s
        = Some (r, buf', release (sent (replicate l 0xFF @ stop k') q' ?s))"
      "length buf' = length ?buf" "filled ?s (n_bytes ?s) (n_bytes ?s + l) n (off + 512) m ?buf buf'" "r = 0 \<longleftrightarrow> m = n"
      using IH unfolding loop_outcome_def by blast
    obtain ks where ks: "length ks = m" "tokens s (j + 515) ks" "m \<le> n"
      "take (off + 512 + 512 * m) buf' = take (off + 512) ?buf @ blocks_at s ks"
      "drop (off + 512 + 512 * m) buf' = drop (off + 512 + 512 * m) ?buf"
      "if m = n then j + 515 + l = search_from (j + 515) ks
       else search_from (j + 515) ks < j + 515 + l \<and> (\<forall>i \<in> {search_from (j + 515) ks..<j + 515 + l}. miso s i \<noteq> 0xFE)"
      using r(3) [unfolded nb filled_sent, unfolded filled_def] by blast
    have e: "if Suc m = Suc n then j + 515 + l = search_from (n_bytes s) (j # ks)
       else search_from (n_bytes s) (j # ks) < j + 515 + l \<and> (\<forall>i \<in> {search_from (n_bytes s) (j # ks)..<j + 515 + l}. miso s i \<noteq> 0xFE)"
      using ks(6) by (simp only: search_from.simps nat.inject)
    have h: "take (off + 512) ?buf = take off buf @ block_at s j"
      "drop (off + 512 + 512 * m) ?buf = drop (off + 512 + 512 * m) buf"
      using room by (simp_all add: add.commute add.left_commute)
    have "filled s (n_bytes s) (n_bytes s + (k + 514 + l)) (Suc n) off (Suc m) buf buf'"
      unfolding filled_def nb(2)
      by (intro exI [of _ "j # ks"] conjI; (rule e)?) (use h ks(1-5) j(2) in \<open>simp_all add: ac_simps\<close>)
    moreover have "multi_loop (Suc n) buf off s = Some (r, buf', release (sent (replicate (k + 514 + l) 0xFF @ stop k') q' s))"
      using t b c r(1) by (simp add: replicate_add)
    ultimately show ?thesis using r(2,4) len by (intro loop_outcomeI [where m = "Suc m"]) simp_all
  qed
qed

lemma filled_low [simp]: "filled (SD_CS_LOW s) = filled s"
  by (intro ext) (simp add: filled_miso [of "SD_CS_LOW s" s])

lemma answered_miso: "miso s = miso t \<Longrightarrow> answered s = answered t"
  by (intro ext) (simp add: answered_def split: option.split)

lemma answered_low [simp]: "answered (SD_CS_LOW s) = answered s"
  by (simp add: answered_miso [of "SD_CS_LOW s" s])

lemma sd_addr_low [simp]: "sd_addr lba (SD_CS_LOW s) = sd_addr lba s"
  by (simp add: sd_addr_def)

lemma length_cmd [simp]: "length (cmd_packet cmd arg crc) = 6"
  by (simp add: cmd_packet_def)

text \<open>
  What follows the answer \<open>a\<close> to a read command for \<open>n\<close> blocks, from exchange \<open>p\<close> on: the reading of
  the blocks, during which \<open>rest\<close> is sent, or nothing when the card refuses or does not answer.
\<close>

definition transferred :: "u8 option \<Rightarrow> bool \<Rightarrow> spi \<Rightarrow> nat \<Rightarrow> nat \<Rightarrow> nat \<Rightarrow> u8 list \<Rightarrow> u8 list \<Rightarrow> u8 list \<Rightarrow> bool" where
  "transferred a several s p n m buf buf' rest \<longleftrightarrow>
     (if a = Some 0
      then \<exists>l k. filled s p (p + l) n 0 m buf buf' \<and> rest = replicate l 0xFF @ (if several then stop k else [])
      else m = 0 \<and> buf' = buf \<and> rest = [])"

lemma transferred_miso: "miso s = miso t \<Longrightarrow> transferred a several s = transferred a several t"
  by (intro ext) (simp add: transferred_def filled_miso [of s t])

text \<open>The outcome of a read command for \<open>n\<close> blocks.\<close>

definition read_outcome :: "bool \<Rightarrow> u32 \<Rightarrow> nat \<Rightarrow> spi \<Rightarrow> u8 list \<Rightarrow> (int \<times> u8 list \<times> spi) option \<Rightarrow> bool" where
  "read_outcome several lba n s buf out \<longleftrightarrow> (\<exists>r buf' a k rest q m.
     out = Some (r, buf', release (sent (cmd_packet (if several then CMD18 else CMD17) (sd_addr lba s) 1
       @ replicate k 0xFF @ rest) q (SD_CS_LOW s))) \<and>
     length buf' = length buf \<and> answered s (n_bytes s + 6) k a \<and>
     transferred a several s (n_bytes s + 6 + k) n m buf buf' rest \<and> (r = 0 \<longleftrightarrow> m = n))"

lemma read_outcomeI:
  assumes "out = Some (r, buf', release (sent (cmd_packet (if several then CMD18 else CMD17) (sd_addr lba s) 1
       @ replicate k 0xFF @ rest) q (SD_CS_LOW s)))"
    and "length buf' = length buf" "answered s (n_bytes s + 6) k a"
    and "transferred a several s (n_bytes s + 6 + k) n m buf buf' rest" "r = 0 \<longleftrightarrow> m = n"
  shows "read_outcome several lba n s buf out"
  unfolding read_outcome_def using assms by blast

text \<open>The command of a reading, and the value of its answer.\<close>

lemma read_command:
  assumes "clock_runs s"
  obtains a k q where "sd_cmd_r1 cmd (sd_addr lba s) 1 (SD_CS_LOW s) = Some (case a of Some r \<Rightarrow> r | None \<Rightarrow> 0xFF,
      sent (cmd_packet cmd (sd_addr lba s) 1 @ replicate k 0xFF) q (SD_CS_LOW s))"
    "answered s (n_bytes s + 6) k a" "(case a of Some r \<Rightarrow> r | None \<Rightarrow> 0xFF) = 0 \<longleftrightarrow> a = Some 0"
proof -
  obtain a k q where "sd_cmd_r1 cmd (sd_addr lba s) 1 (SD_CS_LOW s) = Some (case a of Some r \<Rightarrow> r | None \<Rightarrow> 0xFF,
      sent (cmd_packet cmd (sd_addr lba s) 1 @ replicate k 0xFF) q (SD_CS_LOW s))" "answered s (n_bytes s + 6) k a"
    by (rule cmd_r1_law [of "SD_CS_LOW s" cmd "sd_addr lba s" 1]) (use assms in simp_all)
  then show thesis by (rule that) (simp split: option.split)
qed

lemma read_multi_law:
  assumes "clock_runs s" and "1 < count" and "512 * unat count \<le> length buf"
  shows "read_outcome True lba (unat count) s buf (sd_read_multi lba buf count s)"
proof -
  have c: "1 < unat count" using assms(2) by (simp add: word_less_nat_alt)
  obtain a k q where r: "sd_cmd_r1 CMD18 (sd_addr lba s) 1 (SD_CS_LOW s) = Some (case a of Some r \<Rightarrow> r | None \<Rightarrow> 0xFF,
      sent (cmd_packet CMD18 (sd_addr lba s) 1 @ replicate k 0xFF) q (SD_CS_LOW s))"
    and a: "answered s (n_bytes s + 6) k a" "(case a of Some r \<Rightarrow> r | None \<Rightarrow> 0xFF) = 0 \<longleftrightarrow> a = Some 0"
    using read_command [OF assms(1)] by blast
  let ?t = "sent (cmd_packet CMD18 (sd_addr lba s) 1 @ replicate k 0xFF) q (SD_CS_LOW s)"
  show ?thesis
  proof (cases "a = Some 0")
    case False
    have "sd_read_multi lba buf count s = Some (- 1, buf, release (sent
        (cmd_packet (if True then CMD18 else CMD17) (sd_addr lba s) 1 @ replicate k 0xFF @ []) q (SD_CS_LOW s)))"
      using r a(2) False assms(2) by (simp add: sd_read_multi_def flip: not_less)
    moreover have "transferred a True s (n_bytes s + 6 + k) (unat count) 0 buf buf []"
      using False by (simp add: transferred_def)
    ultimately show ?thesis by (intro read_outcomeI) (use c a(1) in auto)
  next
    case True
    obtain r' buf' l k' q' m where m: "multi_loop (unat count) buf 0 ?t
        = Some (r', buf', release (sent (replicate l 0xFF @ stop k') q' ?t))"
      "length buf' = length buf" "filled ?t (n_bytes ?t) (n_bytes ?t + l) (unat count) 0 m buf buf'" "r' = 0 \<longleftrightarrow> m = unat count"
      using multi_law [of ?t 0 "unat count" buf] assms unfolding loop_outcome_def by auto
    have "n_bytes ?t = n_bytes s + 6 + k" by simp
    then have "transferred a True s (n_bytes s + 6 + k) (unat count) m buf buf' (replicate l 0xFF @ stop k')"
      using m(3) True unfolding transferred_def by (auto simp: add.assoc)
    moreover have "sd_read_multi lba buf count s = Some (r', buf', release (sent
        (cmd_packet (if True then CMD18 else CMD17) (sd_addr lba s) 1 @ replicate k 0xFF @ (replicate l 0xFF @ stop k')) q' (SD_CS_LOW s)))"
      using r True assms(2) m(1) by (simp add: sd_read_multi_def flip: not_less)
    ultimately show ?thesis by (intro read_outcomeI) (use m a(1) in simp_all)
  qed
qed

lemma read_block_law:
  assumes "clock_runs s" and "512 \<le> length buf"
  shows "read_outcome False lba 1 s buf (sd_read_block lba buf 0 s)"
proof -
  obtain a k q where r: "sd_cmd_r1 CMD17 (sd_addr lba s) 1 (SD_CS_LOW s) = Some (case a of Some r \<Rightarrow> r | None \<Rightarrow> 0xFF,
      sent (cmd_packet CMD17 (sd_addr lba s) 1 @ replicate k 0xFF) q (SD_CS_LOW s))"
    and a: "answered s (n_bytes s + 6) k a" "(case a of Some r \<Rightarrow> r | None \<Rightarrow> 0xFF) = 0 \<longleftrightarrow> a = Some 0"
    using read_command [OF assms(1)] by blast
  let ?t = "sent (cmd_packet CMD17 (sd_addr lba s) 1 @ replicate k 0xFF) q (SD_CS_LOW s)"
  have nb: "n_bytes ?t = n_bytes s + 6 + k" by simp
  have outcome: "read_outcome False lba 1 s buf (Some (r', buf', release (sent
      (cmd_packet CMD17 (sd_addr lba s) 1 @ replicate k 0xFF @ rest) q' (SD_CS_LOW s))))"
    if "transferred a False s (n_bytes s + 6 + k) 1 m buf buf' rest" "length buf' = length buf" "r' = 0 \<longleftrightarrow> m = 1"
    for r' buf' rest q' m
    by (rule read_outcomeI [where k = k and rest = rest]) (use that a(1) in auto)
  show ?thesis
  proof (cases "a = Some 0")
    case False
    have "sd_read_block lba buf 0 s = Some (1, buf, release (sent
        (cmd_packet CMD17 (sd_addr lba s) 1 @ replicate k 0xFF @ []) q (SD_CS_LOW s)))"
      using r a(2) False by (simp add: sd_read_block_def)
    then show ?thesis using outcome [of 0 buf "[]" 1 q] False by (simp add: transferred_def)
  next
    case True
    have t: "clock_runs ?t" "0 + 512 \<le> length buf" using assms by simp_all
    show ?thesis
    proof (rule one_block [OF t])
      fix w l q' assume "w \<noteq> 0" "sd_wait_token 0xFE 50 ?t = Some (w, sent (replicate l 0xFF) q' ?t)"
        and none: "0 < l" "\<forall>i \<in> {n_bytes ?t..<n_bytes ?t + l}. miso ?t i \<noteq> 0xFE"
      then have "sd_read_block lba buf 0 s = Some (2, buf, release (sent
          (cmd_packet CMD17 (sd_addr lba s) 1 @ replicate k 0xFF @ replicate l 0xFF) q' (SD_CS_LOW s)))"
        using r True by (simp add: sd_read_block_def)
      moreover have "transferred a False s (n_bytes s + 6 + k) 1 0 buf buf (replicate l 0xFF)"
        using none True unfolding nb by (auto simp: transferred_def filled_def)
      ultimately show ?thesis using outcome [of 0 buf "replicate l 0xFF" 2 q'] by simp
    next
      fix l q' j
      assume w: "sd_wait_token 0xFE 50 ?t = Some (0, sent (replicate l 0xFF) q' ?t)"
        and b: "spi_read_buf buf 0 512 (sent (replicate l 0xFF) q' ?t)
          = Some (take 0 buf @ block_at ?t j @ drop (0 + 512) buf, sent (replicate (l + 512) 0xFF) q' ?t)"
        and c: "spi_read_buf (replicate 2 0) 0 2 (sent (replicate (l + 512) 0xFF) q' ?t)
          = Some (received ?t (j + 513) 2, sent (replicate (l + 514) 0xFF) q' ?t)"
        and j: "n_bytes ?t + l = j + 1" "tokens ?t (n_bytes ?t) [j]"
      let ?buf = "block_at s j @ drop 512 buf"
      have at: "block_at ?t j = block_at s j" by (simp add: block_at_def received_def)
      have "sd_read_block lba buf 0 s = Some (0, take 0 buf @ block_at ?t j @ drop (0 + 512) buf,
          release (sent (replicate (l + 514) 0xFF) q' ?t))"
        using r True w b c by (simp add: sd_read_block_def Let_def)
      then have "sd_read_block lba buf 0 s = Some (0, ?buf, release (sent
          (cmd_packet CMD17 (sd_addr lba s) 1 @ replicate k 0xFF @ replicate (l + 514) 0xFF) q' (SD_CS_LOW s)))"
        by (simp add: at)
      moreover have "filled ?t (n_bytes ?t) (n_bytes ?t + (l + 514)) 1 0 1 buf (block_at ?t j @ drop 512 buf)"
        using j unfolding filled_def by (intro exI [of _ "[j]"]) simp
      then have "transferred a False s (n_bytes s + 6 + k) 1 1 buf ?buf (replicate (l + 514) 0xFF)"
        unfolding transferred_def nb at using True by auto
      moreover have "length ?buf = length buf" using assms(2) by simp
      ultimately show ?thesis using outcome [of 1 ?buf "replicate (l + 514) 0xFF" 0 q'] by simp
    qed
  qed
qed

lemma USER_read_law:
  assumes "clock_runs s" and "0 < unat count" and "512 * unat count \<le> length buf"
  defines "u \<equiv> snd (HAL_GetTick s)"
  shows "\<exists>r buf' t. USER_read 0 buf sector count s = Some (if r = 0 then RES_OK else RES_ERROR, buf', t) \<and>
    read_outcome (count > 1) sector (unat count) u buf (Some (r, buf', t))"
proof -
  have u: "clock_runs u" using assms(1) by (simp add: u_def tick_law)
  show ?thesis
  proof (cases "count > 1")
    case True
    have o: "read_outcome True sector (unat count) u buf (sd_read_multi sector buf count u)"
      using u True assms(3) by (rule read_multi_law)
    then obtain r buf' t where "sd_read_multi sector buf count u = Some (r, buf', t)" by (auto simp: read_outcome_def)
    then show ?thesis using o True by (auto simp: USER_read_def u_def)
  next
    case False
    then have "unat count = 1" using assms(2) by (simp add: word_less_nat_alt not_less)
    moreover have o: "read_outcome False sector 1 u buf (sd_read_block sector buf 0 u)"
      using u assms(3) calculation by (intro read_block_law) simp_all
    then obtain r buf' t where "sd_read_block sector buf 0 u = Some (r, buf', t)" by (auto simp: read_outcome_def)
    ultimately show ?thesis using o False by (auto simp: USER_read_def u_def)
  qed
qed

text \<open>A card that answers every byte with 1 never leaves the idle state.\<close>

lemma poll_first:
  assumes "wanted (miso s (n_bytes s))"
  shows "poll wanted expired s = Some (Some (miso s (n_bytes s)), sent [0xFF] (n_ticks s) s)"
  using assms by (simp add: poll.simps [of _ _ s] txrx_law)

lemma cmd_r1_answer:
  assumes "miso s (n_bytes s + 6) = a" and "a AND 0x80 = 0"
  shows "sd_cmd_r1 cmd arg crc s = Some (a, sent (cmd_packet cmd arg crc @ [0xFF]) (n_ticks s + 1) s)"
proof -
  let ?s = "sent (cmd_packet cmd arg crc) (n_ticks s + 1) s"
  have "miso ?s (n_bytes ?s) = a" using assms(1) by simp
  then show ?thesis using assms(2) poll_first [of "\<lambda>r. r AND 0x80 = 0" ?s] by (simp add: sd_cmd_r1_def write_law tick_law)
qed

definition idle_from :: "nat \<Rightarrow> spi \<Rightarrow> bool" where
  "idle_from n s \<longleftrightarrow> n \<le> n_bytes s \<and> (\<forall>k \<ge> n. miso s k = 1)"

lemma idle_cmd:
  assumes "idle_from n s"
  shows "sd_cmd_r1 cmd arg crc s = Some (1, sent (cmd_packet cmd arg crc @ [0xFF]) (n_ticks s + 1) s)"
  using assms by (intro cmd_r1_answer) (simp_all add: idle_from_def)

lemma idle_steps:
  assumes "idle_from n s"
  shows "idle_from n (sent bs q s)" "idle_from n (SD_CS_LOW s)" "idle_from n (release s)"
  using assms by (simp_all add: idle_from_def)

lemma acmd41_never:
  assumes "acmd41_loop s = Some t"
  shows "\<not> idle_from n s"
proof (rule acmd41_loop.raw_induct [where P = "\<lambda>s t. \<not> idle_from n s", OF _ assms])
  fix loop s t
  assume IH: "\<And>s t. loop s = Some t \<Longrightarrow> \<not> idle_from n s"
    and run: "Option.bind (sd_cmd_r1 CMD55 0 1 (SD_CS_LOW s)) (\<lambda>(r, s). let s = release s in
      if 1 < r then loop s
      else Option.bind (sd_cmd_r1 ACMD41 0x40000000 1 (SD_CS_LOW s)) (\<lambda>(r, s).
        let s = release s in if r \<noteq> 0 then loop s else Some s)) = Some t"
  show "\<not> idle_from n s"
  proof
    assume i: "idle_from n s"
    note i1 = idle_steps(2) [OF i]
    note i2 = idle_steps(2) [OF idle_steps(3) [OF idle_steps(1) [OF i1]]]
    note i3 = idle_steps(3) [OF idle_steps(1) [OF i2]]
    have "\<exists>x. idle_from n x \<and> loop x = Some t"
      using run by (simp add: idle_cmd [OF i1] idle_cmd [OF i2] Let_def) (blast intro: i3)
    then show False using IH by blast
  qed
qed

section \<open>Properties\<close>

text \<open>
  C37: Reading one or more sectors through FatFs into a buffer with room for them always comes to an end, whatever the card does, as long as the clock
  runs. It sends the read command with the right address and then 0xFF bytes until it has the answer, the first
  byte with a clear top bit after the command, or gives up. Unless it is 0, nothing more is sent and nothing is written.
  Otherwise it goes on with 0xFF bytes and takes the blocks: the first data token after the answer, 512 bytes, two bytes of checksum, the first
  token after them and so on. The first \<open>m\<close> sectors of the buffer are these blocks, the rest of it is
  as before; all are there if and only if success is reported, and if not, the bytes exchanged after the last
  checksum hold no further token. A reading of several sectors ends with CMD12, of one sector after its
  checksum. Then the card is deselected and gets one more byte.
\<close>

theorem disk_read_delivers_blocks:
  assumes "clock_runs s" and "0 < unat count" and "512 * unat count \<le> length buf"
  shows "\<exists>res buf' t a k rest m. USER_read 0 buf sector count s = Some (res, buf', t) \<and> \<not> selected t \<and>
    mosi t = mosi s @ map (Pair True) (cmd_packet (if count > 1 then CMD18 else CMD17) (sd_addr sector s) 1
      @ replicate k 0xFF @ rest) @ [(False, 0xFF)] \<and>
    length buf' = length buf \<and> answered s (n_bytes s + 6) k a \<and>
    transferred a (count > 1) s (n_bytes s + 6 + k) (unat count) m buf buf' rest \<and>
    (res = RES_OK \<longleftrightarrow> m = unat count)"
proof -
  let ?u = "snd (HAL_GetTick s)" and ?cmd = "if count > 1 then CMD18 else CMD17"
  obtain r buf' t where r: "USER_read 0 buf sector count s = Some (if r = 0 then RES_OK else RES_ERROR, buf', t)"
    "read_outcome (count > 1) sector (unat count) ?u buf (Some (r, buf', t))"
    using USER_read_law [OF assms] by blast
  from r(2) obtain a k rest q m where o: "t = release (sent (cmd_packet ?cmd (sd_addr sector ?u) 1 @ replicate k 0xFF @ rest) q (SD_CS_LOW ?u))"
    "length buf' = length buf" "answered ?u (n_bytes ?u + 6) k a"
    "transferred a (count > 1) ?u (n_bytes ?u + 6 + k) (unat count) m buf buf' rest" "r = 0 \<longleftrightarrow> m = unat count"
    unfolding read_outcome_def by blast
  have u: "mosi ?u = mosi s" "n_bytes ?u = n_bytes s" "sd_addr sector ?u = sd_addr sector s"
    "answered ?u = answered s" "transferred a (count > 1) ?u = transferred a (count > 1) s"
    using answered_miso [of ?u s] transferred_miso [of ?u s] by (simp_all add: tick_law sd_addr_def)
  have "mosi t = mosi s @ map (Pair True) (cmd_packet ?cmd (sd_addr sector s) 1 @ replicate k 0xFF @ rest) @ [(False, 0xFF)]"
    "\<not> selected t"
    by (simp_all only: o(1) u release_fields sent_fields low_fields append_assoc not_False_eq_True)
  then show ?thesis using r(1) o(2-5) unfolding u
    by (intro exI [of _ "if r = 0 then RES_OK else RES_ERROR"] exI [of _ buf'] exI [of _ t] exI [of _ a] exI [of _ k]
        exI [of _ rest] exI [of _ m]) auto
qed

text \<open>
  C38: The initialisation can hang for ever. A card that accepts the reset and the voltage check but never
  leaves the idle state, answering every later command with 1, keeps \<open>sd_init\<close> in its loop, however much
  time passes: the loop has no limit.
\<close>

theorem init_never_returns:
  assumes "n_bytes s = 0" and "miso s = (\<lambda>n. if n = 28 then 0xAA else 1)"
  shows "sd_init s = None"
proof -
  let ?d = "sd_dummy_clock (s\<lparr>g_sd_is_sdhc := 0\<rparr>)"
  have d: "miso ?d = miso s" "n_bytes ?d = 10" using assms(1) by (simp_all add: sd_dummy_clock_def write_law SD_CS_HIGH_def)
  have c0: "sd_cmd_r1 CMD0 0 0x95 (SD_CS_LOW ?d)
      = Some (1, sent (cmd_packet CMD0 0 0x95 @ [0xFF]) (n_ticks (SD_CS_LOW ?d) + 1) (SD_CS_LOW ?d))"
    by (rule cmd_r1_answer) (simp_all add: d assms(2))
  let ?e = "release (sent (cmd_packet CMD0 0 0x95 @ [0xFF]) (n_ticks (SD_CS_LOW ?d) + 1) (SD_CS_LOW ?d))"
  have e: "miso ?e = miso s" "n_bytes ?e = 18" by (simp_all add: d)
  have c8: "sd_cmd_r1 CMD8 0x1AA 0x87 (SD_CS_LOW ?e)
      = Some (1, sent (cmd_packet CMD8 0x1AA 0x87 @ [0xFF]) (n_ticks (SD_CS_LOW ?e) + 1) (SD_CS_LOW ?e))"
    by (rule cmd_r1_answer) (simp_all add: d assms(2))
  let ?f = "sent (cmd_packet CMD8 0x1AA 0x87 @ [0xFF]) (n_ticks (SD_CS_LOW ?e) + 1) (SD_CS_LOW ?e)"
  have f: "miso ?f = miso s" "n_bytes ?f = 25" by (simp_all add: d)
  have r7: "spi_read_buf (replicate 4 0) 0 4 ?f = Some (received ?f 25 4, sent (replicate 4 0xFF) (n_ticks ?f) ?f)"
    using f(2) by (subst read_buf_law) simp_all
  have "received ?f 25 4 ! 3 = 0xAA" using f(1) assms(2) by (simp add: received_def)
  moreover have "acmd41_loop (release (sent (replicate 4 0xFF) (n_ticks ?f) ?f)) = None"
  proof -
    have "idle_from 29 (release (sent (replicate 4 0xFF) (n_ticks ?f) ?f))"
      using assms(2) by (simp add: idle_from_def d)
    then show ?thesis using acmd41_never by (metis option.exhaust)
  qed
  moreover have "cmd0_loop 50 0xFF ?d = Some (1, ?e)"
    using cmd0_loop.simps(2) [of 49 "0xFF" ?d] c0 by simp
  ultimately show ?thesis using c8 r7 by (simp add: sd_init_def Let_def)
qed

text \<open>A clock that jumps by 51 ms at each reading, and a card that delivers two sectors of zeros.\<close>

definition willing_card :: spi where
  "willing_card = \<lparr>miso = (\<lambda>n. if n = 7 \<or> n = 522 then 0xFE else 0), ticks = (\<lambda>n. of_nat (51 * n)), n_bytes = 0,
     n_ticks = 0, selected = False, mosi = [], g_sd_is_sdhc = 1\<rparr>"

definition idle_card :: spi where
  "idle_card = willing_card\<lparr>miso := (\<lambda>n. if n = 28 then 0xAA else 1)\<rparr>"

lemma willing_clock: "clock_runs willing_card"
  unfolding clock_runs_def
proof
  fix n
  have "ticks willing_card (n + 1) - ticks willing_card n = 51"
    by (simp add: willing_card_def)
  then show "\<exists>m\<ge>n. ticks willing_card m - ticks willing_card n > 50" by (intro exI [of _ "n + 1"]) simp
qed

lemma disk_read_delivers_blocks_witness:
  "\<exists>res buf' t a k rest m. USER_read 0 (replicate 1024 7) 9 2 willing_card = Some (res, buf', t) \<and> \<not> selected t \<and>
    mosi t = mosi willing_card @ map (Pair True) (cmd_packet (if (2 :: u32) > 1 then CMD18 else CMD17) (sd_addr 9 willing_card) 1
      @ replicate k 0xFF @ rest) @ [(False, 0xFF)] \<and>
    length buf' = length (replicate 1024 (7 :: u8)) \<and> answered willing_card (n_bytes willing_card + 6) k a \<and>
    transferred a ((2 :: u32) > 1) willing_card (n_bytes willing_card + 6 + k) (unat (2 :: u32)) m (replicate 1024 7) buf' rest \<and>
    (res = RES_OK \<longleftrightarrow> m = unat (2 :: u32))"
  using willing_clock by (rule disk_read_delivers_blocks) simp_all

lemma init_never_returns_witness: "sd_init idle_card = None"
  by (rule init_never_returns) (simp_all add: idle_card_def willing_card_def)

end
