(* ===== verification/Linux_Drivers.thy ===== *)
theory Linux_Drivers
  imports Prelude
begin

text \<open>
  The two kernel modules of the main board: the temperature and humidity sensor
  (\<open>drivers/src/sht20_driver.c\<close>) and the motor (\<open>drivers/src/motor_driver.c\<close>). The bus transfers, the
  copies to and from user space and the number parser of the kernel are arguments; registering the devices
  with the kernel is left out.
\<close>

section \<open>SHT20: checksum\<close>

definition crc_bit :: "u8 \<Rightarrow> u8" where
  "crc_bit crc = (if crc AND 0x80 \<noteq> 0 then push_bit 1 crc XOR 0x31 else push_bit 1 crc)"

fun crc_bits :: "nat \<Rightarrow> u8 \<Rightarrow> u8" where
  "crc_bits 0 crc = crc"
| "crc_bits (Suc n) crc = crc_bits n (crc_bit crc)"

fun crc_loop :: "u8 list \<Rightarrow> u8 \<Rightarrow> u8" where
  "crc_loop [] crc = crc"
| "crc_loop (b # bs) crc = crc_loop bs (crc_bits 8 (crc XOR b))"

definition sht20_crc8 :: "u8 list \<Rightarrow> u8" where
  "sht20_crc8 data = crc_loop data 0"

section \<open>SHT20: reading\<close>

definition EIO :: int where "EIO = 5"
definition EFAULT :: int where "EFAULT = 14"
definition ENODEV :: int where "ENODEV = 19"

text \<open>
  One transfer of a command and an answer: the results of \<open>i2c_master_send\<close> and \<open>i2c_master_recv\<close>, and
  the three bytes the buffer holds afterwards.
\<close>

record i2c_transfer =
  send_ret :: int
  recv_ret :: int
  buf0 :: u8
  buf1 :: u8
  buf2 :: u8

text \<open>The return value, with the result that is stored when it is 0.\<close>

definition read_sht20_data :: "i2c_transfer \<Rightarrow> int \<times> u16 option" where
  "read_sht20_data i =
     (if send_ret i < 0 then (send_ret i, None)
      else if recv_ret i < 0 then (recv_ret i, None)
      else if sht20_crc8 [buf0 i, buf1 i] \<noteq> buf2 i then (- EIO, None)
      else (0, Some (join16 (buf0 i) (buf1 i AND 0xFC))))"

definition temp_x100 :: "u16 \<Rightarrow> int" where
  "temp_x100 raw = - 4685 + cdiv (17572 * uint raw) 65536"

definition humi_x100 :: "u16 \<Rightarrow> int" where
  "humi_x100 raw = - 600 + cdiv (12500 * uint raw) 65536"

text \<open>The conversion \<open>%02d\<close> of \<open>snprintf\<close>: at least two digits.\<close>

definition print_02d :: "int \<Rightarrow> u8 list" where
  "print_02d i = (let d = print_d i in replicate (2 - length d) 48 @ d)"

definition hundredths :: "int \<Rightarrow> u8 list" where
  "hundredths v = print_d (cdiv v 100) @ c_lit ''.'' @ print_02d \<bar>crem v 100\<bar>"

definition out_text :: "int \<Rightarrow> int \<Rightarrow> u8 list" where
  "out_text t h = c_lit ''Temp: '' @ hundredths t @ c_lit '' C, Humi: '' @ hundredths h @ c_lit '' %'' @ [10]"

text \<open>The return value and what was copied to the user, if anything was.\<close>

definition sht20_read :: "i2c_transfer \<Rightarrow> i2c_transfer \<Rightarrow> bool \<Rightarrow> int \<times> u8 list option" where
  "sht20_read t h copy_ok =
     (case read_sht20_data t of (r, raw_temp) \<Rightarrow>
        if r < 0 then (- EIO, None)
        else (case read_sht20_data h of (r, raw_humi) \<Rightarrow>
          if r < 0 then (- EIO, None)
          else (let out = out_text (temp_x100 (the raw_temp)) (humi_x100 (the raw_humi))
                in if \<not> copy_ok then (- EFAULT, None) else (int (length out), Some out))))"

text \<open>The client the driver remembers; a file keeps the one it was opened with.\<close>

definition sht20_open :: "'c option \<Rightarrow> int \<times> 'c option" where
  "sht20_open client_ptr = (case client_ptr of None \<Rightarrow> (- ENODEV, None) | Some c \<Rightarrow> (0, Some c))"

definition sht20_probe :: "'c \<Rightarrow> 'c option \<Rightarrow> int \<times> 'c option" where
  "sht20_probe client client_ptr = (0, Some client)"

definition sht20_remove :: "'c option \<Rightarrow> 'c option" where
  "sht20_remove client_ptr = None"

section \<open>Motor\<close>

definition PWM_PERIOD :: int where "PWM_PERIOD = 1000000"

record motor =
  in1 :: bool
  in2 :: bool
  pwm_duty :: int
  pwm_period :: int
  pwm_on :: bool

text \<open>
  \<open>kstrtoint\<close> is the parser of the kernel: \<open>None\<close> when the text is not a number that fits. \<open>copied\<close> is what
  \<open>copy_from_user\<close> brings, \<open>None\<close> when it fails; the rest of \<open>kbuf\<close> does not matter, as the text ends in a
  zero.
\<close>

definition motor_write ::
    "(u8 list \<Rightarrow> int option) \<Rightarrow> (nat \<Rightarrow> u8 list option) \<Rightarrow> nat \<Rightarrow> motor \<Rightarrow> int \<times> motor" where
  "motor_write kstrtoint copied len m =
     (let len = (if len > 15 then 15 else len) in
      case copied len of None \<Rightarrow> (- EFAULT, m)
      | Some bytes \<Rightarrow>
          (case kstrtoint (c_string (bytes @ [0])) of
             None \<Rightarrow> (int len, m)
           | Some speed \<Rightarrow>
               (let speed = (if speed < 0 then 0 else speed);
                    speed = (if speed > 100 then 100 else speed);
                    m = (if speed = 0 then m\<lparr>in1 := False, in2 := False\<rparr> else m\<lparr>in1 := True, in2 := False\<rparr>)
                in (int len, m\<lparr>pwm_duty := cdiv (speed * PWM_PERIOD) 100, pwm_period := PWM_PERIOD, pwm_on := True\<rparr>))))"

text \<open>\<open>motor_init\<close> after the registration: the outputs are low; without a PWM device it fails.\<close>

definition motor_init :: "int option \<Rightarrow> motor \<Rightarrow> int \<times> motor" where
  "motor_init pwm_error m =
     (let m = m\<lparr>in1 := False, in2 := False\<rparr>
      in case pwm_error of Some e \<Rightarrow> (e, m) | None \<Rightarrow> (0, m))"

definition motor_exit :: "motor \<Rightarrow> motor" where
  "motor_exit m = m\<lparr>pwm_on := False\<rparr>"

lemma motor_write_bounds:
  assumes "motor_write k c len m = (r, m')" and "0 \<le> pwm_duty m" "pwm_duty m \<le> PWM_PERIOD" and "\<not> in2 m"
  shows "0 \<le> pwm_duty m'" "pwm_duty m' \<le> PWM_PERIOD" "\<not> in2 m'"
  using assms by (auto simp: motor_write_def PWM_PERIOD_def Let_def split: option.splits if_splits)

section \<open>The checksum is linear\<close>

lemma crc_bit_xor: "crc_bit (a XOR b) = crc_bit a XOR crc_bit b"
proof -
  have top: "w AND 0x80 \<noteq> 0 \<longleftrightarrow> bit w 7" for w :: u8
  proof -
    have "w AND 0x80 = (if bit w 7 then 0x80 else 0)"
      by (rule bit_word_eqI) (auto simp: bit_simps numeral_eq_Suc less_Suc_eq_0_disj)
    then show ?thesis by simp
  qed
  show ?thesis unfolding crc_bit_def top
    by (rule bit_word_eqI) (auto simp: bit_simps)
qed

lemma crc_bits_xor: "crc_bits n (a XOR b) = crc_bits n a XOR crc_bits n b"
  by (induction n arbitrary: a b) (simp_all add: crc_bit_xor)

lemma crc8_two: "sht20_crc8 [a, b] = crc_bits 8 (crc_bits 8 a XOR b)"
  by (simp add: sht20_crc8_def)

lemma crc8_xor: "sht20_crc8 [a XOR c, b XOR d] = sht20_crc8 [a, b] XOR sht20_crc8 [c, d]"
  unfolding crc8_two by (simp add: crc_bits_xor ac_simps)

definition xors :: "u8 list \<Rightarrow> u8" where
  "xors ws = foldr (XOR) ws 0"

lemma xors_simps [simp]: "xors [] = 0" "xors (w # ws) = w XOR xors ws" "xors (us @ ws) = xors us XOR xors ws"
proof -
  show "xors [] = 0" "xors (w # ws) = w XOR xors ws" by (simp_all add: xors_def)
  show "xors (us @ ws) = xors us XOR xors ws" by (induction us) (simp_all add: xors_def xor.assoc)
qed

text \<open>A linear function of a byte is the exclusive or of its values at the single bits.\<close>

definition ones :: "u8 \<Rightarrow> nat list" where
  "ones e = filter (bit e) [0..<8]"

lemma byte_of_ones: "xors (map (\<lambda>k. 2 ^ k) (ones e)) = e"
proof -
  have "bit (xors (map (\<lambda>k. 2 ^ k) (filter (bit e) [0..<n]))) j \<longleftrightarrow> j < n \<and> j < 8 \<and> bit e j" for n j
  proof (induction n)
    case (Suc n)
    then show ?case by (auto simp: bit_simps less_Suc_eq dest: bit_imp_le_length)
  qed simp
  then show ?thesis unfolding ones_def by (intro bit_word_eqI) simp
qed

lemma linear_ones:
  assumes "\<And>a b. h (a XOR b) = h a XOR h b" and "h 0 = 0"
  shows "h e = xors (map (\<lambda>k. h (2 ^ k)) (ones e))"
proof -
  have "h (xors ws) = xors (map h ws)" for ws by (induction ws) (simp_all add: assms)
  from this [of "map (\<lambda>k. 2 ^ k) (ones e)"] show ?thesis by (simp only: byte_of_ones map_map o_def)
qed

section \<open>Flipped bits\<close>

text \<open>The 24 bits of a measurement, and what flipping one of them does to the comparison of the checksum.\<close>

definition syndrome :: "nat \<Rightarrow> u8" where
  "syndrome k =
     (if k < 8 then sht20_crc8 [2 ^ k, 0]
      else if k < 16 then sht20_crc8 [0, 2 ^ (k - 8)] else 2 ^ (k - 16))"

definition flips :: "u8 \<Rightarrow> u8 \<Rightarrow> u8 \<Rightarrow> nat list" where
  "flips e0 e1 e2 = ones e0 @ map ((+) 8) (ones e1) @ map ((+) 16) (ones e2)"

lemma ones_less: "k \<in> set (ones e) \<Longrightarrow> k < 8"
  by (simp add: ones_def)

lemma distinct_flips: "distinct (flips e0 e1 e2)"
  by (auto simp: flips_def ones_def distinct_map)

lemma flips_less: "k \<in> set (flips e0 e1 e2) \<Longrightarrow> k < 24"
  by (auto simp: flips_def dest: ones_less)

lemma error_syndrome: "sht20_crc8 [e0, e1] XOR e2 = xors (map syndrome (flips e0 e1 e2))"
proof -
  have zero: "sht20_crc8 [0, 0] = 0" by code_simp
  have 0: "sht20_crc8 [e0, 0] = xors (map (\<lambda>k. sht20_crc8 [2 ^ k, 0]) (ones e0))"
    by (rule linear_ones [of "\<lambda>e. sht20_crc8 [e, 0]"]) (use crc8_xor [of _ _ 0 0] zero in simp_all)
  have 1: "sht20_crc8 [0, e1] = xors (map (\<lambda>k. sht20_crc8 [0, 2 ^ k]) (ones e1))"
    by (rule linear_ones [of "\<lambda>e. sht20_crc8 [0, e]"]) (use crc8_xor [of 0 0] zero in simp_all)
  have split: "sht20_crc8 [e0, e1] = sht20_crc8 [e0, 0] XOR sht20_crc8 [0, e1]" using crc8_xor [of e0 0 0 e1] by simp
  have m: "map syndrome (ones e0) = map (\<lambda>k. sht20_crc8 [2 ^ k, 0]) (ones e0)"
    "map (\<lambda>k. syndrome (8 + k)) (ones e1) = map (\<lambda>k. sht20_crc8 [0, 2 ^ k]) (ones e1)"
    "map (\<lambda>k. syndrome (16 + k)) (ones e2) = map (\<lambda>k. 2 ^ k) (ones e2)"
    by (auto simp: syndrome_def dest: ones_less)
  show ?thesis by (simp only: flips_def map_append map_map o_def xors_simps split m 0 1 byte_of_ones xor.assoc)
qed

text \<open>The number of ones is odd in every syndrome, and no two are equal.\<close>

definition odd_ones :: "u8 \<Rightarrow> bool" where
  "odd_ones w \<longleftrightarrow> odd (length (ones w))"

lemma odd_ones_xor: "odd_ones (a XOR b) \<longleftrightarrow> odd_ones a \<noteq> odd_ones b"
proof -
  have "odd (length (filter (bit (a XOR b)) ks)) \<longleftrightarrow> odd (length (filter (bit a) ks)) \<noteq> odd (length (filter (bit b) ks))" for ks
    by (induction ks) (auto simp: bit_simps)
  then show ?thesis by (simp add: odd_ones_def ones_def)
qed

lemma odd_ones_0 [simp]: "\<not> odd_ones 0"
  by (simp add: odd_ones_def ones_def)

lemma odd_xors: "odd_ones (xors ws) \<longleftrightarrow> odd (length (filter odd_ones ws))"
  by (induction ws) (simp_all add: odd_ones_xor)

lemma byte_bits: "[0..<8] = [0, 1, 2, 3, 4, 5, 6, 7 :: nat]"
  by code_simp

lemma syndrome_values: "map syndrome [0..<24] = [244, 217, 131, 55, 110, 220, 137, 35, 49, 98, 196, 185, 67, 134, 61, 122,
    1, 2, 4, 8, 16, 32, 64, 128]"
  by code_simp

lemma syndromes: "distinct (map syndrome [0..<24])" "list_all odd_ones (map syndrome [0..<24])"
proof -
  have "distinct (map unat (map syndrome [0..<24]))" unfolding syndrome_values by simp
  then show "distinct (map syndrome [0..<24])" by (simp only: distinct_map)
  show "list_all odd_ones (map syndrome [0..<24])" unfolding syndrome_values by (simp add: odd_ones_def ones_def byte_bits)
qed

lemma syndrome_facts: "inj_on syndrome {0..<24}" "k < 24 \<Longrightarrow> odd_ones (syndrome k)"
  using syndromes by (simp_all add: distinct_map list_all_iff del: upt_rec_numeral)

lemma xor_cancel: "w XOR a = w XOR b \<longleftrightarrow> a = b" for a b w :: u8
proof
  assume "w XOR a = w XOR b"
  then have "w XOR (w XOR a) = w XOR (w XOR b)" by simp
  then show "a = b" by (simp flip: xor.assoc)
qed simp

lemma few_flips_seen:
  assumes "distinct ks" and "\<And>k. k \<in> set ks \<Longrightarrow> k < 24" and "ks \<noteq> []" and "length ks \<le> 3"
  shows "xors (map syndrome ks) \<noteq> 0"
proof
  assume zero: "xors (map syndrome ks) = 0"
  have "filter odd_ones (map syndrome ks) = map syndrome ks"
    using syndrome_facts(2) assms(2) by (auto simp: filter_id_conv)
  then have "even (length ks)" using odd_xors [of "map syndrome ks"] zero by simp
  then have "length ks = 2" using assms(3,4) length_0_conv [of ks] by presburger
  then obtain i j where ij: "ks = [i, j]" by (auto simp: length_Suc_conv numeral_2_eq_2)
  then have "syndrome i = syndrome j" using zero xor_cancel [of "syndrome i" "syndrome j" "syndrome i"] by simp
  then have "i = j" using syndrome_facts(1) assms(2) ij by (auto dest: inj_onD)
  then show False using assms(1) ij by simp
qed

section \<open>The text\<close>

text \<open>Reading a text back: an optional minus, the units, a point, the hundredths.\<close>

definition parse_hundredths :: "u8 list \<Rightarrow> int" where
  "parse_hundredths str =
     (let neg = (str \<noteq> [] \<and> hd str = 45);
          rest = (if neg then List.tl str else str);
          whole = takeWhile (\<lambda>b. b \<noteq> 46) rest;
          frac = drop (length whole + 1) rest;
          v = digits_value whole * 100 + digits_value frac
      in if neg then - v else v)"

lemma digits_chars: "46 \<notin> set (digits n)" "45 \<notin> set (digits n)" "digits n \<noteq> []"
proof -
  show "46 \<notin> set (digits n)" using digits_range [of 46 n] by auto
  show "45 \<notin> set (digits n)" using digits_range [of 45 n] by auto
  show "digits n \<noteq> []" by (simp add: digits.simps [of n])
qed

lemma hd_digits: "hd (digits n @ xs) \<noteq> 45"
  using digits_chars [of n] by (cases "digits n") auto

lemma print_02d_value: "0 \<le> i \<Longrightarrow> i < 100 \<Longrightarrow> digits_value (print_02d i) = i"
proof -
  assume i: "0 \<le> i" "i < 100"
  have zeros: "digits_value (replicate k 48 @ ds) = digits_value ds" for k ds
    by (induction k) (simp_all add: digits_value_def)
  show ?thesis using i by (simp add: print_02d_def print_d_def Let_def zeros digits_value_digits)
qed

lemma parse_positive:
  assumes "0 \<le> i" and "i < 100"
  shows "parse_hundredths (digits n @ [46] @ print_02d i) = int n * 100 + i"
    and "parse_hundredths ([45] @ digits n @ [46] @ print_02d i) = - (int n * 100 + i)"
proof -
  have t: "takeWhile (\<lambda>b. b \<noteq> 46) (digits n @ 46 # xs) = digits n" for xs
    using digits_chars(1) [of n] by (subst takeWhile_append2) auto
  have d: "drop (Suc (length (digits n))) (digits n @ 46 # xs) = xs" for xs by simp
  show "parse_hundredths (digits n @ [46] @ print_02d i) = int n * 100 + i"
    using assms hd_digits [of n] by (simp add: parse_hundredths_def Let_def t d digits_value_digits print_02d_value)
  show "parse_hundredths ([45] @ digits n @ [46] @ print_02d i) = - (int n * 100 + i)"
    using assms by (simp add: parse_hundredths_def Let_def t d digits_value_digits print_02d_value)
qed

lemma temp_range: "- 4685 \<le> temp_x100 raw" "temp_x100 raw \<le> 12886"
proof -
  have "0 \<le> uint raw" "uint raw < 65536" using uint_range_size [of raw] by (simp_all add: word_size)
  then show "- 4685 \<le> temp_x100 raw" "temp_x100 raw \<le> 12886" by (simp_all add: temp_x100_def pos_imp_zdiv_nonneg_iff)
qed

section \<open>Properties\<close>

text \<open>
  C39: A measurement in which one, two or three of its 24 bits were flipped on the bus is never taken for
  a good one: the checksum rejects it with an input/output error.
\<close>

theorem flipped_measurement_rejected:
  assumes "sht20_crc8 [b0, b1] = b2" and "send_ret i \<ge> 0" and "recv_ret i \<ge> 0"
    and "buf0 i = b0 XOR e0" and "buf1 i = b1 XOR e1" and "buf2 i = b2 XOR e2"
    and "0 < length (flips e0 e1 e2)" and "length (flips e0 e1 e2) \<le> 3"
  shows "read_sht20_data i = (- EIO, None)"
proof -
  have "xors (map syndrome (flips e0 e1 e2)) \<noteq> 0"
    using distinct_flips flips_less assms(7,8) by (intro few_flips_seen) auto
  then have "sht20_crc8 [e0, e1] \<noteq> e2" using error_syndrome [of e0 e1 e2] by auto
  then have "sht20_crc8 [b0 XOR e0, b1 XOR e1] \<noteq> b2 XOR e2"
    using assms(1) by (simp add: crc8_xor xor_cancel)
  then show ?thesis using assms(2-6) by (simp add: read_sht20_data_def)
qed

lemma flipped_measurement_rejected_witness:
  "read_sht20_data \<lparr>send_ret = 1, recv_ret = 3, buf0 = 0x68 XOR 0x01, buf1 = 0x3A XOR 0x80, buf2 = 0x7C XOR 0\<rparr> = (- EIO, None)"
  by (rule flipped_measurement_rejected [of "0x68" "0x3A" "0x7C" _ "0x01" "0x80" 0])
    (code_simp, simp_all add: flips_def ones_def byte_bits)


text \<open>
  The text of a measurement, read back, gives the value in hundredths, except that the sign of a value
  between -0.99 and -0.01 is lost: the integer part is printed as 0, without a minus.
\<close>

theorem text_loses_sign:
  "parse_hundredths (hundredths v) = (if - 100 < v \<and> v < 0 then - v else v)"
proof (cases "0 \<le> v")
  case True
  then show ?thesis using parse_positive(1) [of "v mod 100" "nat (v div 100)"]
    by (simp add: hundredths_def print_d_def c_lit_def pos_imp_zdiv_nonneg_iff flip: not_le)
next
  case False
  have c: "cdiv v 100 = - (- v div 100)" "\<bar>crem v 100\<bar> = (- v) mod 100"
  proof -
    show 1: "cdiv v 100 = - (- v div 100)" using False by (simp add: cdiv_def)
    have "crem v 100 = - ((- v) mod 100)" unfolding crem_def 1 using minus_div_mult_eq_mod [of "- v" 100] by simp
    then show "\<bar>crem v 100\<bar> = (- v) mod 100" by simp
  qed
  show ?thesis
  proof (cases "- v div 100 = 0")
    case True
    then have "v > - 100" "(- v) mod 100 = - v" using False by simp_all
    then show ?thesis using True False parse_positive(1) [of "- v" 0]
      by (simp add: hundredths_def c print_d_def c_lit_def)
  next
    case big: False
    then have pos: "0 < - v div 100" using False by (simp add: pos_imp_zdiv_nonneg_iff order_less_le)
    then have "v \<le> - 100" by (simp add: div_pos_pos_trivial not_less)
    then show ?thesis using pos parse_positive(2) [of "(- v) mod 100" "nat (- v div 100)"]
      by (simp add: hundredths_def c print_d_def c_lit_def)
  qed
qed

text \<open>A sensor at -0.06 degrees.\<close>

lemma small_frost:
  "sht20_read \<lparr>send_ret = 1, recv_ret = 3, buf0 = 0x44, buf1 = 0x2C, buf2 = sht20_crc8 [0x44, 0x2C]\<rparr>
     \<lparr>send_ret = 1, recv_ret = 3, buf0 = 0, buf1 = 0, buf2 = 0\<rparr> True
   = (28, Some (c_lit ''Temp: 0.06 C, Humi: -6.00 %'' @ [10]))"
  by code_simp

end
