(* ===== verification/Subway_Api.thy ===== *)
theory Subway_Api
  imports Prelude "HOL-Library.Monad_Syntax"
begin

text \<open>
  The arrival query \<open>drivers/subway_api/subway_api_parse.c\<close>: collecting the answer of the server and
  choosing the next train from it; and the test program \<open>subway_api_test.c\<close> beside it. The JSON library is an argument: its parser and what it says of a value
  (a member by name, a string, a number as an \<open>int\<close>, the elements of an array); a null pointer is \<open>None\<close>.
  A \<open>long\<close> has 64 bits. Messages to the error stream are left out.
\<close>

section \<open>Collecting the answer\<close>

text \<open>
  The memory and the number of bytes received in it. The memory is one byte longer, and this byte is the
  terminating zero, after the first call of the callback; before, the content is what \<open>malloc(1)\<close> found there.
  \<open>realloc_ok\<close> tells whether the memory could be had; the result is what the callback returns and the
  memory after.
\<close>

record MemoryStruct =
  memory :: "u8 list"
  mem_size :: nat

definition WriteCallback :: "bool \<Rightarrow> u8 list \<Rightarrow> MemoryStruct \<Rightarrow> nat \<times> MemoryStruct" where
  "WriteCallback realloc_ok contents mem =
     (if \<not> realloc_ok then (0, mem)
      else (length contents, \<lparr>memory = take (mem_size mem) (memory mem) @ contents @ [0],
              mem_size = mem_size mem + length contents\<rparr>))"

text \<open>The transfer calls back for each piece and fails when a call returns another number than it was given.\<close>

fun transfer :: "(bool \<times> u8 list) list \<Rightarrow> MemoryStruct \<Rightarrow> bool \<times> MemoryStruct" where
  "transfer [] mem = (True, mem)"
| "transfer ((ok, piece) # pieces) mem =
     (case WriteCallback ok piece mem of (n, mem) \<Rightarrow>
        if n \<noteq> length piece then (False, mem) else transfer pieces mem)"

text \<open>\<open>found\<close> is the byte of the first \<open>malloc\<close>, or that it failed.\<close>

definition fetch_json :: "u8 option \<Rightarrow> bool \<Rightarrow> bool \<Rightarrow> (bool \<times> u8 list) list \<Rightarrow> int \<times> MemoryStruct option" where
  "fetch_json found init_ok perform_ok pieces =
     (case found of None \<Rightarrow> (- 1, None)
      | Some b \<Rightarrow>
          if \<not> init_ok then (- 1, None)
          else (case transfer pieces \<lparr>memory = [b], mem_size = 0\<rparr> of (complete, mem) \<Rightarrow>
            if \<not> (complete \<and> perform_ok) then (- 1, None) else (0, Some mem)))"

text \<open>A string in an array: \<open>None\<close> when it has no end there.\<close>

definition string_in :: "u8 list \<Rightarrow> u8 list option" where
  "string_in buf = (if 0 \<in> set buf then Some (c_string buf) else None)"

section \<open>Values\<close>

record 'j cjson =
  cj_parse :: "u8 list \<Rightarrow> 'j option"
  cj_item :: "'j \<Rightarrow> u8 list \<Rightarrow> 'j option"
  cj_string :: "'j \<Rightarrow> u8 list option"
  cj_number :: "'j \<Rightarrow> int option"
  cj_array :: "'j \<Rightarrow> 'j list option"

text \<open>A string is cut to the size of the array it goes to, less the terminating zero.\<close>

definition get_json_string :: "'j cjson \<Rightarrow> 'j \<Rightarrow> u8 list \<Rightarrow> nat \<Rightarrow> u8 list option" where
  "get_json_string cj obj key out_size = do {
     item \<leftarrow> cj_item cj obj key;
     str \<leftarrow> cj_string cj item;
     Some (take (out_size - 1) str) }"

definition isdigit :: "u8 \<Rightarrow> bool" where
  "isdigit b \<longleftrightarrow> 48 \<le> b \<and> b \<le> 57"

definition INT_MAX :: int where "INT_MAX = 2147483647"

definition get_json_int :: "'j cjson \<Rightarrow> 'j \<Rightarrow> u8 list \<Rightarrow> int option" where
  "get_json_int cj obj key = do {
     item \<leftarrow> cj_item cj obj key;
     case cj_number cj item of
       Some v \<Rightarrow> Some v
     | None \<Rightarrow> do {
         str \<leftarrow> cj_string cj item;
         if str = [] then None
         else if \<not> list_all isdigit str then None
         else let v = digits_value str in if v < 0 \<or> v > INT_MAX then None else Some v } }"

fun strstr :: "u8 list \<Rightarrow> u8 list \<Rightarrow> bool" where
  "strstr [] needle = (needle = [])"
| "strstr (b # bs) needle = (take (length needle) (b # bs) = needle \<or> strstr bs needle)"

section \<open>The next train\<close>

definition TARGET_SUBWAY_ID :: int where "TARGET_SUBWAY_ID = 1003"

text \<open>The UTF-8 bytes of the direction the program looks for (up).\<close>

definition UP_LINE :: "u8 list" where
  "UP_LINE = [0xEC, 0x83, 0x81, 0xED, 0x96, 0x89]"

record TrainInfo =
  valid :: int
  barvlDt :: int
  arvlCd :: int
  recptnDt :: "u8 list"
  updnLine :: "u8 list"
  arvlMsg2 :: "u8 list"
  trainLineNm :: "u8 list"

definition no_train :: TrainInfo where
  "no_train = \<lparr>valid = 0, barvlDt = 0, arvlCd = 0, recptnDt = [], updnLine = [], arvlMsg2 = [], trainLineNm = []\<rparr>"

definition or_empty :: "u8 list option \<Rightarrow> u8 list" where
  "or_empty str = (case str of None \<Rightarrow> [] | Some str \<Rightarrow> str)"

text \<open>The body of the loop over the arrivals, with the smallest time so far.\<close>

definition consider_train :: "'j cjson \<Rightarrow> 'j \<Rightarrow> int \<times> TrainInfo \<Rightarrow> int \<times> TrainInfo" where
  "consider_train cj item mb = (case mb of (min_barvl, best) \<Rightarrow>
     (case get_json_string cj item (c_lit ''updnLine'') 32 of None \<Rightarrow> mb
      | Some updn_line \<Rightarrow>
          if \<not> strstr updn_line UP_LINE then mb
          else (case get_json_int cj item (c_lit ''subwayId'') of None \<Rightarrow> mb
            | Some subway_id \<Rightarrow>
                if subway_id \<noteq> TARGET_SUBWAY_ID then mb
                else (case get_json_int cj item (c_lit ''barvlDt'') of None \<Rightarrow> mb
                  | Some sec \<Rightarrow>
                      (let arvl_cd = (case get_json_int cj item (c_lit ''arvlCd'') of None \<Rightarrow> - 1 | Some c \<Rightarrow> c)
                       in if sec < min_barvl
                          then (sec, best\<lparr>valid := 1, barvlDt := sec, arvlCd := arvl_cd, updnLine := take 31 updn_line,
                                 recptnDt := or_empty (get_json_string cj item (c_lit ''recptnDt'') 32),
                                 arvlMsg2 := or_empty (get_json_string cj item (c_lit ''arvlMsg2'') 128),
                                 trainLineNm := or_empty (get_json_string cj item (c_lit ''trainLineNm'') 128)\<rparr>)
                          else mb)))))"

fun train_loop :: "'j cjson \<Rightarrow> 'j list \<Rightarrow> int \<times> TrainInfo \<Rightarrow> int \<times> TrainInfo" where
  "train_loop cj [] mb = mb"
| "train_loop cj (item # items) mb = train_loop cj items (consider_train cj item mb)"

definition parse_best_train :: "'j cjson \<Rightarrow> u8 list \<Rightarrow> TrainInfo \<Rightarrow> int \<times> TrainInfo" where
  "parse_best_train cj json_str best =
     (case cj_parse cj json_str of None \<Rightarrow> (- 1, best)
      | Some root \<Rightarrow>
          (case Option.bind (cj_item cj root (c_lit ''realtimeArrivalList'')) (cj_array cj) of None \<Rightarrow> (- 1, best)
           | Some items \<Rightarrow>
               (let best = snd (train_loop cj items (INT_MAX, best))
                in if valid best = 0 then (- 1, best) else (0, best))))"

text \<open>The exit code and the lines that are printed.\<close>

definition train_report :: "TrainInfo \<Rightarrow> u8 list list" where
  "train_report best =
     [c_lit ''updnLine    = '' @ updnLine best, c_lit ''trainLineNm = '' @ trainLineNm best,
      c_lit ''arvlMsg2    = '' @ arvlMsg2 best, c_lit ''arvlCd      = '' @ print_d (arvlCd best),
      c_lit ''barvlDt     = '' @ print_d (barvlDt best)]"

definition subway_main :: "'j cjson \<Rightarrow> int \<times> MemoryStruct option \<Rightarrow> (int \<times> u8 list list) option" where
  "subway_main cj fetched = (case fetched of (r, chunk) \<Rightarrow>
     if r \<noteq> 0 then Some (1, [])
     else do {
       chunk \<leftarrow> chunk;
       json_str \<leftarrow> string_in (memory chunk);
       case parse_best_train cj json_str no_train of (r, best) \<Rightarrow>
         Some (if r \<noteq> 0 then (1, []) else (0, train_report best)) })"

section \<open>The test program\<close>

text \<open>
  \<open>drivers/subway_api/subway_api_test.c\<close> has the same callback, prints the answer as it is, and ends with 0 in every
  case. It does not look whether its \<open>malloc\<close> succeeded: the memory is then empty.
\<close>

definition subway_test :: "u8 option \<Rightarrow> bool \<Rightarrow> (bool \<times> u8 list) list \<Rightarrow> (int \<times> u8 list list) option" where
  "subway_test found perform_ok pieces =
     (case transfer pieces \<lparr>memory = (case found of None \<Rightarrow> [] | Some b \<Rightarrow> [b]), mem_size = 0\<rparr> of (complete, chunk) \<Rightarrow>
        if \<not> (complete \<and> perform_ok) then Some (0, [c_lit ''API Request Start...''])
        else do {
          json_str \<leftarrow> string_in (memory chunk);
          Some (0, [c_lit ''API Request Start...'', c_lit ''API Response OK'',
            c_lit ''Response Size: '' @ digits (mem_size chunk) @ c_lit '' bytes'',
            c_lit ''----- JSON START -----'', json_str, c_lit ''----- JSON END -----'']) })"

section \<open>Specification\<close>

text \<open>The time of an arrival the program considers, and what it remembers of one.\<close>

definition candidate :: "'j cjson \<Rightarrow> 'j \<Rightarrow> int option" where
  "candidate cj item = do {
     updn \<leftarrow> get_json_string cj item (c_lit ''updnLine'') 32;
     subway_id \<leftarrow> get_json_int cj item (c_lit ''subwayId'');
     sec \<leftarrow> get_json_int cj item (c_lit ''barvlDt'');
     if strstr updn UP_LINE \<and> subway_id = TARGET_SUBWAY_ID then Some sec else None }"

definition train_info :: "'j cjson \<Rightarrow> 'j \<Rightarrow> int \<Rightarrow> TrainInfo" where
  "train_info cj item sec = \<lparr>valid = 1, barvlDt = sec,
     arvlCd = (case get_json_int cj item (c_lit ''arvlCd'') of None \<Rightarrow> - 1 | Some c \<Rightarrow> c),
     recptnDt = or_empty (get_json_string cj item (c_lit ''recptnDt'') 32),
     updnLine = or_empty (get_json_string cj item (c_lit ''updnLine'') 32),
     arvlMsg2 = or_empty (get_json_string cj item (c_lit ''arvlMsg2'') 128),
     trainLineNm = or_empty (get_json_string cj item (c_lit ''trainLineNm'') 128)\<rparr>"

lemma consider_train_law:
  "consider_train cj item (m, best) = (case candidate cj item of
     Some sec \<Rightarrow> if sec < m then (sec, train_info cj item sec) else (m, best) | None \<Rightarrow> (m, best))"
proof -
  have "take 31 str = str" if "get_json_string cj item (c_lit ''updnLine'') 32 = Some str" for str
    using that by (auto simp: get_json_string_def split: bind_splits)
  then show ?thesis
    by (auto simp: consider_train_def candidate_def train_info_def or_empty_def Let_def split: option.splits)
qed

text \<open>The first of the smallest.\<close>

definition first_smallest :: "('j \<Rightarrow> int option) \<Rightarrow> 'j list \<Rightarrow> 'j \<Rightarrow> int \<Rightarrow> bool" where
  "first_smallest time items item sec \<longleftrightarrow> (\<exists>pre post. items = pre @ item # post \<and> time item = Some sec \<and>
     (\<forall>x \<in> set pre. \<forall>t. time x = Some t \<longrightarrow> sec < t) \<and> (\<forall>x \<in> set post. \<forall>t. time x = Some t \<longrightarrow> sec \<le> t))"

definition chosen :: "'j cjson \<Rightarrow> int \<Rightarrow> TrainInfo \<Rightarrow> 'j list \<Rightarrow> int \<times> TrainInfo \<Rightarrow> bool" where
  "chosen cj m best items mb \<longleftrightarrow>
     (mb = (m, best) \<and> (\<forall>x \<in> set items. \<forall>t. candidate cj x = Some t \<longrightarrow> m \<le> t)) \<or>
     (\<exists>item sec. mb = (sec, train_info cj item sec) \<and> sec < m \<and> first_smallest (candidate cj) items item sec)"

lemma train_loop_chosen: "chosen cj m best items (train_loop cj items (m, best))"
proof (induction items arbitrary: m best)
  case Nil
  then show ?case by (simp add: chosen_def)
next
  case (Cons a items)
  show ?case
  proof (cases "\<exists>sec. candidate cj a = Some sec \<and> sec < m")
    case True
    then obtain sec where sec: "candidate cj a = Some sec" "sec < m" by blast
    have step: "train_loop cj (a # items) (m, best) = train_loop cj items (sec, train_info cj a sec)"
      using sec by (simp add: consider_train_law)
    from Cons.IH [of sec "train_info cj a sec"] show ?thesis unfolding step
    proof (subst (asm) chosen_def, elim disjE exE conjE)
      assume t: "train_loop cj items (sec, train_info cj a sec) = (sec, train_info cj a sec)"
        "\<forall>x\<in>set items. \<forall>t. candidate cj x = Some t \<longrightarrow> sec \<le> t"
      then have "first_smallest (candidate cj) (a # items) a sec"
        unfolding first_smallest_def using sec by (intro exI [of _ "[]"] exI [of _ items]) auto
      then show "chosen cj m best (a # items) (train_loop cj items (sec, train_info cj a sec))"
        using t sec by (auto simp: chosen_def)
    next
      fix item t assume t: "train_loop cj items (sec, train_info cj a sec) = (t, train_info cj item t)" "t < sec"
        and "first_smallest (candidate cj) items item t"
      then obtain pre post where p: "items = pre @ item # post" "candidate cj item = Some t"
        "\<forall>x \<in> set pre. \<forall>u. candidate cj x = Some u \<longrightarrow> t < u" "\<forall>x \<in> set post. \<forall>u. candidate cj x = Some u \<longrightarrow> t \<le> u"
        by (auto simp: first_smallest_def)
      then have "first_smallest (candidate cj) (a # items) item t"
        unfolding first_smallest_def using sec t(2) by (intro exI [of _ "a # pre"] exI [of _ post]) auto
      then show "chosen cj m best (a # items) (train_loop cj items (sec, train_info cj a sec))"
        using t sec(2) by (auto simp: chosen_def)
    qed
  next
    case False
    then have step: "train_loop cj (a # items) (m, best) = train_loop cj items (m, best)"
      by (auto simp: consider_train_law split: option.splits)
    have later: "first_smallest (candidate cj) (a # items) item t" if s: "first_smallest (candidate cj) items item t" "t < m" for item t
    proof -
      obtain pre post where p: "items = pre @ item # post" "candidate cj item = Some t"
        "\<forall>x \<in> set pre. \<forall>u. candidate cj x = Some u \<longrightarrow> t < u" "\<forall>x \<in> set post. \<forall>u. candidate cj x = Some u \<longrightarrow> t \<le> u"
        using s(1) by (auto simp: first_smallest_def)
      then show ?thesis unfolding first_smallest_def using False s(2)
        by (intro exI [of _ "a # pre"] exI [of _ post]) auto
    qed
    show ?thesis using Cons.IH [of m best] False later unfolding step chosen_def by (fastforce simp: not_less)
  qed
qed

section \<open>The answer\<close>

text \<open>The pieces of a transfer for which there is memory: their bytes, terminated, once there is a piece.\<close>

definition pieces_of :: "u8 list list \<Rightarrow> (bool \<times> u8 list) list" where
  "pieces_of ps = map (Pair True) ps"

lemma transfer_law:
  "length bs = mem_size mem \<Longrightarrow> memory mem = bs @ [b] \<Longrightarrow>
   transfer (pieces_of ps) mem = (True, \<lparr>memory = bs @ concat ps @ [if ps = [] then b else 0], mem_size = mem_size mem + length (concat ps)\<rparr>)"
proof (induction ps arbitrary: mem bs b)
  case Nil
  then show ?case by (simp add: pieces_of_def)
next
  case (Cons p ps)
  have "transfer (pieces_of (p # ps)) mem = transfer (pieces_of ps)
      \<lparr>memory = (bs @ p) @ [0], mem_size = mem_size mem + length p\<rparr>"
    using Cons.prems by (simp add: pieces_of_def WriteCallback_def)
  also have "\<dots> = (True, \<lparr>memory = (bs @ p) @ concat ps @ [if ps = [] then 0 else 0],
      mem_size = mem_size mem + length p + length (concat ps)\<rparr>)"
    using Cons.prems(1) by (subst Cons.IH [of "bs @ p" _ 0]) auto
  finally show ?case by simp
qed

lemma transfer_answer:
  "ps \<noteq> [] \<Longrightarrow> transfer (pieces_of ps) \<lparr>memory = [b], mem_size = 0\<rparr> = (True, \<lparr>memory = concat ps @ [0], mem_size = length (concat ps)\<rparr>)"
  using transfer_law [of "[]" "\<lparr>memory = [b], mem_size = 0\<rparr>" b ps] by simp

lemma string_in_answer: "0 \<notin> set bs \<Longrightarrow> string_in (bs @ [0]) = Some bs"
  by (simp add: string_in_def c_string_def takeWhile_tail takeWhile_eq_all_conv) (metis takeWhile_eq_all_conv)

text \<open>An answer arrives in whatever pieces: the programs see its text.\<close>

theorem answer_parsed:
  assumes "ps \<noteq> []" and "0 \<notin> set (concat ps)"
  shows "subway_main cj (fetch_json (Some b) True True (pieces_of ps)) =
      (case parse_best_train cj (concat ps) no_train of (r, best) \<Rightarrow>
         Some (if r \<noteq> 0 then (1, []) else (0, train_report best)))"
  using string_in_answer [OF assms(2)] by (simp add: fetch_json_def subway_main_def transfer_answer [OF assms(1)])

theorem answer_printed:
  assumes "ps \<noteq> []" and "0 \<notin> set (concat ps)"
  shows "subway_test (Some b) True (pieces_of ps) = Some (0, [c_lit ''API Request Start...'', c_lit ''API Response OK'',
      c_lit ''Response Size: '' @ digits (length (concat ps)) @ c_lit '' bytes'',
      c_lit ''----- JSON START -----'', concat ps, c_lit ''----- JSON END -----''])"
  using string_in_answer [OF assms(2)] by (simp add: subway_test_def transfer_answer [OF assms(1)])

text \<open>An answer without a byte leaves the memory as \<open>malloc\<close> found it, and the string in it may have no end.\<close>

lemma empty_answer_undefined:
  "b \<noteq> 0 \<Longrightarrow> subway_main cj (fetch_json (Some b) True True []) = None \<and> subway_test (Some b) True [] = None"
  by (simp add: fetch_json_def subway_main_def subway_test_def string_in_def)

section \<open>Properties\<close>

text \<open>
  The train that is chosen is the next one: among the arrivals of line 3 in the wanted direction that
  have a readable time, it is the one with the smallest time, and the first of them if there are several.
  If there is none with a time below the largest \<open>int\<close>, the program says so and reports nothing.
\<close>

theorem reported_train_is_next:
  assumes "cj_parse cj json_str = Some root" and "cj_item cj root (c_lit ''realtimeArrivalList'') = Some array"
    and "cj_array cj array = Some items"
  shows "(\<exists>item sec. parse_best_train cj json_str no_train = (0, train_info cj item sec) \<and> sec < INT_MAX \<and>
        first_smallest (candidate cj) items item sec) \<or>
    (parse_best_train cj json_str no_train = (- 1, no_train) \<and>
       (\<forall>x \<in> set items. \<forall>t. candidate cj x = Some t \<longrightarrow> INT_MAX \<le> t))"
proof -
  have "parse_best_train cj json_str no_train = (let best = snd (train_loop cj items (INT_MAX, no_train))
      in if valid best = 0 then (- 1, best) else (0, best))"
    using assms by (simp add: parse_best_train_def)
  then show ?thesis using train_loop_chosen [of cj INT_MAX no_train items]
    by (auto simp: chosen_def no_train_def train_info_def)
qed

text \<open>A library of values for arrays of objects, strings and numbers.\<close>

datatype json = JNumber int | JString "u8 list" | JArray "json list" | JObject "(u8 list \<times> json) list"

definition json_lib :: "json \<Rightarrow> json cjson" where
  "json_lib root = \<lparr>cj_parse = (\<lambda>_. Some root),
     cj_item = (\<lambda>v key. case v of JObject ms \<Rightarrow> map_of ms key | _ \<Rightarrow> None),
     cj_string = (\<lambda>v. case v of JString str \<Rightarrow> Some str | _ \<Rightarrow> None),
     cj_number = (\<lambda>v. case v of JNumber n \<Rightarrow> Some n | _ \<Rightarrow> None),
     cj_array = (\<lambda>v. case v of JArray vs \<Rightarrow> Some vs | _ \<Rightarrow> None)\<rparr>"

definition arrival :: "string \<Rightarrow> json" where
  "arrival sec = JObject [(c_lit ''updnLine'', JString UP_LINE), (c_lit ''subwayId'', JString (c_lit ''1003'')),
     (c_lit ''barvlDt'', JString (c_lit sec))]"

definition two_trains :: json where
  "two_trains = JObject [(c_lit ''realtimeArrivalList'', JArray [arrival ''180'', arrival ''60''])]"

lemma reported_train_is_next_witness:
  "(\<exists>item sec. parse_best_train (json_lib two_trains) [] no_train = (0, train_info (json_lib two_trains) item sec) \<and>
      sec < INT_MAX \<and> first_smallest (candidate (json_lib two_trains)) [arrival ''180'', arrival ''60''] item sec) \<or>
    (parse_best_train (json_lib two_trains) [] no_train = (- 1, no_train) \<and>
       (\<forall>x \<in> set [arrival ''180'', arrival ''60'']. \<forall>t. candidate (json_lib two_trains) x = Some t \<longrightarrow> INT_MAX \<le> t))"
  by (rule reported_train_is_next [where root = two_trains and array = "JArray [arrival ''180'', arrival ''60'']"])
    (simp_all add: json_lib_def two_trains_def)

text \<open>
  C40: The query reports the next train. In whatever pieces an answer arrives, the program prints the train
  that, among the arrivals of line 3 in the wanted direction that have a readable time, has the smallest time,
  and the first of them if there are several, and ends with 0; if there is none with a time below
  the largest \<open>int\<close>, it prints nothing and ends with 1.
\<close>

theorem query_reports_next:
  assumes "ps \<noteq> []" and "0 \<notin> set (concat ps)" and "cj_parse cj (concat ps) = Some root"
    and "cj_item cj root (c_lit ''realtimeArrivalList'') = Some array" and "cj_array cj array = Some items"
  shows "(\<exists>item sec. subway_main cj (fetch_json (Some b) True True (pieces_of ps))
        = Some (0, train_report (train_info cj item sec)) \<and> sec < INT_MAX \<and>
        first_smallest (candidate cj) items item sec) \<or>
    (subway_main cj (fetch_json (Some b) True True (pieces_of ps)) = Some (1, []) \<and>
       (\<forall>x \<in> set items. \<forall>t. candidate cj x = Some t \<longrightarrow> INT_MAX \<le> t))"
  using reported_train_is_next [OF assms(3-5)] unfolding answer_parsed [OF assms(1,2)] by fastforce

lemma query_reports_next_witness:
  "(\<exists>item sec. subway_main (json_lib two_trains) (fetch_json (Some 7) True True (pieces_of [[0x7B], [0x7D]]))
        = Some (0, train_report (train_info (json_lib two_trains) item sec)) \<and> sec < INT_MAX \<and>
        first_smallest (candidate (json_lib two_trains)) [arrival ''180'', arrival ''60''] item sec) \<or>
    (subway_main (json_lib two_trains) (fetch_json (Some 7) True True (pieces_of [[0x7B], [0x7D]])) = Some (1, []) \<and>
       (\<forall>x \<in> set [arrival ''180'', arrival ''60'']. \<forall>t. candidate (json_lib two_trains) x = Some t \<longrightarrow> INT_MAX \<le> t))"
  by (rule query_reports_next [where root = two_trains and array = "JArray [arrival ''180'', arrival ''60'']"])
    (simp_all add: json_lib_def two_trains_def)

lemma two_trains_example:
  "map_prod id barvlDt (parse_best_train (json_lib two_trains) [] no_train) = (0, 60)"
  by code_simp

end
