(* ===== verification/Spec2Isabelle.thy ===== *)
theory Spec2Isabelle
  imports System_Parts Panel_Scan Cycle_Delay Audio_Stream_Play Paint_Shapes Uart_Line Uart_Races Sd_Spi Linux_Drivers Subway_Api
begin

text \<open>
  A verification development for the C code of the station guidance system: the STM32F401 edge device
  (\<open>firmware/STM32F401_EdgeDevice\<close>, whose files are named below from \<open>Core/Src\<close>), the kernel modules
  of the main board and the subway query (\<open>drivers/\<close>).

  \<^bold>\<open>The program.\<close> The edge device stands on a platform. A main board sends it commands over a serial
  line and speech samples over SPI; the device shows the congestion of the cars, gas concentrations,
  temperature and the next train on a LED panel of 128 by 32 points, and plays WAV files from an SD card, or
  the speech, over I2S. \<open>main\<close> initialises the parts and then repeats: take a received packet and carry it out
  (\<open>UART_Handler_Process\<close>), read the sensors and run the screen scheduler (\<open>AppTask_Run\<close>), serve the player
  (\<open>Audio_Process\<close>). Interrupts bring bytes of the serial line, finished blocks of samples, and the halves
  of the sound buffer that have been sent; a timer interrupt scans the panel.

  \<^bold>\<open>Theories\<close>, in the order of their dependence.

    \<^item> \<open>Prelude\<close>: names of the C integer types, checked memory operations, the cyclic window of a ring
      buffer, C division, decimal digits, word and list facts, and the collections of rules.
    \<^item> \<open>Fifo\<close>: the interface of a bounded first-in first-out buffer, the locale \<open>block_fifo\<close>, with what its
      clients rely on. Interpreted on the sample ring (\<open>rx_ring\<close>) and on the name queue (\<open>name_queue\<close>).
    \<^item> \<open>Machine\<close>: state machines. The locale \<open>machine\<close> is the interface between the steps of a machine and its
      invariant, \<open>machine_part\<close> that between a machine and one it contains, \<open>implementation\<close> that between a machine
      with outputs and its specification (\<open>stream_play\<close>). The first two are interpreted on every component with a
      state (\<open>rx_machine\<close>, \<open>player_machine\<close>, \<open>matrix_machine\<close>, \<open>uart_machine\<close>), on the program
      (\<open>system_machine\<close>) and on the program with its panel (\<open>board_machine\<close>, \<open>system_in_board\<close>).
    \<^item> \<open>Audio_Stream_Rx\<close>: \<open>services/audio/audio_stream_rx.c\<close>. The record \<open>stream_rx\<close> is the file's static
      state; \<open>AudioStreamRx_*\<close>, the two HAL callbacks, and the moves of a finished block to the ring.
    \<^item> \<open>Audio_Player\<close>: \<open>services/audio/audio_player.c\<close>. The record \<open>audio\<close>, with \<open>stream_rx\<close> inside; the
      name queue, WAV and stream sources, \<open>FillHalfBuffer\<close>, \<open>Audio_Guide\<close>, \<open>Audio_Process\<close>.
    \<^item> \<open>Audio_Stream_Play\<close>: both audio files together under a schedule of the two interrupts, from the SPI blocks to
      the halves that are sent, against a specification of the stream (\<open>stream_spec\<close>).
    \<^item> \<open>Uart_Protocol\<close>: \<open>features/protocol/uart_protocol.c\<close> and the receiving and sending halves of
      \<open>uart_handler.c\<close>: checksum, receiving state machine, \<open>SendPacket\<close>. \<open>Uart_Parser\<close> compares the state machine
      with a parser of the whole text of bytes.
    \<^item> \<open>Uart_Line\<close>: the reception on the line: \<open>rx_buf\<close> with the transfer of the HAL to it and its callbacks at the
      half, at the end and on an idle line (\<open>stm32f4xx_hal_uart.c\<close>), from the bursts on the line to the packets.
    \<^item> \<open>Matrix_Run\<close>: \<open>features/display/matrix_run.c\<close>. The record \<open>matrix\<close>; each operation returns the drawing
      and player calls it makes as values of the datatype \<open>call\<close>.
    \<^item> \<open>Gui_Paint\<close>, \<open>Fonts\<close>, \<open>Rgb_Matrix\<close>: \<open>drivers/display/gui_paint.c\<close>, \<open>font8.c\<close>, \<open>font12.c\<close> and
      \<open>rgb_matrix_device.c\<close>: drawing on the frame buffer, the font tables byte for byte, the scan of the panel
      as a list of pin writes, and the rotations of the picture. The locale \<open>drawing_contract\<close> is what the screens
      need of a property of drawing operations (\<open>total\<close>, \<open>region\<close> and \<open>spared\<close> interpret it).
    \<^item> \<open>Cycle_Delay\<close>: the delays by the cycle counter in \<open>rgb_matrix_device.c\<close>, which no other code calls.
    \<^item> \<open>Paint_Shapes\<close>: the drawing functions of \<open>gui_paint.c\<close> that no screen uses: circles, Chinese strings, numbers.
    \<^item> \<open>Drawing_Laws\<close>: where a drawing operation may change the picture, which pixels it keeps or sets.
    \<^item> \<open>Sensors\<close>: \<open>features/sensors/mq7.c\<close>, \<open>mq135.c\<close> and \<open>common/data_manager.c\<close>. The locale
      \<open>filtered_sensor\<close> is a converter behind an exponential filter, with its bounds, its settling and its loss by an
      infinite value (interpreted as \<open>co\<close> and \<open>co2\<close>); \<open>ema_filter_rounded\<close> is the filter in floating point.
    \<^item> \<open>Display_Screens\<close>, \<open>Screen_Contents\<close>: \<open>features/display/display_screens.c\<close>; then what the screens
      show, and the carrying out of the scheduler's calls on the frame buffer.
    \<^item> \<open>Sd_Storage\<close>: \<open>services/storage/sd_storage.c\<close>, the list of the WAV files.
    \<^item> \<open>Uart_Handler\<close>: \<open>UART_Handler_Process\<close> with all its commands, on the record \<open>device\<close>.
      \<open>Uart_Races\<close>: the same with the receive interrupt in the middle of the copy of the packet.
    \<^item> \<open>Main_Loop\<close>: \<open>app/app_task.c\<close> and \<open>main.c\<close>. The record \<open>system\<close> is the device with its screen;
      \<open>main_init\<close>, \<open>main_pass\<close>, the relation \<open>interrupt\<close>, and the states they reach, \<open>system_reachable\<close>.
    \<^item> \<open>System_Parts\<close>: the components inside the program: every state the program reaches has them in states they
      reach alone (\<open>rx_in_player\<close>, \<open>player_in_system\<close>, \<open>matrix_in_system\<close>, \<open>uart_in_system\<close>).
    \<^item> \<open>Panel_Scan\<close>: \<open>HAL_TIM_PeriodElapsedCallback\<close> of \<open>main.c\<close>. The record \<open>board\<close> is the program with the row of the
      scan and the pins of the panel; interrupts of the timer between passes of the loop (\<open>board_step\<close>) and between the
      operations of a drawing (\<open>draw_scanned\<close>), and the lamps they light (\<open>lamp\<close>).
    \<^item> \<open>Sd_Spi\<close>: \<open>drivers/storage/sd_spi.c\<close> and \<open>FATFS/Target/user_diskio.c\<close>: the card driver on an
      arbitrary card and clock.
    \<^item> \<open>Linux_Drivers\<close>: \<open>sht20_driver.c\<close> and \<open>motor_driver.c\<close> of \<open>drivers/src\<close>.
    \<^item> \<open>Subway_Api\<close>: \<open>drivers/subway_api/subway_api_parse.c\<close>, the query for the next train from the pieces of the
      answer to the lines that are printed, and \<open>subway_api_test.c\<close>.

  \<^bold>\<open>Conventions.\<close> A static variable is a field of its component's record, under its name; a C integer is a word
  of its width, and arithmetic that C does on \<open>int\<close> is on integers where it cannot overflow. \<open>None\<close> stands for
  what C leaves undefined: an access outside an array, a conversion out of range. A theorem that the result
  is \<open>Some\<close> is thus a statement of memory safety. What a call meets outside the
  program (clock readings, converter results, results of the HAL, the file system, the content of
  uninitialised arrays, bytes on a bus) is an argument or a record of arguments: \<open>fatfs\<close> for the card,
  \<open>surroundings\<close> for the dispatcher, \<open>pass\<close> for one pass of the loop, \<open>miso\<close> and \<open>ticks\<close> for the SPI bus.
  Finite floats are exact rationals; only \<open>ema_filter_rounded\<close> has the rounding of each operation, as an argument.

  \<^bold>\<open>What the lemmas show.\<close>
    \<^item> Invariants: every component with a state has one (\<open>ring_inv\<close>, \<open>player_inv\<close>, \<open>uart_inv\<close>, \<open>matrix_inv\<close>,
      \<open>co2_inv\<close>, together \<open>device_ok\<close> and \<open>system_ok\<close>), each operation and interrupt keeps it, and under it no
      operation leaves its arrays; \<open>main_loop_safe\<close> puts this together for the whole program.
    \<^item> Refinement: every step of the program is, in each component, a sequence of its own steps; the ring and the
      name queue are first-in first-out buffers; the stream player implements its specification, which loses,
      repeats and exchanges nothing while the ring has room and does not dry up; the serial receiver is a parser of the text that the HAL delivers; the scan of the
      panel shows the frame buffer, also while it is drawn; the card driver delivers the blocks that follow the data tokens.
    \<^item> Function: the samples of a filled half, the frames of the protocol and their reception, the order of the
      screens, the pixels of lines, rectangles, characters, bars and arrows, every command of the dispatcher with
      its refusals, the list of files, the values the gas sensors settle on, the next train; and
      \<open>congestion_reaches_panel\<close> from a frame on the serial line to the lamps of the panel.
    \<^item> Limits of the code, stated as it behaves: blocks exchanged or lost when the loop is late, a gap at the start
      of every stream, a packet torn by the next one, the first 32 bytes of a longer burst received twice, the tail of a WAV
      file that is never sent, frames cut at 256 bytes, a cancelled train that stays on the screen, a
      packet replaced before it is answered, an initialisation of the card that may hang,
      a carbon monoxide reading that never recovers from an infinite value, an empty answer that is read uninitialised.

  \<^bold>\<open>Bounds and termination.\<close> There is no fuel. Loops with a counter are recursive functions with a measure. The loops
  that may run for ever, \<open>line_loop\<close>, \<open>circle_loop\<close>, \<open>circle_fill\<close>, \<open>poll\<close>, \<open>acmd41_loop\<close> and \<open>delay_loop\<close>, are partial functions with
  \<open>None\<close> for not returning: \<open>line_connected\<close> shows that lines always end, \<open>circle_drawn\<close> that circles up to radius
  8000 do; \<open>disk_read_delivers_blocks\<close> that waits end as long
  as the clock runs (\<open>clock_runs\<close>: after every reading, some later one is more than 50 ms on);
  \<open>init_never_returns\<close> that the initialisation of the card need not; \<open>delay_waits\<close> that a delay ends while the
  counter runs. Hypotheses on the surroundings: a file system that returns no
  more than it was asked for (\<open>fatfs_ok\<close>), file names within the long-name array (\<open>short_names\<close>), gas
  concentrations that fit the 16 bits of the reply (\<open>answerable\<close>), and measurements up to a hundred million
  (\<open>measurable\<close>, \<open>co_moderate\<close>), far above every sensor's range and small enough for ten times the value to be
  an \<open>int\<close>. Each is shown to hold at a concrete input by a witness.

  \<^bold>\<open>Not modelled.\<close>
    \<^item> Diagnostic output, rounding of floats other than in the filter of the gas sensors, the set-up of peripherals generated by CubeMX.
    \<^item> Interrupts that fall inside a pass of the main loop; they come between passes. In the theories of the stream
      and the player they come between the component's own operations, and the scan of the panel between the operations
      of a drawing. Inside an operation they are modelled in two
      places, the clearing of a buffer event (\<open>clear_event\<close>) and the copy of the packet (\<open>Uart_Races\<close>).
    \<^item> The HAL (but for the serial reception in \<open>Uart_Line\<close>), CMSIS, FatFs, cJSON, curl and the kernel: their calls
      are arguments. Line errors and the error callbacks of the serial reception are left out. Registering and
      unregistering character devices is left out.
    \<^item> The C++ and QML parts (\<open>server\<close>, \<open>client\<close>, \<open>embedded-linux\<close>, the user-space drivers).
\<close>

end
